(* ===== verification/Prelude.thy ===== *)
theory Prelude
  imports Main "HOL-Library.Word"
begin

text \<open>
  What every component of the development shares: the result type of a fallible Rust
  function, bytes and strings, big-endian integers, decimal numbers, and the parts of the Rust
  standard library the modelled code calls (\<open>str::find\<close>, \<open>split_once\<close>, \<open>parse\<close>,
  \<open>from_utf8\<close>, \<open>itoa\<close>-style printing).

  Conventions. A \<open>u8\<close> is an 8-bit word and a byte buffer is a list of them. A Rust
  \<open>str\<close> is its UTF-8 byte sequence, so it has the type of a byte buffer; that the bytes are
  valid UTF-8 is the predicate \<open>utf8_valid\<close> and is stated where it matters. A
  \<open>usize\<close> is a \<open>nat\<close>: it only counts bytes and elements that are in memory. Other
  integers are words of their width.
\<close>

type_synonym u8 = "8 word"
type_synonym u16 = "16 word"
type_synonym u32 = "32 word"
type_synonym str = "u8 list"

named_theorems outcome_splits \<open>case splits for results\<close>
named_theorems str_lits \<open>string literals as bytes\<close>

section \<open>Results\<close>

text \<open>
  A call returns a value, returns an error, or panics (which aborts the caller, as no code
  modelled here catches a panic). \<open>obind\<close> is the \<open>?\<close> operator.
\<close>

datatype ('e, 'a) outcome = Ok 'a | Err 'e | Panic

fun obind :: "('e, 'a) outcome \<Rightarrow> ('a \<Rightarrow> ('e, 'b) outcome) \<Rightarrow> ('e, 'b) outcome" where
  "obind (Ok x) f = f x"
| "obind (Err e) f = Err e"
| "obind Panic f = Panic"

fun omap :: "('a \<Rightarrow> 'b) \<Rightarrow> ('e, 'a) outcome \<Rightarrow> ('e, 'b) outcome" where
  "omap f (Ok x) = Ok (f x)"
| "omap f (Err e) = Err e"
| "omap f Panic = Panic"

fun ok_or :: "'e \<Rightarrow> 'a option \<Rightarrow> ('e, 'a) outcome" where
  "ok_or e (Some x) = Ok x"
| "ok_or e None = Err e"

lemma case_unit [simp]: "(case u of () \<Rightarrow> x) = x"
  by (simp split: unit.split)

lemma obind_cong [fundef_cong]:
  "m = m' \<Longrightarrow> (\<And>x. m' = Ok x \<Longrightarrow> f x = g x) \<Longrightarrow> obind m f = obind m' g"
  by (cases m') auto

lemma obind_eq_Ok: "obind m f = Ok y \<longleftrightarrow> (\<exists>x. m = Ok x \<and> f x = Ok y)"
  by (cases m) auto

lemma obind_eq_Err: "obind m f = Err e \<longleftrightarrow> m = Err e \<or> (\<exists>x. m = Ok x \<and> f x = Err e)"
  by (cases m) auto

lemma obind_eq_Panic: "obind m f = Panic \<longleftrightarrow> m = Panic \<or> (\<exists>x. m = Ok x \<and> f x = Panic)"
  by (cases m) auto

lemma obind_assoc: "obind (obind m f) g = obind m (\<lambda>x. obind (f x) g)"
  by (cases m) auto

lemma obind_Ok_right [simp]: "obind m Ok = m"
  by (cases m) auto

lemma omap_obind: "omap f m = obind m (\<lambda>x. Ok (f x))"
  by (cases m) auto

lemma omap_eq_Ok: "omap f m = Ok y \<longleftrightarrow> (\<exists>x. m = Ok x \<and> y = f x)"
  by (cases m) auto

lemma omap_eq_Err [simp]: "omap f m = Err e \<longleftrightarrow> m = Err e"
  by (cases m) auto

lemma omap_eq_Panic [simp]: "omap f m = Panic \<longleftrightarrow> m = Panic"
  by (cases m) auto

lemma ok_or_eq_Ok [simp]: "ok_or e x = Ok y \<longleftrightarrow> x = Some y"
  by (cases x) auto

lemma ok_or_not_Panic [simp]: "ok_or e x \<noteq> Panic"
  by (cases x) auto

lemma ok_or_eq_Err [simp]: "ok_or e x = Err e' \<longleftrightarrow> x = None \<and> e' = e"
  by (cases x) auto

lemmas obind_eqs = obind_eq_Ok obind_eq_Err obind_eq_Panic omap_eq_Ok

declare outcome.splits [outcome_splits] if_splits [outcome_splits] option.splits [outcome_splits]

section \<open>String literals\<close>

definition lit :: "string \<Rightarrow> str" where
  "lit s = map of_char s"

lemma lit_Nil [simp]: "lit [] = []"
  by (simp add: lit_def)

lemma lit_Cons: "lit (c # cs) = of_char c # lit cs"
  by (simp add: lit_def)

section \<open>Big-endian integers\<close>

text \<open>\<open>be_nat\<close> reads an unsigned big-endian integer and \<open>be_bytes k\<close> writes the low
  \<open>k\<close> bytes of one, as \<open>from_be_bytes\<close> and \<open>to_be_bytes\<close> do at each width.\<close>

fun be_nat :: "u8 list \<Rightarrow> nat" where
  "be_nat [] = 0"
| "be_nat (b # bs) = unat b * 256 ^ length bs + be_nat bs"

fun be_bytes :: "nat \<Rightarrow> nat \<Rightarrow> u8 list" where
  "be_bytes 0 n = []"
| "be_bytes (Suc k) n = of_nat (n div 256 ^ k) # be_bytes k n"

lemma unat_u8_bound [simp]: "unat (b :: u8) < 256"
  using unsigned_less [of b] by simp

lemma unat_u8_of_nat: "unat (of_nat n :: u8) = n mod 256"
  by (simp add: unat_of_nat)

text \<open>A property of one byte is checked by running through all of them.\<close>

lemma unat_u16_of_nat: "n < 65536 \<Longrightarrow> unat (of_nat n :: u16) = n"
  by (simp add: unat_of_nat)

lemma u8_all:
  assumes "list_all P (map word_of_int [0..255])"
  shows "P (b :: u8)"
proof -
  have "uint b \<in> set [0..255]" using uint_lt2p [of b] by simp
  then have "b \<in> set (map word_of_int [0..255])" by (metis image_eqI set_map word_of_int_uint)
  with assms show ?thesis by (auto simp: list_all_iff)
qed

lemma length_be_bytes [simp]: "length (be_bytes k n) = k"
  by (induction k) auto

lemma be_nat_bound: "be_nat bs < 256 ^ length bs"
proof (induction bs)
  case Nil
  then show ?case by simp
next
  case (Cons b bs)
  have "unat b * 256 ^ length bs + be_nat bs < unat b * 256 ^ length bs + 256 ^ length bs"
    using Cons.IH by simp
  also have "\<dots> = Suc (unat b) * 256 ^ length bs" by simp
  also have "\<dots> \<le> 256 * 256 ^ length bs"
    using unat_u8_bound [of b] by (intro mult_le_mono1) linarith
  finally show ?case by simp
qed

lemma be_nat_be_bytes: "be_nat (be_bytes k n) = n mod 256 ^ k"
proof (induction k)
  case 0
  then show ?case by simp
next
  case (Suc k)
  have "n mod (256 ^ k * 256) = 256 ^ k * (n div 256 ^ k mod 256) + n mod 256 ^ k"
    by (rule mod_mult2_eq)
  then show ?case by (simp add: Suc unat_u8_of_nat mult.commute)
qed

lemma be_nat_be_bytes_id: "n < 256 ^ k \<Longrightarrow> be_nat (be_bytes k n) = n"
  by (simp add: be_nat_be_bytes)

lemma be_nat_inj: "length bs = length bs' \<Longrightarrow> be_nat bs = be_nat bs' \<Longrightarrow> bs = bs'"
proof (induction bs bs' rule: list_induct2)
  case Nil
  then show ?case by simp
next
  case (Cons b bs b' bs')
  let ?p = "256 ^ length bs :: nat"
  have eq: "unat b * ?p + be_nat bs = unat b' * ?p + be_nat bs'"
    using Cons by simp
  have "be_nat bs < ?p" "be_nat bs' < ?p"
    using be_nat_bound [of bs] be_nat_bound [of bs'] Cons.hyps by simp_all
  then have "(unat b * ?p + be_nat bs) div ?p = unat b" "(unat b' * ?p + be_nat bs') div ?p = unat b'"
    by simp_all
  with eq have "unat b = unat b'" by metis
  then show ?case using eq Cons.IH by (simp add: word_unat_eq_iff)
qed

section \<open>Decimal numbers\<close>

text \<open>
  \<open>parse_uint B\<close> is \<open>str::parse\<close> for the unsigned type with \<open>B\<close> values: an optional
  \<open>+\<close>, then at least one digit, and no overflow.
\<close>

fun parse_digits :: "nat \<Rightarrow> nat \<Rightarrow> str \<Rightarrow> nat option" where
  "parse_digits B acc [] = Some acc"
| "parse_digits B acc (c # cs) =
     (if 9 < c - 48 then None
      else if acc * 10 + unat (c - 48) < B then parse_digits B (acc * 10 + unat (c - 48)) cs
      else None)"

definition parse_uint :: "nat \<Rightarrow> str \<Rightarrow> nat option" where
  "parse_uint B s =
     (let t = (case s of [] \<Rightarrow> [] | c # cs \<Rightarrow> if c = 43 then cs else s)
      in if t = [] then None else parse_digits B 0 t)"

fun dec :: "nat \<Rightarrow> str" where
  "dec n = (if n < 10 then [48 + of_nat n] else dec (n div 10) @ [48 + of_nat (n mod 10)])"

declare dec.simps [simp del]

definition is_digit :: "u8 \<Rightarrow> bool" where
  "is_digit c \<longleftrightarrow> 48 \<le> c \<and> c \<le> 57"

lemma digit_word: "n < 10 \<Longrightarrow> (48 + of_nat n :: u8) - 48 = of_nat n \<and> unat (of_nat n :: u8) = n"
  by (simp add: unat_u8_of_nat)

lemma digit_not_over: "n < 10 \<Longrightarrow> \<not> 9 < (of_nat n :: u8)"
  by (simp add: word_less_nat_alt unat_u8_of_nat)

lemma is_digit_of_nat: "n < 10 \<Longrightarrow> is_digit (48 + of_nat n)"
  by (simp add: is_digit_def word_le_nat_alt unat_word_ariths unat_u8_of_nat)

lemma dec_nonempty [simp]: "dec n \<noteq> []"
  by (subst dec.simps) simp

lemma dec_digits: "list_all is_digit (dec n)"
proof (induction n rule: dec.induct)
  case (1 n)
  show ?case
    by (subst dec.simps) (auto simp: 1 is_digit_of_nat)
qed

lemma parse_digits_snoc:
  "parse_digits B acc (xs @ [c]) =
     Option.bind (parse_digits B acc xs) (\<lambda>v. parse_digits B v [c])"
  by (induction xs arbitrary: acc) auto

lemma parse_digits_dec: "n < B \<Longrightarrow> parse_digits B 0 (dec n) = Some n"
proof (induction n rule: dec.induct)
  case (1 n)
  show ?case
  proof (cases "n < 10")
    case True
    then have "dec n = [48 + of_nat n]" by (simp add: dec.simps)
    with True "1.prems" show ?thesis
      by (simp add: digit_word digit_not_over)
  next
    case False
    with 1 have "parse_digits B 0 (dec (n div 10)) = Some (n div 10)" by simp
    moreover have "n div 10 * 10 + n mod 10 = n" by simp
    moreover have "dec n = dec (n div 10) @ [48 + of_nat (n mod 10)]"
      using False by (simp add: dec.simps)
    ultimately show ?thesis
      using "1.prems" by (simp add: parse_digits_snoc digit_word digit_not_over)
  qed
qed

lemma is_digit_not_plus: "is_digit c \<Longrightarrow> c \<noteq> 43"
  by (auto simp: is_digit_def)

lemma parse_uint_dec [simp]: "n < B \<Longrightarrow> parse_uint B (dec n) = Some n"
proof -
  assume "n < B"
  then have "parse_digits B 0 (dec n) = Some n" by (rule parse_digits_dec)
  moreover obtain c cs where c: "dec n = c # cs"
    using dec_nonempty by (cases "dec n") auto
  moreover have "c \<noteq> 43"
    using dec_digits [of n] c is_digit_not_plus by simp
  ultimately show ?thesis by (simp add: parse_uint_def)
qed

lemma parse_digits_bound: "acc < B \<Longrightarrow> parse_digits B acc s = Some v \<Longrightarrow> v < B"
  by (induction s arbitrary: acc) (auto split: if_splits)

lemma parse_uint_bound: "0 < B \<Longrightarrow> parse_uint B s = Some v \<Longrightarrow> v < B"
  unfolding parse_uint_def Let_def by (auto split: if_splits dest: parse_digits_bound [rotated])

lemma parse_uint_Nil [simp]: "parse_uint B [] = None"
  by (simp add: parse_uint_def)

section \<open>Searching and splitting strings\<close>

definition str_find :: "u8 \<Rightarrow> str \<Rightarrow> nat option" where
  "str_find c s = (if c \<in> set s then Some (length (takeWhile (\<lambda>b. b \<noteq> c) s)) else None)"

definition str_rfind :: "u8 \<Rightarrow> str \<Rightarrow> nat option" where
  "str_rfind c s =
     (if c \<in> set s then Some (length s - 1 - length (takeWhile (\<lambda>b. b \<noteq> c) (rev s))) else None)"

definition split_once :: "u8 \<Rightarrow> str \<Rightarrow> (str \<times> str) option" where
  "split_once c s = map_option (\<lambda>i. (take i s, drop (i + 1) s)) (str_find c s)"

definition rsplit_once :: "u8 \<Rightarrow> str \<Rightarrow> (str \<times> str) option" where
  "rsplit_once c s = map_option (\<lambda>i. (take i s, drop (i + 1) s)) (str_rfind c s)"

lemma str_find_None [simp]: "str_find c s = None \<longleftrightarrow> c \<notin> set s"
  by (simp add: str_find_def)

lemma str_rfind_None [simp]: "str_rfind c s = None \<longleftrightarrow> c \<notin> set s"
  by (simp add: str_rfind_def)

lemma str_find_notin [simp]: "c \<notin> set s \<Longrightarrow> str_find c s = None"
  by simp

lemma str_rfind_notin [simp]: "c \<notin> set s \<Longrightarrow> str_rfind c s = None"
  by simp

lemma split_once_notin [simp]: "c \<notin> set s \<Longrightarrow> split_once c s = None"
  by (simp add: split_once_def)

lemma rsplit_once_notin [simp]: "c \<notin> set s \<Longrightarrow> rsplit_once c s = None"
  by (simp add: rsplit_once_def)

lemma str_find_append [simp]: "c \<notin> set xs \<Longrightarrow> str_find c (xs @ c # ys) = Some (length xs)"
  by (auto simp: str_find_def takeWhile_append)

lemma str_rfind_append [simp]: "c \<notin> set ys \<Longrightarrow> str_rfind c (xs @ c # ys) = Some (length xs)"
  by (simp add: str_rfind_def takeWhile_append)

lemma str_find_SomeE:
  assumes "str_find c s = Some i"
  obtains xs ys where "s = xs @ c # ys" "c \<notin> set xs" "i = length xs"
  using assms
proof -
  from assms have "c \<in> set s" by (auto simp: str_find_def split: if_splits)
  then obtain xs ys where s: "s = xs @ c # ys" "c \<notin> set xs"
    by (meson split_list_first)
  with assms show ?thesis by (intro that [of xs ys]) auto
qed

lemma str_rfind_SomeE:
  assumes "str_rfind c s = Some i"
  obtains xs ys where "s = xs @ c # ys" "c \<notin> set ys" "i = length xs"
  using assms
proof -
  from assms have "c \<in> set s" by (auto simp: str_rfind_def split: if_splits)
  then obtain xs ys where s: "s = xs @ c # ys" "c \<notin> set ys"
    by (meson split_list_last)
  with assms show ?thesis by (intro that [of xs ys]) auto
qed

lemma split_once_append: "c \<notin> set xs \<Longrightarrow> split_once c (xs @ c # ys) = Some (xs, ys)"
  by (simp add: split_once_def)

lemma rsplit_once_append: "c \<notin> set ys \<Longrightarrow> rsplit_once c (xs @ c # ys) = Some (xs, ys)"
  by (simp add: rsplit_once_def)

lemma split_once_None [simp]: "split_once c s = None \<longleftrightarrow> c \<notin> set s"
  by (simp add: split_once_def)

lemma rsplit_once_None [simp]: "rsplit_once c s = None \<longleftrightarrow> c \<notin> set s"
  by (simp add: rsplit_once_def)

section \<open>UTF-8\<close>

text \<open>\<open>utf8_valid\<close> is the acceptance condition of \<open>std::str::from_utf8\<close>: well-formed
  UTF-8, with no overlong form, no surrogate and nothing above U+10FFFF.\<close>

definition cont :: "u8 \<Rightarrow> bool" where
  "cont b \<longleftrightarrow> 128 \<le> b \<and> b \<le> 191"

fun utf8_tail2 :: "u8 list \<Rightarrow> bool" where
  "utf8_tail2 (b # bs) = cont b"
| "utf8_tail2 [] = False"

fun utf8_tail3 :: "u8 \<Rightarrow> u8 list \<Rightarrow> bool" where
  "utf8_tail3 a (b # bs) =
     (cont b \<and> (a = 224 \<longrightarrow> 160 \<le> b) \<and> (a = 237 \<longrightarrow> b \<le> 159) \<and> utf8_tail2 bs)"
| "utf8_tail3 a [] = False"

fun utf8_tail4 :: "u8 \<Rightarrow> u8 list \<Rightarrow> bool" where
  "utf8_tail4 a (b # bs) =
     (cont b \<and> (a = 240 \<longrightarrow> 144 \<le> b) \<and> (a = 244 \<longrightarrow> b \<le> 143) \<and>
      (case bs of [] \<Rightarrow> False | c # cs \<Rightarrow> cont c \<and> utf8_tail2 cs))"
| "utf8_tail4 a [] = False"

text \<open>The length of the character a byte sequence starts with, 0 when it is malformed.\<close>

fun utf8_head :: "u8 list \<Rightarrow> nat" where
  "utf8_head [] = 0"
| "utf8_head (a # bs) =
     (if a < 128 then 1
      else if 194 \<le> a \<and> a \<le> 223 then (if utf8_tail2 bs then 2 else 0)
      else if 224 \<le> a \<and> a \<le> 239 then (if utf8_tail3 a bs then 3 else 0)
      else if 240 \<le> a \<and> a \<le> 244 then (if utf8_tail4 a bs then 4 else 0)
      else 0)"

function utf8_valid :: "u8 list \<Rightarrow> bool" where
  "utf8_valid bs =
     (if bs = [] then True
      else if utf8_head bs = 0 then False
      else utf8_valid (drop (utf8_head bs) bs))"
  by pat_completeness auto
termination
  by (relation "measure length") (auto simp del: utf8_head.simps)

declare utf8_valid.simps [simp del]

lemma utf8_valid_Nil [simp]: "utf8_valid []"
  by (simp add: utf8_valid.simps)

lemma utf8_tail_append:
  "utf8_tail2 xs \<Longrightarrow> utf8_tail2 (xs @ ys)"
  "utf8_tail3 a xs \<Longrightarrow> utf8_tail3 a (xs @ ys)"
  "utf8_tail4 a xs \<Longrightarrow> utf8_tail4 a (xs @ ys)"
proof -
  have t2: "utf8_tail2 xs \<Longrightarrow> utf8_tail2 (xs @ ys)" for xs
    by (cases xs) auto
  then show "utf8_tail2 xs \<Longrightarrow> utf8_tail2 (xs @ ys)" .
  show "utf8_tail3 a xs \<Longrightarrow> utf8_tail3 a (xs @ ys)"
    by (cases xs) (auto simp: t2)
  show "utf8_tail4 a xs \<Longrightarrow> utf8_tail4 a (xs @ ys)"
    by (cases xs) (auto simp: t2 split: list.splits)
qed

lemma ascii_not_cont: "c < 128 \<Longrightarrow> \<not> cont c"
  by (auto simp: cont_def)

lemma utf8_tail_cut:
  assumes "c < 128"
  shows "utf8_tail2 (xs @ c # ys) = utf8_tail2 xs"
    and "utf8_tail3 a (xs @ c # ys) = utf8_tail3 a xs"
    and "utf8_tail4 a (xs @ c # ys) = utf8_tail4 a xs"
proof -
  note nc = ascii_not_cont [OF assms]
  have t2: "utf8_tail2 (xs @ c # ys) = utf8_tail2 xs" for xs
    by (cases xs) (auto simp: nc)
  then show "utf8_tail2 (xs @ c # ys) = utf8_tail2 xs" .
  show "utf8_tail3 a (xs @ c # ys) = utf8_tail3 a xs"
    by (cases xs) (auto simp: t2 nc)
  show "utf8_tail4 a (xs @ c # ys) = utf8_tail4 a xs"
    by (cases xs) (auto simp: t2 nc split: list.splits)
qed

lemma utf8_head_append: "utf8_head xs \<noteq> 0 \<Longrightarrow> utf8_head (xs @ ys) = utf8_head xs"
  by (cases xs) (auto simp: utf8_tail_append split: if_splits)

lemma utf8_head_cut: "c < 128 \<Longrightarrow> xs \<noteq> [] \<Longrightarrow> utf8_head (xs @ c # ys) = utf8_head xs"
  by (cases xs) (auto simp: utf8_tail_cut)

lemma utf8_tail_length:
  "utf8_tail2 xs \<Longrightarrow> 1 \<le> length xs"
  "utf8_tail3 a xs \<Longrightarrow> 2 \<le> length xs"
  "utf8_tail4 a xs \<Longrightarrow> 3 \<le> length xs"
proof -
  have t2: "utf8_tail2 xs \<Longrightarrow> 1 \<le> length xs" for xs
    by (cases xs) auto
  then show "utf8_tail2 xs \<Longrightarrow> 1 \<le> length xs" .
  show "utf8_tail3 a xs \<Longrightarrow> 2 \<le> length xs"
    by (cases xs) (auto dest: t2)
  show "utf8_tail4 a xs \<Longrightarrow> 3 \<le> length xs"
    by (cases xs) (auto dest: t2 split: list.splits)
qed

lemma utf8_head_length: "utf8_head xs \<le> length xs"
  using utf8_tail_length by (cases xs) fastforce+

lemma utf8_valid_append: "utf8_valid xs \<Longrightarrow> utf8_valid ys \<Longrightarrow> utf8_valid (xs @ ys)"
proof (induction xs rule: utf8_valid.induct)
  case (1 xs)
  show ?case
  proof (cases "xs = []")
    case True
    with "1.prems" show ?thesis by simp
  next
    case False
    from "1.prems"(1) False have h: "utf8_head xs \<noteq> 0" and v: "utf8_valid (drop (utf8_head xs) xs)"
      by (simp_all add: utf8_valid.simps [of xs] split: if_splits)
    from "1.IH" [OF False h v "1.prems"(2)] False h show ?thesis
      using utf8_head_length [of xs] utf8_valid.simps [of "xs @ ys"] utf8_head_append [OF h, of ys]
      by simp
  qed
qed

text \<open>An ASCII byte is a character boundary: a string cut there has valid halves.\<close>

lemma utf8_valid_Cons_ascii [simp]: "c < 128 \<Longrightarrow> utf8_valid (c # ys) = utf8_valid ys"
  by (simp add: utf8_valid.simps [of "c # ys"])

lemma utf8_valid_cut: "c < 128 \<Longrightarrow> utf8_valid (xs @ c # ys) \<longleftrightarrow> utf8_valid xs \<and> utf8_valid ys"
proof (induction xs rule: utf8_valid.induct)
  case (1 xs)
  show ?case
  proof (cases "xs = []")
    case True
    with "1.prems" show ?thesis by simp
  next
    case False
    note hd = utf8_head_cut [OF "1.prems" False, of ys]
    show ?thesis
    proof (cases "utf8_head xs = 0")
      case True
      then show ?thesis
        using False hd utf8_valid.simps [of "xs @ c # ys"] utf8_valid.simps [of xs] by simp
    next
      case h: False
      from "1.IH" [OF False h "1.prems"] show ?thesis
        using False h hd utf8_head_length [of xs]
          utf8_valid.simps [of "xs @ c # ys"] utf8_valid.simps [of xs] by simp
    qed
  qed
qed

lemma utf8_valid_ascii: "list_all (\<lambda>b. b < 128) s \<Longrightarrow> utf8_valid s"
  by (induction s) auto

lemma is_digit_ascii: "is_digit c \<Longrightarrow> c < 128"
  by (auto simp: is_digit_def intro: le_less_trans)

end
