(* ===== verification/Token.thy ===== *)
theory Token
  imports Prelude
begin

text \<open>
  The token dictionary of the binary protocol: \<open>token.rs\<close> and the build script
  \<open>build.rs\<close> that lays out the tables it reads.

  The build script turns the token lists of \<open>tokens.json\<close> into one open-addressing hash
  table (\<open>build_tokens\<close>), and \<open>lookup_bytes\<close> probes that table. The result of the theory is
  that the probe always ends and agrees with the plain association list of the tokens on every
  byte string: a string is looked up to the kind at which the decoding arrays hold it.
  \<open>tables_ok\<close> is what the encoder and the decoder rely on.
\<close>

unbundle bit_operations_syntax

section \<open>Special tags\<close>

abbreviation (input) LIST_EMPTY :: u8 where "LIST_EMPTY \<equiv> 0"
abbreviation (input) DICTIONARY_0 :: u8 where "DICTIONARY_0 \<equiv> 236"
abbreviation (input) DICTIONARY_3 :: u8 where "DICTIONARY_3 \<equiv> 239"
abbreviation (input) INTEROP_JID :: u8 where "INTEROP_JID \<equiv> 245"
abbreviation (input) FB_JID :: u8 where "FB_JID \<equiv> 246"
abbreviation (input) AD_JID :: u8 where "AD_JID \<equiv> 247"
abbreviation (input) LIST_8 :: u8 where "LIST_8 \<equiv> 248"
abbreviation (input) LIST_16 :: u8 where "LIST_16 \<equiv> 249"
abbreviation (input) JID_PAIR :: u8 where "JID_PAIR \<equiv> 250"
abbreviation (input) HEX_8 :: u8 where "HEX_8 \<equiv> 251"
abbreviation (input) BINARY_8 :: u8 where "BINARY_8 \<equiv> 252"
abbreviation (input) BINARY_20 :: u8 where "BINARY_20 \<equiv> 253"
abbreviation (input) BINARY_32 :: u8 where "BINARY_32 \<equiv> 254"
abbreviation (input) NIBBLE_8 :: u8 where "NIBBLE_8 \<equiv> 255"

abbreviation (input) PACKED_MAX :: nat where "PACKED_MAX \<equiv> 127"

datatype token_kind = Single u8 | Double u8 u8

section \<open>The generated tables\<close>

text \<open>The constants of the generated file \<open>token_maps.rs\<close>.\<close>

record token_tables =
  max_token_len :: nat
  tok_mul :: u32
  tok_shift :: nat
  tok_mask :: nat
  tok_keys :: "u32 list"
  tok_meta :: "u16 list"
  tok_off :: "u16 list"
  tok_blob :: "u8 list"
  single_byte_tokens :: "str list"
  double_byte_tokens :: "str list list"

section \<open>Lookup\<close>

definition from_le32 :: "u8 \<Rightarrow> u8 \<Rightarrow> u8 \<Rightarrow> u8 \<Rightarrow> u32" where
  "from_le32 a b c d = ucast a + 256 * ucast b + 65536 * ucast c + 16777216 * ucast d"

definition decode_kind :: "u16 \<Rightarrow> token_kind" where
  "decode_kind kind =
     (if kind < 256 then Single (ucast kind) else Double (ucast (drop_bit 8 kind) - 1) (ucast kind))"

text \<open>
  One probe loop serves both key shapes; \<open>accept\<close> is the check a slot with the right key
  has to pass. The loop of the source has no bound: \<open>None\<close> stands for a probe that ends
  neither at an empty slot nor at an accepted one within the budget, or that indexes outside
  an array (which panics).
\<close>

fun probe :: "token_tables \<Rightarrow> (nat \<Rightarrow> bool option) \<Rightarrow> u32 \<Rightarrow> nat \<Rightarrow> nat \<Rightarrow> token_kind option option" where
  "probe T accept x 0 h = None"
| "probe T accept x (Suc n) h =
     (if length (tok_keys T) \<le> h then None
      else if tok_keys T ! h = 0 then Some None
      else (case (if tok_keys T ! h = x then accept h else Some False) of
              None \<Rightarrow> None
            | Some True \<Rightarrow> Some (Some (decode_kind (tok_meta T ! h AND 0x7FF)))
            | Some False \<Rightarrow> probe T accept x n ((h + 1) AND tok_mask T)))"

definition accept_short :: "token_tables \<Rightarrow> nat \<Rightarrow> nat \<Rightarrow> bool option" where
  "accept_short T len h =
     (if h < length (tok_meta T) then Some (unat (drop_bit 11 (tok_meta T ! h)) = len - 1) else None)"

definition accept_long :: "token_tables \<Rightarrow> u8 list \<Rightarrow> nat \<Rightarrow> bool option" where
  "accept_long T key h =
     (if length (tok_meta T) \<le> h then None
      else if drop_bit 11 (tok_meta T ! h) \<noteq> 31 then Some False
      else if length (tok_off T) \<le> h then None
      else (let off = unat (tok_off T ! h) in
        if length (tok_blob T) \<le> off then None
        else if unat (tok_blob T ! off) \<noteq> length key then Some False
        else if length (tok_blob T) < off + 1 + length key then None
        else Some (take (length key) (drop (off + 1) (tok_blob T)) = key)))"

definition hash_slot :: "u32 \<Rightarrow> nat \<Rightarrow> u32 \<Rightarrow> nat" where
  "hash_slot mul shift x = unat (drop_bit shift (x * mul))"

definition lookup_bytes :: "token_tables \<Rightarrow> u8 list \<Rightarrow> token_kind option option" where
  "lookup_bytes T key =
     (let len = length key in
      if len = 0 \<or> max_token_len T < len then Some None
      else if len \<le> 4 then
        (let x = (case key of
                    [a] \<Rightarrow> ucast a
                  | [a, b] \<Rightarrow> from_le32 a b 0 0
                  | [a, b, c] \<Rightarrow> from_le32 a b c 0
                  | _ \<Rightarrow> from_le32 (key ! 0) (key ! 1) (key ! 2) (key ! 3))
         in probe T (accept_short T len) x (length (tok_keys T))
              (hash_slot (tok_mul T) (tok_shift T) x))
      else
        (let hd4 = from_le32 (key ! 0) (key ! 1) (key ! 2) (key ! 3);
             tl4 = from_le32 (key ! (len - 4)) (key ! (len - 3)) (key ! (len - 2)) (key ! (len - 1));
             x = word_rotl 11 hd4 XOR tl4 XOR (of_nat len * 0x9E3779B1)
         in probe T (accept_long T key) x (length (tok_keys T))
              (hash_slot (tok_mul T) (tok_shift T) x)))"

text \<open>\<open>lookup_bytes\<close> never yields \<open>None\<close> on tables the build script made
  (\<open>lookup_bytes_correct\<close>), so joining the two levels loses nothing there.\<close>

definition index_of_token :: "token_tables \<Rightarrow> str \<Rightarrow> token_kind option" where
  "index_of_token T s = Option.bind (lookup_bytes T s) (\<lambda>r. r)"

definition get_single_token :: "token_tables \<Rightarrow> u8 \<Rightarrow> str option" where
  "get_single_token T i =
     (if unat i < length (single_byte_tokens T) then Some (single_byte_tokens T ! unat i) else None)"

definition get_double_token :: "token_tables \<Rightarrow> u8 \<Rightarrow> u8 \<Rightarrow> str option" where
  "get_double_token T dict i =
     (if unat dict < length (double_byte_tokens T) then
        (let d = double_byte_tokens T ! unat dict in
         if unat i < length d then Some (d ! unat i) else None)
      else None)"

section \<open>The build script\<close>

definition token_key :: "u8 list \<Rightarrow> u32" where
  "token_key bs =
     (case bs of
        [a] \<Rightarrow> ucast a
      | [a, b] \<Rightarrow> from_le32 a b 0 0
      | [a, b, c] \<Rightarrow> from_le32 a b c 0
      | [a, b, c, d] \<Rightarrow> from_le32 a b c d
      | _ \<Rightarrow>
        (let len = length bs;
             hd4 = from_le32 (bs ! 0) (bs ! 1) (bs ! 2) (bs ! 3);
             tl4 = from_le32 (bs ! (len - 4)) (bs ! (len - 3)) (bs ! (len - 2)) (bs ! (len - 1))
         in word_rotl 11 hd4 XOR tl4 XOR (of_nat len * 0x9E3779B1)))"

type_synonym slots = "u32 list \<times> u16 list \<times> u16 list"
type_synonym tok_entry = "u32 \<times> u16 \<times> u16"

text \<open>The free slot an entry goes to: at most eight steps from its home slot.\<close>

fun find_slot :: "u32 list \<Rightarrow> nat \<Rightarrow> nat \<Rightarrow> nat option" where
  "find_slot keys n h =
     (if keys ! h = 0 then Some h
      else (case n of 0 \<Rightarrow> None
            | Suc m \<Rightarrow> find_slot keys m ((h + 1) AND (length keys - 1))))"

declare find_slot.simps [simp del]

fun insert_entries :: "u32 \<Rightarrow> nat \<Rightarrow> tok_entry list \<Rightarrow> slots \<Rightarrow> slots option" where
  "insert_entries mul k [] sl = Some sl"
| "insert_entries mul k ((x, m, off) # es) (keys, meta, offs) =
     (case find_slot keys 8 (hash_slot mul (32 - k) x) of
        None \<Rightarrow> None
      | Some h \<Rightarrow> insert_entries mul k es (keys[h := x], meta[h := m], offs[h := off]))"

fun try_muls :: "nat \<Rightarrow> u32 \<Rightarrow> nat \<Rightarrow> tok_entry list \<Rightarrow> (u32 \<times> slots) option" where
  "try_muls 0 mul k es = None"
| "try_muls (Suc n) mul k es =
     (let size = 2 ^ k in
      case insert_entries mul k es (replicate size 0, replicate size 0, replicate size 0) of
        Some sl \<Rightarrow> Some (mul, sl)
      | None \<Rightarrow> try_muls n ((mul * 0x85EBCA6B) OR 1) k es)"

text \<open>\<open>32 - k\<close> underflows, and the build panics, once \<open>k\<close> passes 32.\<close>

function build_from :: "nat \<Rightarrow> tok_entry list \<Rightarrow> (unit, u32 \<times> nat \<times> slots) outcome" where
  "build_from k es =
     (if 32 < k then Panic
      else (case try_muls 256 0x9E3779B1 k es of
              Some (mul, sl) \<Rightarrow> Ok (mul, k, sl)
            | None \<Rightarrow> build_from (k + 1) es))"
  by pat_completeness auto
termination
  by (relation "measure (\<lambda>(k, es). 33 - k)") auto

declare build_from.simps [simp del]

text \<open>The number of binary digits of \<open>n\<close>: \<open>usize::BITS - n.leading_zeros()\<close>.\<close>

fun bit_len :: "nat \<Rightarrow> nat" where
  "bit_len n = (if n = 0 then 0 else Suc (bit_len (n div 2)))"

declare bit_len.simps [simp del]

definition build_table :: "tok_entry list \<Rightarrow> (unit, u32 \<times> nat \<times> slots) outcome" where
  "build_table es = build_from (bit_len (length es * 4 div 3)) es"

text \<open>The token values: every non-empty token with its kind. A duplicate or an index that
  does not fit stops the build.\<close>

fun single_values :: "nat \<Rightarrow> str list \<Rightarrow> (str \<times> nat) list \<Rightarrow> (unit, (str \<times> nat) list) outcome" where
  "single_values i [] vs = Ok vs"
| "single_values i (t # ts) vs =
     (if t = [] then single_values (Suc i) ts vs
      else if 65536 \<le> i then Err ()
      else if 256 \<le> i then Panic
      else if t \<in> set (map fst vs) then Panic
      else single_values (Suc i) ts (vs @ [(t, i)]))"

fun double_values_in :: "nat \<Rightarrow> nat \<Rightarrow> str list \<Rightarrow> (str \<times> nat) list \<Rightarrow> (unit, (str \<times> nat) list) outcome" where
  "double_values_in d i [] vs = Ok vs"
| "double_values_in d i (t # ts) vs =
     (if t = [] then double_values_in d (Suc i) ts vs
      else if 256 \<le> i then Panic
      else if 256 \<le> d + 1 then Panic
      else if t \<in> set (map fst vs) then Panic
      else double_values_in d (Suc i) ts (vs @ [(t, (d + 1) * 256 + i)]))"

fun double_values :: "nat \<Rightarrow> str list list \<Rightarrow> (str \<times> nat) list \<Rightarrow> (unit, (str \<times> nat) list) outcome" where
  "double_values d [] vs = Ok vs"
| "double_values d (ts # tss) vs = obind (double_values_in d 0 ts vs) (double_values (Suc d) tss)"

text \<open>One table entry per value; long tokens are appended to the blob behind their length.\<close>

fun make_entries :: "(str \<times> nat) list \<Rightarrow> u8 list \<Rightarrow> tok_entry list \<Rightarrow> (unit, tok_entry list \<times> u8 list) outcome" where
  "make_entries [] blob es = Ok (es, blob)"
| "make_entries ((t, k) # vs) blob es =
     (if 0 \<in> set t then Panic
      else if 2048 \<le> k then Panic
      else if token_key t = 0 then Panic
      else if length t \<le> 4 then
        make_entries vs blob
          (es @ [(token_key t, of_nat k OR push_bit 11 (of_nat (length t) - 1), 0)])
      else if 65536 \<le> length blob then Err ()
      else
        make_entries vs (blob @ of_nat (length t) # t)
          (es @ [(token_key t, of_nat k OR push_bit 11 31, of_nat (length blob))]))"

definition token_values :: "str list \<Rightarrow> str list list \<Rightarrow> (unit, (str \<times> nat) list) outcome" where
  "token_values sb db = obind (single_values 0 sb []) (double_values 0 db)"

definition max_len :: "(str \<times> nat) list \<Rightarrow> nat" where
  "max_len vs = fold (\<lambda>(t, k) m. max m (length t)) vs 0"

definition build_tokens :: "str list \<Rightarrow> str list list \<Rightarrow> (unit, token_tables) outcome" where
  "build_tokens sb db =
     obind (token_values sb db) (\<lambda>vs.
     if 256 \<le> max_len vs then Panic
     else obind (make_entries vs [] []) (\<lambda>(es, blob).
     obind (build_table es) (\<lambda>(mul, k, (keys, meta, offs)).
     Ok \<lparr>max_token_len = max_len vs, tok_mul = mul, tok_shift = 32 - k,
         tok_mask = length keys - 1, tok_keys = keys, tok_meta = meta, tok_off = offs,
         tok_blob = blob, single_byte_tokens = sb, double_byte_tokens = db\<rparr>)))"

section \<open>Correctness of the table\<close>

subsection \<open>Keys\<close>

lemma from_le32_be: "from_le32 a b c d = of_nat (be_nat [d, c, b, a])"
  by (simp add: from_le32_def)

lemma unat_from_le32: "unat (from_le32 a b c d) = be_nat [d, c, b, a]"
proof -
  have "be_nat [d, c, b, a] < 2 ^ 32"
    using be_nat_bound [of "[d, c, b, a]"] by (simp del: be_nat.simps)
  then show ?thesis
    by (simp add: from_le32_be unat_of_nat del: be_nat.simps)
qed

lemma from_le32_inj:
  assumes "from_le32 a b c d = from_le32 a' b' c' d'"
  shows "a = a' \<and> b = b' \<and> c = c' \<and> d = d'"
proof -
  have "be_nat [d, c, b, a] = be_nat [d', c', b', a']"
    using assms by (metis unat_from_le32)
  then have "[d, c, b, a] = [d', c', b', a']" by (rule be_nat_inj [rotated]) simp
  then show ?thesis by simp
qed

text \<open>The runtime derives the key the build script stored.\<close>

definition lookup_key :: "u8 list \<Rightarrow> u32" where
  "lookup_key key =
     (if length key \<le> 4 then
        (case key of
           [a] \<Rightarrow> ucast a
         | [a, b] \<Rightarrow> from_le32 a b 0 0
         | [a, b, c] \<Rightarrow> from_le32 a b c 0
         | _ \<Rightarrow> from_le32 (key ! 0) (key ! 1) (key ! 2) (key ! 3))
      else
        (let len = length key;
             hd4 = from_le32 (key ! 0) (key ! 1) (key ! 2) (key ! 3);
             tl4 = from_le32 (key ! (len - 4)) (key ! (len - 3)) (key ! (len - 2)) (key ! (len - 1))
         in word_rotl 11 hd4 XOR tl4 XOR (of_nat len * 0x9E3779B1)))"

lemma lookup_key_token_key: "key \<noteq> [] \<Longrightarrow> lookup_key key = token_key key"
  by (auto simp: lookup_key_def token_key_def Let_def split: list.split)

lemma token_key_inj_short:
  assumes "length s = length t" "length s \<le> 4" "s \<noteq> []" "token_key s = token_key t"
  shows "s = t"
proof -
  have c1: "from_le32 a 0 0 0 = ucast a" for a
    by (simp add: from_le32_def)
  from assms(2,3) consider
    (1) a where "s = [a]" | (2) a b where "s = [a, b]" | (3) a b c where "s = [a, b, c]"
    | (4) a b c d where "s = [a, b, c, d]"
    by (cases s rule: list.exhaust; cases "tl s"; cases "tl (tl s)"; cases "tl (tl (tl s))") auto
  then show ?thesis
  proof cases
    case 1
    then obtain a' where "t = [a']" using assms(1) by (cases t) auto
    with 1 assms(4) show ?thesis
      by (auto simp: token_key_def c1 [symmetric] dest: from_le32_inj)
  next
    case 2
    then obtain a' b' where "t = [a', b']" using assms(1) [symmetric] by (auto simp: length_Suc_conv)
    with 2 assms(4) show ?thesis by (auto simp: token_key_def dest: from_le32_inj)
  next
    case 3
    then obtain a' b' c' where "t = [a', b', c']" using assms(1) [symmetric] by (auto simp: length_Suc_conv)
    with 3 assms(4) show ?thesis by (auto simp: token_key_def dest: from_le32_inj)
  next
    case 4
    then obtain a' b' c' d' where "t = [a', b', c', d']" using assms(1) [symmetric] by (auto simp: length_Suc_conv)
    with 4 assms(4) show ?thesis by (auto simp: token_key_def dest: from_le32_inj)
  qed
qed

subsection \<open>The meta word\<close>

lemma bit_small: "unat k < 2 ^ m \<Longrightarrow> bit (k :: u16) n \<Longrightarrow> n < m"
proof -
  assume "unat k < 2 ^ m" and b: "bit k n"
  then have "take_bit m (unat k) = unat k" by (simp add: take_bit_nat_eq_self_iff)
  moreover have "bit (unat k) n" using b by (simp add: bit_unsigned_iff)
  ultimately show ?thesis by (metis bit_take_bit_iff)
qed

lemma meta_kind: "(k :: u16) < 2048 \<Longrightarrow> (k OR push_bit 11 t) AND 0x7FF = k"
proof -
  assume "k < 2048"
  then have k: "bit k n \<Longrightarrow> n < 11" for n using bit_small [of k 11 n] by (simp add: word_less_nat_alt)
  have "x AND 0x7FF = take_bit 11 x" for x :: u16
    by (simp add: take_bit_eq_mask mask_eq_exp_minus_1)
  then show ?thesis
    by (auto intro!: bit_word_eqI dest: k simp: bit_simps)
qed

lemma meta_tag: "(k :: u16) < 2048 \<Longrightarrow> t < 32 \<Longrightarrow> drop_bit 11 (k OR push_bit 11 t) = t"
proof -
  assume "k < 2048" and "t < 32"
  then have k: "bit k n \<Longrightarrow> n < 11" and t: "bit t n \<Longrightarrow> n < 5" for n
    using bit_small [of k 11 n] bit_small [of t 5 n] by (simp_all add: word_less_nat_alt)
  show ?thesis
    by (rule bit_word_eqI) (auto dest: k t simp: bit_simps)
qed

subsection \<open>Insertion\<close>

lemma hash_slot_bound: "k \<le> 32 \<Longrightarrow> hash_slot mul (32 - k) x < 2 ^ k"
proof -
  assume k: "k \<le> 32"
  let ?w = "x * mul"
  have "unat ?w < 2 ^ 32" using unsigned_less [of ?w] by simp
  also have "(2 :: nat) ^ 32 = 2 ^ k * 2 ^ (32 - k)" using k by (simp flip: power_add)
  finally have "unat ?w div 2 ^ (32 - k) < 2 ^ k" by (rule less_mult_imp_div_less)
  then show ?thesis
    unfolding hash_slot_def unat_drop_bit_eq by (simp add: drop_bit_eq_div)
qed

lemma and_table_mask: "n AND (2 ^ k - 1) = n mod (2 ^ k :: nat)"
  by (metis mask_eq_exp_minus_1 take_bit_eq_mask take_bit_eq_mod)

text \<open>\<open>step_slot k h i\<close> is the slot the probe reaches after \<open>i\<close> steps from \<open>h\<close>.\<close>

definition step_slot :: "nat \<Rightarrow> nat \<Rightarrow> nat \<Rightarrow> nat" where
  "step_slot k h i = (h + i) mod 2 ^ k"

lemma step_slot_0 [simp]: "h < 2 ^ k \<Longrightarrow> step_slot k h 0 = h"
  by (simp add: step_slot_def)

lemma step_slot_bound [simp]: "step_slot k h i < 2 ^ k"
  by (simp add: step_slot_def)

lemma step_slot_Suc: "step_slot k (step_slot k h (Suc 0)) i = step_slot k h (Suc i)"
  by (simp add: step_slot_def mod_add_left_eq)

lemma step_slot_next: "(h + 1) AND (2 ^ k - 1) = step_slot k h 1"
  by (simp only: step_slot_def and_table_mask)

lemma find_slot_SomeD:
  assumes "find_slot keys n h = Some h'" "length keys = 2 ^ k" "h < 2 ^ k"
  shows "\<exists>j. h' = step_slot k h j \<and> keys ! h' = 0 \<and> (\<forall>i<j. keys ! step_slot k h i \<noteq> 0)"
  using assms
proof (induction n arbitrary: h)
  case 0
  then show ?case
    by (intro exI [of _ 0]) (auto simp: find_slot.simps split: if_splits)
next
  case (Suc n)
  show ?case
  proof (cases "keys ! h = 0")
    case True
    with Suc.prems show ?thesis
      by (intro exI [of _ 0]) (auto simp: find_slot.simps)
  next
    case False
    with Suc.prems have "find_slot keys n (step_slot k h 1) = Some h'"
      unfolding find_slot.simps [of keys "Suc n"] by (simp only: step_slot_next if_False nat.case)
    from Suc.IH [OF this Suc.prems(2)] obtain j where
      j: "h' = step_slot k h (Suc j)" "keys ! h' = 0"
         "\<forall>i<j. keys ! step_slot k h (Suc i) \<noteq> 0"
      by (auto simp: step_slot_Suc)
    have "keys ! step_slot k h i \<noteq> 0" if "i < Suc j" for i
      using that j(3) False Suc.prems(3) by (cases i) auto
    with j show ?thesis by blast
  qed
qed

text \<open>
  The table holds the entries \<open>S\<close>: an occupied slot holds one of them, and each is found
  from its home slot over occupied slots only.
\<close>

definition reaches :: "u32 \<Rightarrow> nat \<Rightarrow> slots \<Rightarrow> tok_entry \<Rightarrow> bool" where
  "reaches mul k sl e \<longleftrightarrow>
     (case sl of (keys, meta, offs) \<Rightarrow> case e of (x, m, off) \<Rightarrow>
        \<exists>j. let p = step_slot k (hash_slot mul (32 - k) x) in
            (\<forall>i<j. keys ! p i \<noteq> 0) \<and>
            keys ! p j = x \<and> meta ! p j = m \<and> offs ! p j = off)"

definition table_inv :: "u32 \<Rightarrow> nat \<Rightarrow> tok_entry set \<Rightarrow> slots \<Rightarrow> bool" where
  "table_inv mul k S sl \<longleftrightarrow>
     (case sl of (keys, meta, offs) \<Rightarrow>
        length keys = 2 ^ k \<and> length meta = 2 ^ k \<and> length offs = 2 ^ k \<and>
        (\<forall>h < 2 ^ k. keys ! h \<noteq> 0 \<longrightarrow> (keys ! h, meta ! h, offs ! h) \<in> S) \<and>
        (\<forall>e \<in> S. fst e \<noteq> 0 \<and> reaches mul k sl e))"

lemma reaches_update:
  assumes r: "reaches mul k (keys, meta, offs) e" and e: "fst e \<noteq> 0"
    and z: "keys ! h = 0" and h: "h < length keys" and x: "x \<noteq> 0"
    and len: "length keys = 2 ^ k" "length meta = 2 ^ k" "length offs = 2 ^ k"
  shows "reaches mul k (keys[h := x], meta[h := m], offs[h := off]) e"
proof -
  obtain y m' off' where e': "e = (y, m', off')" by (cases e)
  let ?p = "step_slot k (hash_slot mul (32 - k) y)"
  from r e' obtain j where j: "\<forall>i<j. keys ! ?p i \<noteq> 0" "keys ! ?p j = y"
    "meta ! ?p j = m'" "offs ! ?p j = off'"
    by (auto simp: reaches_def Let_def)
  have "h \<noteq> ?p j" using j(2) z e e' by auto
  moreover have "keys[h := x] ! ?p i \<noteq> 0" if "i < j" for i
    using that j(1) x h by (simp add: nth_list_update)
  ultimately show ?thesis
    using j by (auto simp: reaches_def e' Let_def intro!: exI [of _ j])
qed

lemma table_inv_insert:
  assumes inv: "table_inv mul k S (keys, meta, offs)" and k: "k \<le> 32" and x: "x \<noteq> 0"
    and fs: "find_slot keys n (hash_slot mul (32 - k) x) = Some h"
  shows "table_inv mul k (insert (x, m, off) S) (keys[h := x], meta[h := m], offs[h := off])"
proof -
  from inv have len: "length keys = 2 ^ k" "length meta = 2 ^ k" "length offs = 2 ^ k"
    and occ: "\<And>h. h < 2 ^ k \<Longrightarrow> keys ! h \<noteq> 0 \<Longrightarrow> (keys ! h, meta ! h, offs ! h) \<in> S"
    and all: "\<And>e. e \<in> S \<Longrightarrow> fst e \<noteq> 0 \<and> reaches mul k (keys, meta, offs) e"
    by (auto simp: table_inv_def)
  let ?p = "step_slot k (hash_slot mul (32 - k) x)"
  from find_slot_SomeD [OF fs len(1) hash_slot_bound [OF k]] obtain j where
    j: "h = ?p j" "keys ! h = 0" "\<forall>i<j. keys ! ?p i \<noteq> 0" by auto
  have h: "h < 2 ^ k" by (simp add: j(1))
  have "keys[h := x] ! ?p i \<noteq> 0" if "i < j" for i
    using that j(3) x h len by (simp add: nth_list_update)
  then have "reaches mul k (keys[h := x], meta[h := m], offs[h := off]) (x, m, off)"
    using h len by (auto simp: reaches_def Let_def j(1) [symmetric] intro!: exI [of _ j])
  moreover have "reaches mul k (keys[h := x], meta[h := m], offs[h := off]) e" if "e \<in> S" for e
    using all [OF that] j(2) h x len by (intro reaches_update) auto
  ultimately show ?thesis
    using len occ all x h by (auto simp: table_inv_def nth_list_update)
qed

lemma insert_entries_inv:
  "insert_entries mul k es sl = Some sl' \<Longrightarrow> table_inv mul k S sl \<Longrightarrow> k \<le> 32 \<Longrightarrow>
   \<forall>e \<in> set es. fst e \<noteq> 0 \<Longrightarrow> table_inv mul k (S \<union> set es) sl'"
proof (induction es arbitrary: S sl)
  case Nil
  then show ?case by simp
next
  case (Cons e es)
  obtain x m off where e: "e = (x, m, off)" by (cases e)
  obtain keys meta offs where sl: "sl = (keys, meta, offs)" by (cases sl)
  from Cons.prems(1) obtain h where h: "find_slot keys 8 (hash_slot mul (32 - k) x) = Some h"
    and r: "insert_entries mul k es (keys[h := x], meta[h := m], offs[h := off]) = Some sl'"
    by (auto simp: e sl split: option.splits)
  from Cons.prems e have "x \<noteq> 0" by simp
  with Cons.prems(2,3) h have "table_inv mul k (insert e S) (keys[h := x], meta[h := m], offs[h := off])"
    unfolding e sl by (intro table_inv_insert)
  from Cons.IH [OF r this Cons.prems(3)] Cons.prems(4) show ?case by simp
qed

text \<open>Insertion fills one free slot per entry, so a table larger than the number of entries
  keeps a free slot.\<close>

definition used :: "u32 list \<Rightarrow> nat" where
  "used keys = card {h. h < length keys \<and> keys ! h \<noteq> 0}"

lemma used_update:
  assumes "h < length keys" "keys ! h = 0" "x \<noteq> 0"
  shows "used (keys[h := x]) = Suc (used keys)"
proof -
  have "{i. i < length keys \<and> keys[h := x] ! i \<noteq> 0} = insert h {i. i < length keys \<and> keys ! i \<noteq> 0}"
    using assms by (auto simp: nth_list_update split: if_splits)
  then show ?thesis using assms(2) by (simp add: used_def)
qed

lemma insert_entries_used:
  "insert_entries mul k es (keys, meta, offs) = Some (keys', meta', offs') \<Longrightarrow>
   length keys = 2 ^ k \<Longrightarrow> k \<le> 32 \<Longrightarrow> \<forall>e \<in> set es. fst e \<noteq> 0 \<Longrightarrow>
   used keys' = used keys + length es"
proof (induction es arbitrary: keys meta offs)
  case Nil
  then show ?case by simp
next
  case (Cons e es)
  obtain x m off where e: "e = (x, m, off)" by (cases e)
  from Cons.prems(1) obtain h where h: "find_slot keys 8 (hash_slot mul (32 - k) x) = Some h"
    and r: "insert_entries mul k es (keys[h := x], meta[h := m], offs[h := off]) =
      Some (keys', meta', offs')"
    by (auto simp: e split: option.splits)
  from find_slot_SomeD [OF h Cons.prems(2) hash_slot_bound [OF Cons.prems(3)]]
  have "h < length keys" "keys ! h = 0" using Cons.prems(2) by auto
  moreover have "x \<noteq> 0" using Cons.prems(4) e by simp
  ultimately have "used (keys[h := x]) = Suc (used keys)" by (rule used_update)
  with Cons.IH [OF r] Cons.prems show ?case by simp
qed

lemma free_slot:
  assumes "used keys < length keys"
  shows "\<exists>h < length keys. keys ! h = 0"
proof (rule ccontr)
  assume "\<not> ?thesis"
  then have "{h. h < length keys \<and> keys ! h \<noteq> 0} = {..<length keys}" by auto
  with assms show False by (simp add: used_def)
qed

lemma bit_len_bound: "n < 2 ^ bit_len n"
proof (induction n rule: bit_len.induct)
  case (1 n)
  show ?case
  proof (cases "n = 0")
    case False
    with 1 have "n div 2 < 2 ^ bit_len (n div 2)" by simp
    then have "n < 2 * 2 ^ bit_len (n div 2)" by linarith
    with False show ?thesis by (simp add: bit_len.simps [of n])
  qed (simp add: bit_len.simps)
qed

lemma try_muls_inv:
  "try_muls n mul k es = Some (mul', (keys, meta, offs)) \<Longrightarrow> k \<le> 32 \<Longrightarrow>
   \<forall>e \<in> set es. fst e \<noteq> 0 \<Longrightarrow>
   table_inv mul' k (set es) (keys, meta, offs) \<and> used keys = length es"
proof (induction n arbitrary: mul)
  case 0
  then show ?case by simp
next
  case (Suc n)
  let ?z = "(replicate (2 ^ k) 0, replicate (2 ^ k) 0, replicate (2 ^ k) 0) :: slots"
  show ?case
  proof (cases "insert_entries mul k es ?z")
    case None
    with Suc show ?thesis by (simp add: Let_def)
  next
    case (Some sl)
    with Suc.prems have sl: "insert_entries mul k es ?z = Some (keys, meta, offs)" "mul' = mul"
      by (simp_all add: Let_def)
    have "table_inv mul k {} ?z" by (simp add: table_inv_def)
    from insert_entries_inv [OF sl(1) this Suc.prems(2,3)]
      insert_entries_used [OF sl(1) _ Suc.prems(2,3)] sl(2)
    show ?thesis by (simp add: used_def)
  qed
qed

lemma build_from_inv:
  "build_from k es = Ok (mul, k', (keys, meta, offs)) \<Longrightarrow> \<forall>e \<in> set es. fst e \<noteq> 0 \<Longrightarrow>
   k \<le> k' \<and> k' \<le> 32 \<and> table_inv mul k' (set es) (keys, meta, offs) \<and> used keys = length es"
proof (induction k es rule: build_from.induct)
  case (1 k es)
  from "1.prems"(1) have k: "\<not> 32 < k" by (auto simp: build_from.simps [of k es] split: if_splits)
  show ?case
  proof (cases "try_muls 256 0x9E3779B1 k es")
    case None
    with 1 k show ?thesis by (simp add: build_from.simps [of k es])
  next
    case (Some r)
    with "1.prems" k have "try_muls 256 0x9E3779B1 k es = Some (mul, (keys, meta, offs))" "k' = k"
      by (auto simp: build_from.simps [of k es] split: prod.splits)
    with try_muls_inv "1.prems"(2) k show ?thesis by fastforce
  qed
qed

lemma build_table_inv:
  assumes "build_table es = Ok (mul, k, (keys, meta, offs))" "\<forall>e \<in> set es. fst e \<noteq> 0"
  shows "k \<le> 32 \<and> table_inv mul k (set es) (keys, meta, offs) \<and> (\<exists>h < 2 ^ k. keys ! h = 0)"
proof -
  let ?k = "bit_len (length es * 4 div 3)"
  from build_from_inv [OF assms(1) [unfolded build_table_def] assms(2)]
  have k: "?k \<le> k" "k \<le> 32" and inv: "table_inv mul k (set es) (keys, meta, offs)"
    and u: "used keys = length es" by auto
  have "length es \<le> length es * 4 div 3" by linarith
  also have "\<dots> < 2 ^ ?k" by (rule bit_len_bound)
  also have "\<dots> \<le> 2 ^ k" using k(1) by simp
  also have "2 ^ k = length keys" using inv by (simp add: table_inv_def)
  finally have "used keys < length keys" by (simp add: u)
  with free_slot [of keys] inv k show ?thesis by (auto simp: table_inv_def)
qed

subsection \<open>Probing\<close>

text \<open>The probe returns what the first stopping slot says: an empty slot, or one whose key
  matches and that is accepted.\<close>

definition stops :: "token_tables \<Rightarrow> (nat \<Rightarrow> bool option) \<Rightarrow> u32 \<Rightarrow> nat \<Rightarrow> bool" where
  "stops T accept x h \<longleftrightarrow> tok_keys T ! h = 0 \<or> (tok_keys T ! h = x \<and> accept h = Some True)"

lemma probe_first_stop:
  assumes "stops T accept x (step_slot k h j)" "\<forall>i<j. \<not> stops T accept x (step_slot k h i)"
    "j < n" "h < 2 ^ k" "length (tok_keys T) = 2 ^ k" "tok_mask T = 2 ^ k - 1"
    "\<And>h. h < 2 ^ k \<Longrightarrow> tok_keys T ! h \<noteq> 0 \<Longrightarrow> accept h \<noteq> None"
  shows "probe T accept x n h =
     Some (if tok_keys T ! step_slot k h j = 0 then None
           else Some (decode_kind (tok_meta T ! step_slot k h j AND 0x7FF)))"
  using assms(1-4)
proof (induction n arbitrary: h j)
  case 0
  then show ?case by simp
next
  case (Suc n)
  show ?case
  proof (cases j)
    case 0
    with Suc.prems assms(5) show ?thesis by (auto simp: stops_def)
  next
    case (Suc j')
    have nh: "\<not> stops T accept x h" using Suc.prems(2,4) Suc by force
    then have nz: "tok_keys T ! h \<noteq> 0" by (simp add: stops_def)
    have nxt: "(h + 1) AND tok_mask T = step_slot k h (Suc 0)"
      using step_slot_next [of h k] assms(6) by simp
    have "(if tok_keys T ! h = x then accept h else Some False) = Some False"
      using nh nz assms(7) [of h] Suc.prems(4) by (cases "accept h") (auto simp: stops_def)
    then have "probe T accept x (Suc n) h = probe T accept x n (step_slot k h (Suc 0))"
      using nz Suc.prems(4) assms(5) nxt by simp
    moreover have "\<forall>i<j'. \<not> stops T accept x (step_slot k (step_slot k h (Suc 0)) i)"
      using Suc.prems(2) Suc by (simp add: step_slot_Suc)
    moreover have "stops T accept x (step_slot k (step_slot k h (Suc 0)) j')"
      using Suc.prems(1) Suc by (simp add: step_slot_Suc)
    ultimately show ?thesis
      using Suc.IH [of "step_slot k h (Suc 0)" j'] Suc.prems(3) Suc by (simp add: step_slot_Suc)
  qed
qed

lemma slot_reached:
  assumes "h < 2 ^ k" "g < 2 ^ k"
  shows "\<exists>j < 2 ^ k. step_slot k h j = g"
proof (cases "h \<le> g")
  case True
  with assms show ?thesis by (intro exI [of _ "g - h"]) (auto simp: step_slot_def)
next
  case False
  with assms have "h + (2 ^ k - h + g) = 2 ^ k + g" "2 ^ k - h + g < 2 ^ k" by auto
  with assms(2) show ?thesis
    by (intro exI [of _ "2 ^ k - h + g"]) (simp add: step_slot_def)
qed

text \<open>Over a table with a free slot the probe always ends, at the entry with the key that is
  accepted or, when there is none, at a free slot.\<close>

lemma probe_table:
  assumes inv: "table_inv mul k S (tok_keys T, tok_meta T, tok_off T)" and k: "k \<le> 32"
    and free: "\<exists>h < 2 ^ k. tok_keys T ! h = 0"
    and T: "tok_mul T = mul" "tok_shift T = 32 - k" "tok_mask T = 2 ^ k - 1"
    and acc: "\<And>h. h < 2 ^ k \<Longrightarrow> tok_keys T ! h \<noteq> 0 \<Longrightarrow>
       accept h = Some (ok (tok_keys T ! h, tok_meta T ! h, tok_off T ! h))"
  shows "(\<exists>x' m off. (x', m, off) \<in> S \<and> x' = x \<and> ok (x', m, off) \<and>
            probe T accept x (length (tok_keys T)) (hash_slot (tok_mul T) (tok_shift T) x) =
            Some (Some (decode_kind (m AND 0x7FF)))) \<or>
         ((\<forall>e \<in> S. fst e = x \<longrightarrow> \<not> ok e) \<and>
            probe T accept x (length (tok_keys T)) (hash_slot (tok_mul T) (tok_shift T) x) = Some None)"
proof -
  let ?h = "hash_slot (tok_mul T) (tok_shift T) x" and ?n = "length (tok_keys T)"
  have h: "?h < 2 ^ k" using hash_slot_bound [OF k] T by simp
  have len: "?n = 2 ^ k" "length (tok_meta T) = 2 ^ k"
    and occ: "\<And>h. h < 2 ^ k \<Longrightarrow> tok_keys T ! h \<noteq> 0 \<Longrightarrow> (tok_keys T ! h, tok_meta T ! h, tok_off T ! h) \<in> S"
    and all: "\<And>e. e \<in> S \<Longrightarrow> fst e \<noteq> 0 \<and> reaches mul k (tok_keys T, tok_meta T, tok_off T) e"
    using inv by (auto simp: table_inv_def)
  from free slot_reached [OF h] obtain z where z: "z < 2 ^ k" "tok_keys T ! step_slot k ?h z = 0"
    by blast
  define j where "j = (LEAST j. stops T accept x (step_slot k ?h j))"
  have "stops T accept x (step_slot k ?h z)" using z by (simp add: stops_def)
  then have st: "stops T accept x (step_slot k ?h j)" and jz: "j \<le> z"
    unfolding j_def by (rule LeastI, rule Least_le)
  have before: "\<forall>i<j. \<not> stops T accept x (step_slot k ?h i)"
    unfolding j_def by (blast dest: not_less_Least)
  have pr: "probe T accept x ?n ?h =
     Some (if tok_keys T ! step_slot k ?h j = 0 then None
           else Some (decode_kind (tok_meta T ! step_slot k ?h j AND 0x7FF)))"
    using acc by (intro probe_first_stop [OF st before _ h len(1) T(3)]) (use jz z len in auto)
  let ?s = "step_slot k ?h j"
  show ?thesis
  proof (cases "tok_keys T ! ?s = 0")
    case True
    have "\<not> ok e" if e: "e \<in> S" "fst e = x" for e
    proof
      assume ok: "ok e"
      obtain m off where e': "e = (x, m, off)" using e(2) by (cases e) auto
      from all [OF e(1)] e' T obtain j' where j':
        "\<forall>i<j'. tok_keys T ! step_slot k ?h i \<noteq> 0" "tok_keys T ! step_slot k ?h j' = x" "x \<noteq> 0"
        "tok_meta T ! step_slot k ?h j' = m" "tok_off T ! step_slot k ?h j' = off"
        by (auto simp: reaches_def Let_def)
      then have "stops T accept x (step_slot k ?h j')"
        using acc [of "step_slot k ?h j'"] ok e' by (simp add: stops_def)
      then have "j \<le> j'" unfolding j_def by (rule Least_le)
      with True j' show False by (cases "j = j'") auto
    qed
    with pr True show ?thesis by auto
  next
    case False
    with st have "tok_keys T ! ?s = x" "accept ?s = Some True" by (auto simp: stops_def)
    with occ [of ?s] acc [of ?s] False pr show ?thesis by auto
  qed
qed

subsection \<open>Entries and values\<close>

text \<open>\<open>entry_for blob (t, k) e\<close>: the entry stored for the token \<open>t\<close> of kind \<open>k\<close>.\<close>

definition entry_for :: "u8 list \<Rightarrow> str \<times> nat \<Rightarrow> tok_entry \<Rightarrow> bool" where
  "entry_for blob v e \<longleftrightarrow>
     (case v of (t, k) \<Rightarrow> case e of (x, m, off) \<Rightarrow>
        x = token_key t \<and> x \<noteq> 0 \<and> k < 2048 \<and>
        (if length t \<le> 4 then m = of_nat k OR push_bit 11 (of_nat (length t) - 1)
         else m = of_nat k OR push_bit 11 31 \<and>
           take (Suc (length t)) (drop (unat off) blob) = of_nat (length t) # t))"

lemma entry_for_mono: "entry_for blob v e \<Longrightarrow> entry_for (blob @ ys) v e"
proof -
  assume a: "entry_for blob v e"
  obtain t k x m off where v: "v = (t, k)" "e = (x, m, off)" by (cases v, cases e) auto
  have "take (Suc (length t)) (drop (unat off) (blob @ ys)) = of_nat (length t) # t"
    if w: "take (Suc (length t)) (drop (unat off) blob) = of_nat (length t) # t"
  proof -
    have "length (take (Suc (length t)) (drop (unat off) blob)) = Suc (length t)"
      by (simp only: w) simp
    then have "Suc (length t) \<le> length (drop (unat off) blob)" by simp
    with w show ?thesis by (simp add: take_append)
  qed
  with a show ?thesis by (auto simp: entry_for_def v split: if_splits)
qed

lemma make_entries_entries:
  "make_entries vs blob es = Ok (es', blob') \<Longrightarrow>
   \<exists>ys zs. es' = es @ ys \<and> blob' = blob @ zs \<and> list_all2 (entry_for blob') vs ys"
proof (induction vs blob es arbitrary: es' blob' rule: make_entries.induct)
  case (1 blob es)
  then show ?case by simp
next
  case (2 t k vs blob es)
  from "2.prems" have g: "0 \<notin> set t" "\<not> 2048 \<le> k" "token_key t \<noteq> 0"
    by (auto split: if_splits)
  show ?case
  proof (cases "length t \<le> 4")
    case True
    let ?e = "(token_key t, of_nat k OR push_bit 11 (of_nat (length t) - 1), 0)"
    from "2.prems" g True have "make_entries vs blob (es @ [?e]) = Ok (es', blob')" by simp
    from "2.IH"(1) [OF g True this] obtain ys zs where
      "es' = (es @ [?e]) @ ys" "blob' = blob @ zs" "list_all2 (entry_for blob') vs ys" by blast
    moreover have "entry_for blob' (t, k) ?e" using g True by (simp add: entry_for_def)
    ultimately show ?thesis by (intro exI [of _ "?e # ys"] exI [of _ zs]) simp
  next
    case False
    let ?e = "(token_key t, of_nat k OR push_bit 11 31, of_nat (length blob)) :: tok_entry"
    let ?b = "blob @ of_nat (length t) # t"
    from "2.prems" g False have lb: "\<not> 65536 \<le> length blob"
      and r: "make_entries vs ?b (es @ [?e]) = Ok (es', blob')"
      by (auto split: if_splits)
    from "2.IH"(2) [OF g False lb r] obtain ys zs where
      ih: "es' = (es @ [?e]) @ ys" "blob' = ?b @ zs" "list_all2 (entry_for blob') vs ys" by blast
    have "unat (of_nat (length blob) :: u16) = length blob"
      using lb by (simp add: unat_of_nat)
    then have "entry_for ?b (t, k) ?e" using g False by (simp add: entry_for_def)
    then have "entry_for blob' (t, k) ?e" unfolding ih(2) by (rule entry_for_mono)
    with ih show ?thesis by (intro exI [of _ "?e # ys"] exI [of _ "of_nat (length t) # t @ zs"]) simp
  qed
qed

definition ok_short :: "u8 list \<Rightarrow> tok_entry \<Rightarrow> bool" where
  "ok_short s e \<longleftrightarrow> unat (drop_bit 11 (fst (snd e))) = length s - 1"

definition ok_long :: "u8 list \<Rightarrow> u8 list \<Rightarrow> tok_entry \<Rightarrow> bool" where
  "ok_long blob s e \<longleftrightarrow>
     drop_bit 11 (fst (snd e)) = 31 \<and> unat (blob ! unat (snd (snd e))) = length s \<and>
     take (length s) (drop (unat (snd (snd e)) + 1) blob) = s"

lemma u16_of_nat_less: "n < 2048 \<Longrightarrow> (of_nat n :: u16) < 2048"
  by (simp add: word_less_nat_alt unat_u16_of_nat)

lemma short_tag: "t \<noteq> [] \<Longrightarrow> length t \<le> 4 \<Longrightarrow>
  (of_nat (length t) - 1 :: u16) < 32 \<and> unat (of_nat (length t) - 1 :: u16) = length t - 1"
proof -
  assume "t \<noteq> []" "length t \<le> 4"
  then have "(of_nat (length t) - 1 :: u16) = of_nat (length t - 1)" "length t - 1 < 32"
    by (cases t; simp)+
  then show ?thesis by (simp add: word_less_nat_alt unat_u16_of_nat)
qed

lemma entry_meta:
  assumes "entry_for blob (t, k) e" "t \<noteq> []"
  obtains tag where "fst (snd e) = of_nat k OR push_bit 11 tag" "tag < 32"
    "unat tag = (if length t \<le> 4 then length t - 1 else 31)" "(of_nat k :: u16) < 2048"
proof (cases "length t \<le> 4")
  case True
  with assms short_tag [of t] show ?thesis
    by (intro that [of "of_nat (length t) - 1"]) (auto simp: entry_for_def u16_of_nat_less)
next
  case False
  with assms show ?thesis
    by (intro that [of 31]) (auto simp: entry_for_def u16_of_nat_less)
qed

lemma entry_tag:
  assumes "entry_for blob (t, k) e" "t \<noteq> []"
  shows "unat (drop_bit 11 (fst (snd e))) = (if length t \<le> 4 then length t - 1 else 31)"
  using assms by (rule entry_meta) (simp only: meta_tag)

lemma entry_kind:
  assumes "entry_for blob (t, k) e" "t \<noteq> []"
  shows "fst (snd e) AND 0x7FF = of_nat k"
  using assms by (rule entry_meta) (simp only: meta_kind)

lemma entry_blob:
  assumes "entry_for blob (t, k) (x, m, off)" "4 < length t" "length t < 256"
  shows "unat off + 1 + length t \<le> length blob" "unat (blob ! unat off) = length t"
    "take (length t) (drop (unat off + 1) blob) = t"
proof -
  let ?d = "drop (unat off) blob"
  from assms(1,2) have w: "take (Suc (length t)) ?d = of_nat (length t) # t"
    by (auto simp: entry_for_def split: if_splits)
  then have "length (take (Suc (length t)) ?d) = Suc (length t)" by (simp only: w) simp
  then have "Suc (length t) \<le> length ?d" by simp
  then show l: "unat off + 1 + length t \<le> length blob" by simp
  from w have "take (Suc (length t)) ?d ! 0 = of_nat (length t)" by (simp only: w) simp
  with l have "blob ! unat off = of_nat (length t)" by simp
  with assms(3) show "unat (blob ! unat off) = length t" by (simp add: unat_u8_of_nat)
  from w have "drop 1 (take (Suc (length t)) ?d) = t" by (simp only: w) simp
  then show "take (length t) (drop (unat off + 1) blob) = t"
    by (simp add: drop_take)
qed

lemma ok_short_iff:
  assumes e: "entry_for blob (t, k) e" and "t \<noteq> []" "s \<noteq> []" "length s \<le> 4" "fst e = token_key s"
  shows "ok_short s e \<longleftrightarrow> t = s"
proof -
  have key: "token_key t = token_key s" using assms by (cases e) (auto simp: entry_for_def)
  have pos: "0 < length t" "0 < length s" using assms(2,3) by simp_all
  have "ok_short s e \<longleftrightarrow> length t = length s"
    unfolding ok_short_def entry_tag [OF e assms(2)] using pos assms(4) by (cases "length t \<le> 4") arith+
  with key token_key_inj_short [of t s] assms show ?thesis by auto
qed

lemma unat_u16_31: "unat (31 :: u16) = 31"
  by simp

lemma ok_long_iff:
  assumes e: "entry_for blob (t, k) e" and "t \<noteq> []" "length t < 256" "4 < length s"
  shows "ok_long blob s e \<longleftrightarrow> t = s"
proof -
  obtain x m off where e': "e = (x, m, off)" by (cases e)
  have "unat (drop_bit 11 (fst (snd e))) = 31 \<longleftrightarrow> \<not> length t \<le> 4"
    unfolding entry_tag [OF e assms(2)] by auto
  then have tag: "drop_bit 11 (fst (snd e)) = 31 \<longleftrightarrow> \<not> length t \<le> 4"
    unfolding word_unat_eq_iff [of "drop_bit 11 (fst (snd e))" 31] unat_u16_31 .
  show ?thesis
  proof (cases "length t \<le> 4")
    case True
    with tag assms(4) show ?thesis unfolding ok_long_def by auto
  next
    case False
    then have blob: "unat (blob ! unat off) = length t" "take (length t) (drop (unat off + 1) blob) = t"
      using entry_blob [OF e [unfolded e']] assms(3) by simp_all
    have "ok_long blob s e \<longleftrightarrow>
      unat (blob ! unat off) = length s \<and> take (length s) (drop (unat off + 1) blob) = s"
      unfolding ok_long_def using tag False by (simp only: e' fst_conv snd_conv simp_thms)
    with blob show ?thesis by metis
  qed
qed

subsection \<open>The token values\<close>

text \<open>The non-empty tokens of a list with their positions, counted from \<open>i\<close>.\<close>

definition indexed :: "nat \<Rightarrow> str list \<Rightarrow> (str \<times> nat) list" where
  "indexed i ts = filter (\<lambda>(t, _). t \<noteq> []) (zip ts [i..<i + length ts])"

lemma indexed_simps [simp]:
  "indexed i [] = []"
  "indexed i (t # ts) = (if t = [] then indexed (Suc i) ts else (t, i) # indexed (Suc i) ts)"
  by (simp_all add: indexed_def upt_conv_Cons del: upt_Suc)

lemma in_set_indexed: "(t, k) \<in> set (indexed 0 ts) \<longleftrightarrow> t \<noteq> [] \<and> k < length ts \<and> ts ! k = t"
  by (auto simp: indexed_def in_set_zip)

lemma single_values_eq:
  "single_values i ts vs = Ok vs' \<Longrightarrow>
   vs' = vs @ indexed i ts \<and> (\<forall>v \<in> set (indexed i ts). snd v < 256)"
  by (induction i ts vs rule: single_values.induct) (auto split: if_splits)

lemma single_values_distinct:
  "single_values i ts vs = Ok vs' \<Longrightarrow> distinct (map fst vs) \<Longrightarrow> distinct (map fst vs')"
  by (induction i ts vs rule: single_values.induct) (auto split: if_splits)

definition double_indexed :: "nat \<Rightarrow> nat \<Rightarrow> str list \<Rightarrow> (str \<times> nat) list" where
  "double_indexed d i ts = map (\<lambda>(t, i). (t, (d + 1) * 256 + i)) (indexed i ts)"

lemma double_values_in_eq:
  "double_values_in d i ts vs = Ok vs' \<Longrightarrow>
   vs' = vs @ double_indexed d i ts \<and> (\<forall>v \<in> set (indexed i ts). snd v < 256)"
  unfolding double_indexed_def
  by (induction d i ts vs rule: double_values_in.induct) (auto split: if_splits)

lemma double_values_in_distinct:
  "double_values_in d i ts vs = Ok vs' \<Longrightarrow> distinct (map fst vs) \<Longrightarrow> distinct (map fst vs')"
  by (induction d i ts vs rule: double_values_in.induct) (auto split: if_splits)

definition doubles :: "nat \<Rightarrow> str list list \<Rightarrow> (str \<times> nat) list" where
  "doubles d tss = concat (map (\<lambda>(j, ts). double_indexed j 0 ts) (zip [d..<d + length tss] tss))"

lemma doubles_simps [simp]:
  "doubles d [] = []"
  "doubles d (ts # tss) = double_indexed d 0 ts @ doubles (Suc d) tss"
  by (simp_all add: doubles_def upt_conv_Cons del: upt_Suc)

lemma in_set_doubles:
  "(t, k) \<in> set (doubles 0 tss) \<longleftrightarrow>
   (\<exists>d i. k = (d + 1) * 256 + i \<and> d < length tss \<and> (t, i) \<in> set (indexed 0 (tss ! d)))"
proof
  assume "(t, k) \<in> set (doubles 0 tss)"
  then obtain d ts where "(d, ts) \<in> set (zip [0..<length tss] tss)" "(t, k) \<in> set (double_indexed d 0 ts)"
    by (auto simp: doubles_def)
  then have "d < length tss" "ts = tss ! d" "\<exists>i. k = (d + 1) * 256 + i \<and> (t, i) \<in> set (indexed 0 ts)"
    by (auto simp: in_set_zip double_indexed_def)
  then show "\<exists>d i. k = (d + 1) * 256 + i \<and> d < length tss \<and> (t, i) \<in> set (indexed 0 (tss ! d))"
    by blast
next
  assume "\<exists>d i. k = (d + 1) * 256 + i \<and> d < length tss \<and> (t, i) \<in> set (indexed 0 (tss ! d))"
  then obtain d i where d: "k = (d + 1) * 256 + i" "d < length tss" "(t, i) \<in> set (indexed 0 (tss ! d))"
    by blast
  then have "(d, tss ! d) \<in> set (zip [0..<length tss] tss)"
    by (auto simp: in_set_zip intro!: exI [of _ d])
  moreover have "(t, k) \<in> set (double_indexed d 0 (tss ! d))"
    using d by (force simp: double_indexed_def)
  ultimately show "(t, k) \<in> set (doubles 0 tss)"
    by (force simp: doubles_def)
qed

lemma double_values_eq:
  "double_values d tss vs = Ok vs' \<Longrightarrow>
   vs' = vs @ doubles d tss \<and> (\<forall>ts \<in> set tss. \<forall>v \<in> set (indexed 0 ts). snd v < 256)"
proof (induction d tss vs rule: double_values.induct)
  case (1 d vs)
  then show ?case by simp
next
  case (2 d ts tss vs)
  from "2.prems" obtain ws where ws: "double_values_in d 0 ts vs = Ok ws"
    "double_values (Suc d) tss ws = Ok vs'" by (auto simp: obind_eq_Ok)
  from double_values_in_eq [OF ws(1)] "2.IH" [OF ws] show ?case by simp
qed

lemma double_values_distinct:
  "double_values d tss vs = Ok vs' \<Longrightarrow> distinct (map fst vs) \<Longrightarrow> distinct (map fst vs')"
proof (induction d tss vs rule: double_values.induct)
  case (2 d ts tss vs)
  from "2.prems" obtain ws where ws: "double_values_in d 0 ts vs = Ok ws"
    "double_values (Suc d) tss ws = Ok vs'" by (auto simp: obind_eq_Ok)
  from "2.IH" [OF ws double_values_in_distinct [OF ws(1) "2.prems"(2)]] show ?case .
qed simp

lemma token_values_props:
  assumes "token_values sb db = Ok vs"
  shows "vs = indexed 0 sb @ doubles 0 db" "distinct (map fst vs)"
    "\<forall>v \<in> set (indexed 0 sb). snd v < 256"
    "\<forall>ts \<in> set db. \<forall>v \<in> set (indexed 0 ts). snd v < 256"
proof -
  from assms obtain ws where ws: "single_values 0 sb [] = Ok ws" "double_values 0 db ws = Ok vs"
    by (auto simp: token_values_def obind_eq_Ok)
  note a = single_values_eq [OF ws(1)] and b = double_values_eq [OF ws(2)]
  from a b show "vs = indexed 0 sb @ doubles 0 db" "\<forall>v \<in> set (indexed 0 sb). snd v < 256"
    "\<forall>ts \<in> set db. \<forall>v \<in> set (indexed 0 ts). snd v < 256" by simp_all
  have "distinct (map fst ws)" using single_values_distinct [OF ws(1)] by simp
  then show "distinct (map fst vs)" by (rule double_values_distinct [OF ws(2)])
qed

lemma token_values_nonempty: "token_values sb db = Ok vs \<Longrightarrow> (t, k) \<in> set vs \<Longrightarrow> t \<noteq> []"
  by (auto dest!: token_values_props(1) simp: in_set_indexed in_set_doubles)

lemma max_len_ge: "(t, k) \<in> set vs \<Longrightarrow> length t \<le> max_len vs"
proof -
  have mono: "m \<le> fold (\<lambda>(t, k) m. max m (length t)) vs m" for m :: nat and vs :: "(str \<times> nat) list"
  proof (induction vs arbitrary: m)
    case (Cons v vs)
    have "m \<le> max m (length (fst v))" by simp
    also note Cons.IH [of "max m (length (fst v))"]
    finally show ?case by (simp add: case_prod_beta)
  qed simp
  have "(t, k) \<in> set vs \<Longrightarrow> length t \<le> fold (\<lambda>(t, k) m. max m (length t)) vs m" for m
  proof (induction vs arbitrary: m)
    case (Cons v vs)
    show ?case
    proof (cases "v = (t, k)")
      case True
      with mono [of "max m (length t)" vs] show ?thesis by simp
    next
      case False
      with Cons show ?thesis by (simp add: case_prod_beta)
    qed
  qed simp
  then show "(t, k) \<in> set vs \<Longrightarrow> length t \<le> max_len vs" by (simp add: max_len_def)
qed

subsection \<open>The lookup agrees with the token values\<close>

definition value_kind :: "(str \<times> nat) list \<Rightarrow> str \<Rightarrow> token_kind option" where
  "value_kind vs s = map_option (\<lambda>k. decode_kind (of_nat k)) (map_of vs s)"

text \<open>What the build guarantees of the tables, in the terms the probe needs.\<close>

definition built :: "(str \<times> nat) list \<Rightarrow> tok_entry list \<Rightarrow> token_tables \<Rightarrow> bool" where
  "built vs es T \<longleftrightarrow>
     list_all2 (entry_for (tok_blob T)) vs es \<and> distinct (map fst vs) \<and>
     (\<forall>(t, k) \<in> set vs. t \<noteq> [] \<and> length t < 256) \<and>
     (\<exists>k \<le> 32. table_inv (tok_mul T) k (set es) (tok_keys T, tok_meta T, tok_off T) \<and>
        (\<exists>h < 2 ^ k. tok_keys T ! h = 0) \<and> tok_shift T = 32 - k \<and> tok_mask T = 2 ^ k - 1)"

lemma entry_for_fst: "entry_for blob v e \<Longrightarrow> fst e \<noteq> 0 \<and> fst e = token_key (fst v) \<and> snd v < 2048"
  by (auto simp: entry_for_def split: prod.splits)

lemma list_all2_set1: "list_all2 P xs ys \<Longrightarrow> x \<in> set xs \<Longrightarrow> \<exists>y \<in> set ys. P x y"
  by (induction rule: list_all2_induct) auto

lemma list_all2_set2: "list_all2 P xs ys \<Longrightarrow> y \<in> set ys \<Longrightarrow> \<exists>x \<in> set xs. P x y"
  by (induction rule: list_all2_induct) auto

lemma build_tokens_built:
  assumes "build_tokens sb db = Ok T" "token_values sb db = Ok vs"
  shows "\<exists>es. built vs es T" "max_token_len T = max_len vs"
    "single_byte_tokens T = sb" "double_byte_tokens T = db" "\<forall>(t, k) \<in> set vs. k < 2048"
proof -
  from assms obtain es blob mul k keys meta offs where
    ml: "\<not> 256 \<le> max_len vs" and me: "make_entries vs [] [] = Ok (es, blob)"
    and bt: "build_table es = Ok (mul, k, (keys, meta, offs))"
    and T: "T = \<lparr>max_token_len = max_len vs, tok_mul = mul, tok_shift = 32 - k,
         tok_mask = length keys - 1, tok_keys = keys, tok_meta = meta, tok_off = offs,
         tok_blob = blob, single_byte_tokens = sb, double_byte_tokens = db\<rparr>"
    by (auto simp: build_tokens_def obind_eq_Ok split: if_splits)
  from make_entries_entries [OF me] have es: "list_all2 (entry_for blob) vs es" by simp
  then have nz: "\<forall>e \<in> set es. fst e \<noteq> 0"
    by (blast dest: list_all2_set2 entry_for_fst)
  from build_table_inv [OF bt nz] have inv: "k \<le> 32" "table_inv mul k (set es) (keys, meta, offs)"
    "\<exists>h < 2 ^ k. keys ! h = 0" by auto
  then have "length keys = 2 ^ k" by (simp add: table_inv_def)
  moreover have "\<forall>(t, k) \<in> set vs. t \<noteq> [] \<and> length t < 256"
    using token_values_nonempty [OF assms(2)] ml by (fastforce dest: max_len_ge)
  ultimately have "built vs es T"
    using es inv token_values_props(2) [OF assms(2)] by (auto simp: built_def T)
  then show "\<exists>es. built vs es T" by blast
  show "max_token_len T = max_len vs" "single_byte_tokens T = sb" "double_byte_tokens T = db"
    by (simp_all add: T)
  show "\<forall>(t, k) \<in> set vs. k < 2048"
    using es by (fastforce dest: list_all2_set1 entry_for_fst)
qed

lemma built_slot:
  assumes "built vs es T" "length (tok_keys T) = 2 ^ k" "h < 2 ^ k" "tok_keys T ! h \<noteq> 0"
  obtains t kk where "(t, kk) \<in> set vs" "t \<noteq> []" "length t < 256"
    "entry_for (tok_blob T) (t, kk) (tok_keys T ! h, tok_meta T ! h, tok_off T ! h)"
    "h < length (tok_meta T)" "h < length (tok_off T)"
proof -
  from assms have "(tok_keys T ! h, tok_meta T ! h, tok_off T ! h) \<in> set es"
    and len: "h < length (tok_meta T)" "h < length (tok_off T)"
    by (auto simp: built_def table_inv_def)
  moreover from assms(1) have "list_all2 (entry_for (tok_blob T)) vs es" by (simp add: built_def)
  ultimately obtain t kk where "(t, kk) \<in> set vs"
    "entry_for (tok_blob T) (t, kk) (tok_keys T ! h, tok_meta T ! h, tok_off T ! h)"
    by (force dest: list_all2_set2)
  moreover have "t \<noteq> [] \<and> length t < 256" using assms(1) \<open>(t, kk) \<in> set vs\<close> by (auto simp: built_def)
  ultimately show ?thesis using that len by blast
qed

lemma probe_values:
  assumes b: "built vs es T" and s: "s \<noteq> []"
    and acc: "\<And>k h. length (tok_keys T) = 2 ^ k \<Longrightarrow> h < 2 ^ k \<Longrightarrow> tok_keys T ! h \<noteq> 0 \<Longrightarrow>
       accept h = Some (ok (tok_keys T ! h, tok_meta T ! h, tok_off T ! h))"
    and ok: "\<And>t kk e. (t, kk) \<in> set vs \<Longrightarrow> entry_for (tok_blob T) (t, kk) e \<Longrightarrow>
       fst e = token_key s \<Longrightarrow> ok e \<longleftrightarrow> t = s"
  shows "probe T accept (token_key s) (length (tok_keys T))
           (hash_slot (tok_mul T) (tok_shift T) (token_key s)) = Some (value_kind vs s)"
    (is "?p = _")
proof -
  from b obtain k where es: "list_all2 (entry_for (tok_blob T)) vs es" and d: "distinct (map fst vs)"
    and ne: "\<And>t kk. (t, kk) \<in> set vs \<Longrightarrow> t \<noteq> []" and k: "k \<le> 32"
    and inv: "table_inv (tok_mul T) k (set es) (tok_keys T, tok_meta T, tok_off T)"
    and free: "\<exists>h < 2 ^ k. tok_keys T ! h = 0" and sh: "tok_shift T = 32 - k" "tok_mask T = 2 ^ k - 1"
    by (auto simp: built_def)
  have len: "length (tok_keys T) = 2 ^ k" using inv by (simp add: table_inv_def)
  from probe_table [OF inv k free refl sh, of accept ok "token_key s"] acc [OF len]
  consider (hit) m off where "(token_key s, m, off) \<in> set es" "ok (token_key s, m, off)"
      "?p = Some (Some (decode_kind (m AND 0x7FF)))"
    | (miss) "\<forall>e \<in> set es. fst e = token_key s \<longrightarrow> \<not> ok e" "?p = Some None"
    by auto
  then show ?thesis
  proof cases
    case hit
    from list_all2_set2 [OF es hit(1)] obtain t kk where
      v': "(t, kk) \<in> set vs" "entry_for (tok_blob T) (t, kk) (token_key s, m, off)"
      by force
    with ok hit(2) have "t = s" by auto
    with v' d have "map_of vs s = Some kk" by simp
    with entry_kind [OF v'(2)] ne [OF v'(1)] hit(3) show ?thesis by (simp add: value_kind_def)
  next
    case miss
    have "map_of vs s = None"
    proof (rule ccontr)
      assume "map_of vs s \<noteq> None"
      then obtain kk where "(s, kk) \<in> set vs" by (auto dest: map_of_SomeD)
      with list_all2_set1 [OF es] obtain e where "e \<in> set es" "entry_for (tok_blob T) (s, kk) e"
        by blast
      moreover from this(2) have "fst e = token_key s" by (auto dest: entry_for_fst)
      ultimately show False using miss(1) ok \<open>(s, kk) \<in> set vs\<close> by blast
    qed
    with miss(2) show ?thesis by (simp add: value_kind_def)
  qed
qed

lemma accept_long_eq:
  assumes b: "built vs es T" and h: "length (tok_keys T) = 2 ^ k" "h < 2 ^ k" "tok_keys T ! h \<noteq> 0"
    and s: "4 < length s"
  shows "accept_long T s h = Some (ok_long (tok_blob T) s (tok_keys T ! h, tok_meta T ! h, tok_off T ! h))"
proof -
  from built_slot [OF b h] obtain t kk where t: "t \<noteq> []" "length t < 256"
    "entry_for (tok_blob T) (t, kk) (tok_keys T ! h, tok_meta T ! h, tok_off T ! h)"
    and l: "h < length (tok_meta T)" "h < length (tok_off T)" by metis
  show ?thesis
  proof (cases "drop_bit 11 (tok_meta T ! h) = 31")
    case True
    then have "unat (drop_bit 11 (tok_meta T ! h)) = 31" by (simp only: unat_u16_31)
    with entry_tag [OF t(3,1)] t(1) have "4 < length t" by (simp split: if_splits)
    with entry_blob [OF t(3)] t(2) have blob:
      "unat (tok_off T ! h) + 1 + length t \<le> length (tok_blob T)"
      "unat (tok_blob T ! unat (tok_off T ! h)) = length t" by simp_all
    then show ?thesis
      using True l by (cases "length t = length s") (simp_all add: accept_long_def ok_long_def Let_def)
  next
    case False
    with l show ?thesis by (simp add: accept_long_def ok_long_def)
  qed
qed

lemma accept_short_eq:
  assumes "built vs es T" "length (tok_keys T) = 2 ^ k" "h < 2 ^ k" "tok_keys T ! h \<noteq> 0"
  shows "accept_short T (length s) h = Some (ok_short s (tok_keys T ! h, tok_meta T ! h, tok_off T ! h))"
  using assms by (rule built_slot) (simp add: accept_short_def ok_short_def)

lemma lookup_bytes_correct:
  assumes "build_tokens sb db = Ok T" "token_values sb db = Ok vs"
  shows "lookup_bytes T s = Some (value_kind vs s)"
proof -
  from build_tokens_built [OF assms] obtain es where b: "built vs es T" and ml: "max_token_len T = max_len vs"
    by blast
  have ne: "\<And>t kk. (t, kk) \<in> set vs \<Longrightarrow> t \<noteq> [] \<and> length t < 256" using b by (auto simp: built_def)
  consider (out) "length s = 0 \<or> max_token_len T < length s"
    | (short) "s \<noteq> []" "length s \<le> max_token_len T" "length s \<le> 4"
    | (long) "length s \<le> max_token_len T" "4 < length s" by fastforce
  then show ?thesis
  proof cases
    case out
    then have "map_of vs s = None"
      using ne max_len_ge ml by (fastforce simp: map_of_eq_None_iff)
    with out show ?thesis by (simp add: lookup_bytes_def value_kind_def)
  next
    case short
    have "probe T (accept_short T (length s)) (token_key s) (length (tok_keys T))
        (hash_slot (tok_mul T) (tok_shift T) (token_key s)) = Some (value_kind vs s)"
    proof (rule probe_values [OF b short(1)])
      show "accept_short T (length s) h = Some (ok_short s (tok_keys T ! h, tok_meta T ! h, tok_off T ! h))"
        if "length (tok_keys T) = 2 ^ k" "h < 2 ^ k" "tok_keys T ! h \<noteq> 0" for k h
        using b that by (rule accept_short_eq)
      show "ok_short s e \<longleftrightarrow> t = s"
        if "(t, kk) \<in> set vs" "entry_for (tok_blob T) (t, kk) e" "fst e = token_key s" for t kk e
        using that(2) _ short(1,3) that(3) by (rule ok_short_iff) (use ne that(1) in blast)
    qed
    with short show ?thesis
      using lookup_key_token_key [of s] by (simp add: lookup_bytes_def lookup_key_def Let_def)
  next
    case long
    have "probe T (accept_long T s) (token_key s) (length (tok_keys T))
        (hash_slot (tok_mul T) (tok_shift T) (token_key s)) = Some (value_kind vs s)"
    proof (rule probe_values [OF b])
      show "s \<noteq> []" using long by auto
      show "accept_long T s h = Some (ok_long (tok_blob T) s (tok_keys T ! h, tok_meta T ! h, tok_off T ! h))"
        if "length (tok_keys T) = 2 ^ k" "h < 2 ^ k" "tok_keys T ! h \<noteq> 0" for k h
        using b that long(2) by (rule accept_long_eq)
      show "ok_long (tok_blob T) s e \<longleftrightarrow> t = s"
        if "(t, kk) \<in> set vs" "entry_for (tok_blob T) (t, kk) e" "fst e = token_key s" for t kk e
        using that(2) _ _ long(2) by (rule ok_long_iff) (use ne that(1) in blast)+
    qed
    moreover have "s \<noteq> []" using long by auto
    ultimately show ?thesis
      using long lookup_key_token_key [of s] by (simp add: lookup_bytes_def lookup_key_def Let_def)
  qed
qed

subsection \<open>What the other components rely on\<close>

lemma ucast_u16_u8: "(ucast (w :: u16) :: u8) = of_nat (unat w)"
  by (simp add: word_unat_eq_iff unsigned_ucast_eq unsigned_of_nat)

lemma decode_kind_single: "i < 256 \<Longrightarrow> decode_kind (of_nat i) = Single (of_nat i)"
  by (simp add: decode_kind_def word_less_nat_alt unat_u16_of_nat ucast_u16_u8)

lemma of_nat_mod_u8: "(of_nat (n mod 256) :: u8) = of_nat n"
  by (simp add: word_unat_eq_iff unat_u8_of_nat)

lemma decode_kind_double:
  assumes "i < 256" "(d + 1) * 256 + i < 2048"
  shows "decode_kind (of_nat ((d + 1) * 256 + i)) = Double (of_nat d) (of_nat i)"
proof -
  define k where "k = (d + 1) * 256 + i"
  define w where "w = (of_nat k :: u16)"
  have u: "unat w = k" unfolding w_def using assms(2) by (intro unat_u16_of_nat) (simp add: k_def)
  have k: "k = i + (d + 1) * 256" by (simp add: k_def)
  have d: "k div 256 = d + 1" "k mod 256 = i"
    unfolding k using assms(1) by (simp_all only: div_mult_self1 mod_mult_self1 div_less mod_less)
  have "unat (drop_bit 8 w) = d + 1"
    unfolding unat_drop_bit_eq u using d by (simp add: drop_bit_eq_div)
  then have "(ucast (drop_bit 8 w) :: u8) = of_nat d + 1"
    by (simp add: ucast_u16_u8)
  moreover have "(ucast w :: u8) = of_nat i"
    unfolding ucast_u16_u8 u using d(2) by (metis of_nat_mod_u8)
  moreover have "\<not> w < 256" unfolding word_less_nat_alt u by (simp add: k_def)
  ultimately have "decode_kind w = Double (of_nat d) (of_nat i)" by (simp add: decode_kind_def)
  then show ?thesis by (simp only: w_def k_def)
qed

lemma unat_eq_u8: "n < 256 \<Longrightarrow> of_nat n = (i :: u8) \<longleftrightarrow> n = unat i"
  by (auto simp: unat_u8_of_nat)

text \<open>The kinds the values carry are the positions of the decoding arrays.\<close>

lemma value_kind_iff:
  assumes v: "token_values sb db = Ok vs" and small: "\<forall>(t, k) \<in> set vs. k < 2048"
  shows "value_kind vs s = Some (Single i) \<longleftrightarrow> s \<noteq> [] \<and> unat i < length sb \<and> sb ! unat i = s"
    and "value_kind vs s = Some (Double d i) \<longleftrightarrow>
      s \<noteq> [] \<and> unat d < length db \<and> unat i < length (db ! unat d) \<and> db ! unat d ! unat i = s"
proof -
  note p = token_values_props [OF v]
  have mem: "map_of vs s = Some k \<longleftrightarrow> (s, k) \<in> set vs" for k
    using p(2) by (auto dest: map_of_SomeD)
  have set: "(s, k) \<in> set vs \<longleftrightarrow> (s, k) \<in> set (indexed 0 sb) \<or> (s, k) \<in> set (doubles 0 db)" for k
    using p(1) by simp
  have sd: "(s, k) \<in> set (indexed 0 sb) \<Longrightarrow> decode_kind (of_nat k) = Single (of_nat k) \<and> k < 256" for k
    using p(3) decode_kind_single by fastforce
  have dd: "\<exists>d' i'. k = (d' + 1) * 256 + i' \<and> d' < length db \<and> i' < 256 \<and> d' < 256 \<and>
      (s, i') \<in> set (indexed 0 (db ! d')) \<and> decode_kind (of_nat k) = Double (of_nat d') (of_nat i')"
    if k: "(s, k) \<in> set (doubles 0 db)" for k
  proof -
    from k obtain d' i' where d': "k = (d' + 1) * 256 + i'" "d' < length db" "(s, i') \<in> set (indexed 0 (db ! d'))"
      by (auto simp: in_set_doubles)
    have k2: "k < 2048" using small set [of k] k by auto
    have i2: "i' < 256" using p(4) d' by fastforce
    have "d' < 7" using k2 d'(1) by simp
    with k2 i2 show ?thesis using d' decode_kind_double [of i' d']
      by (intro exI [of _ d'] exI [of _ i']) (simp del: of_nat_add of_nat_mult)
  qed
  show "value_kind vs s = Some (Single i) \<longleftrightarrow> s \<noteq> [] \<and> unat i < length sb \<and> sb ! unat i = s"
  proof
    assume "value_kind vs s = Some (Single i)"
    then obtain k where k: "(s, k) \<in> set vs" "decode_kind (of_nat k) = Single i"
      by (auto simp: value_kind_def mem)
    then have "(s, k) \<in> set (indexed 0 sb)" using dd set by fastforce
    with sd k(2) show "s \<noteq> [] \<and> unat i < length sb \<and> sb ! unat i = s"
      by (auto simp: unat_eq_u8 in_set_indexed)
  next
    assume "s \<noteq> [] \<and> unat i < length sb \<and> sb ! unat i = s"
    then have m: "(s, unat i) \<in> set (indexed 0 sb)" by (simp add: in_set_indexed)
    with set have "map_of vs s = Some (unat i)" by (simp add: mem)
    with sd [OF m] show "value_kind vs s = Some (Single i)" by (simp add: value_kind_def)
  qed
  show "value_kind vs s = Some (Double d i) \<longleftrightarrow>
      s \<noteq> [] \<and> unat d < length db \<and> unat i < length (db ! unat d) \<and> db ! unat d ! unat i = s"
  proof
    assume "value_kind vs s = Some (Double d i)"
    then obtain k where k: "(s, k) \<in> set vs" "decode_kind (of_nat k) = Double d i"
      by (auto simp: value_kind_def mem)
    then have "(s, k) \<in> set (doubles 0 db)" using sd set by fastforce
    from dd [OF this] obtain d' i' where di: "d' < length db" "i' < 256" "d' < 256"
      "(s, i') \<in> set (indexed 0 (db ! d'))" "decode_kind (of_nat k) = Double (of_nat d') (of_nat i')"
      by blast
    with k(2) have "d' = unat d" "i' = unat i" by (simp_all add: unat_eq_u8)
    with di show "s \<noteq> [] \<and> unat d < length db \<and> unat i < length (db ! unat d) \<and> db ! unat d ! unat i = s"
      by (simp add: in_set_indexed)
  next
    assume a: "s \<noteq> [] \<and> unat d < length db \<and> unat i < length (db ! unat d) \<and> db ! unat d ! unat i = s"
    let ?k = "(unat d + 1) * 256 + unat i"
    from a have "(s, unat i) \<in> set (indexed 0 (db ! unat d))" by (simp add: in_set_indexed)
    with a have m: "(s, ?k) \<in> set (doubles 0 db)" unfolding in_set_doubles by blast
    with set have mv: "(s, ?k) \<in> set vs" by blast
    with small have "?k < 2048" by blast
    then have "decode_kind (of_nat ?k) = Double d i"
      using decode_kind_double [of "unat i" "unat d"] by simp
    moreover have "map_of vs s = Some ?k" using mv mem by blast
    ultimately show "value_kind vs s = Some (Double d i)" by (simp only: value_kind_def option.map)
  qed
qed

text \<open>
  The dictionaries in use: the build accepted the token lists, and there are at most as many
  of them as the wire has tags for. The first single-byte token, whose tag means an empty list, is
  the empty string.
\<close>

definition tables_ok :: "token_tables \<Rightarrow> bool" where
  "tables_ok T \<longleftrightarrow>
     build_tokens (single_byte_tokens T) (double_byte_tokens T) = Ok T \<and>
     length (single_byte_tokens T) \<le> 236 \<and> length (double_byte_tokens T) \<le> 4 \<and>
     (\<forall>t \<in> set (take 1 (single_byte_tokens T)). t = [])"

lemma build_tokens_values:
  "build_tokens sb db = Ok T \<Longrightarrow> \<exists>vs. token_values sb db = Ok vs"
  by (auto simp: build_tokens_def obind_eq_Ok)

lemma index_of_token_single_iff:
  assumes "build_tokens sb db = Ok T"
  shows "index_of_token T s = Some (Single i) \<longleftrightarrow> s \<noteq> [] \<and> get_single_token T i = Some s"
    and "index_of_token T s = Some (Double d i) \<longleftrightarrow> s \<noteq> [] \<and> get_double_token T d i = Some s"
proof -
  from build_tokens_values [OF assms] obtain vs where v: "token_values sb db = Ok vs" by blast
  note b = build_tokens_built [OF assms v]
  have "index_of_token T s = value_kind vs s"
    by (simp add: index_of_token_def lookup_bytes_correct [OF assms v])
  then show "index_of_token T s = Some (Single i) \<longleftrightarrow> s \<noteq> [] \<and> get_single_token T i = Some s"
    "index_of_token T s = Some (Double d i) \<longleftrightarrow> s \<noteq> [] \<and> get_double_token T d i = Some s"
    using value_kind_iff [OF v b(5), of s] b(3,4)
    by (auto simp: get_single_token_def get_double_token_def Let_def)
qed

lemma tables_ok_single:
  assumes "tables_ok T" "index_of_token T s = Some (Single i)"
  shows "get_single_token T i = Some s" "unat i < 236" "s \<noteq> [] \<Longrightarrow> i \<noteq> 0"
proof -
  from assms index_of_token_single_iff(1) show g: "get_single_token T i = Some s"
    unfolding tables_ok_def by blast
  with assms(1) show "unat i < 236" by (auto simp: get_single_token_def tables_ok_def split: if_splits)
  from g assms(1) show "s \<noteq> [] \<Longrightarrow> i \<noteq> 0"
    by (cases "single_byte_tokens T") (auto simp: get_single_token_def tables_ok_def)
qed

lemma tables_ok_double:
  assumes "tables_ok T" "index_of_token T s = Some (Double d i)"
  shows "get_double_token T d i = Some s" "unat d < 4"
proof -
  from assms index_of_token_single_iff(2) show g: "get_double_token T d i = Some s"
    unfolding tables_ok_def by blast
  with assms(1) show "unat d < 4"
    by (auto simp: get_double_token_def tables_ok_def Let_def split: if_splits)
qed

text \<open>A small dictionary on which the witnesses of the development run.\<close>

definition sample_tables :: token_tables where
  "sample_tables =
     \<lparr>max_token_len = 5, tok_mul = 0x9E3779B1, tok_shift = 30, tok_mask = 3,
      tok_keys = [1768032308, 29033, 0, 0], tok_meta = [63744, 2049, 0, 0],
      tok_off = [0, 0, 0, 0], tok_blob = 5 # lit ''abcde'',
      single_byte_tokens = [[], lit ''iq''], double_byte_tokens = [[lit ''abcde'']]\<rparr>"

lemma sample_values:
  "token_values [[], lit ''iq''] [[lit ''abcde'']] = Ok [(lit ''iq'', 1), (lit ''abcde'', 256)]"
  by (simp add: token_values_def lit_def)

lemma sample_keys: "token_key (lit ''iq'') = 29033" "token_key (lit ''abcde'') = 1768032308"
proof -
  have "word_rotl 11 (1684234849 :: u32) = 454232867" by code_simp
  then show "token_key (lit ''abcde'') = 1768032308"
    by (simp add: token_key_def lit_def from_le32_def)
qed (simp add: token_key_def lit_def from_le32_def)

lemma sample_entries:
  "make_entries [(lit ''iq'', 1), (lit ''abcde'', 256)] [] [] =
     Ok ([(29033, 2049, 0), (1768032308, 63744, 0)], 5 # lit ''abcde'')"
  by (simp add: sample_keys) (simp add: lit_def)

lemma try_muls_hit:
  "insert_entries mul k es (replicate (2 ^ k) 0, replicate (2 ^ k) 0, replicate (2 ^ k) 0) = Some sl \<Longrightarrow>
   0 < n \<Longrightarrow> try_muls n mul k es = Some (mul, sl)"
  by (cases n) simp_all

lemma sample_table:
  "build_table [(29033, 2049, 0), (1768032308, 63744, 0)] =
     Ok (0x9E3779B1, 2, [1768032308, 29033, 0, 0], [63744, 2049, 0, 0], [0, 0, 0, 0])"
proof -
  have r: "replicate 4 x = [x, x, x, x]" for x :: "'a" by (simp add: eval_nat_numeral)
  have "try_muls 256 0x9E3779B1 2 [(29033, 2049, 0), (1768032308, 63744, 0)] =
      Some (0x9E3779B1, [1768032308, 29033, 0, 0], [63744, 2049, 0, 0], [0, 0, 0, 0])"
    by (rule try_muls_hit) (simp_all add: find_slot.simps hash_slot_def r)
  moreover have "bit_len 2 = 2" by (simp add: bit_len.simps)
  ultimately show ?thesis by (simp add: build_table_def build_from.simps)
qed

lemma sample_built: "build_tokens [[], lit ''iq''] [[lit ''abcde'']] = Ok sample_tables"
  unfolding build_tokens_def sample_values obind.simps sample_entries prod.case sample_table
  by (simp add: max_len_def sample_tables_def) (simp add: lit_def)

lemma sample_tables_ok: "tables_ok sample_tables"
  using sample_built by (simp add: tables_ok_def) (simp add: sample_tables_def)

section \<open>Main result\<close>

text \<open>C16. On the table the build script makes of any token lists it accepts, the hash
  lookup ends on every byte string, and it finds exactly the dictionary: a string is looked up
  to a kind if and only if it is not empty and the decoding arrays hold it at that kind. So
  every token the encoder emits decodes to the string it stands for, and no string is missed.\<close>

theorem index_of_token_exact:
  assumes "build_tokens sb db = Ok T"
  shows "lookup_bytes T s = Some (index_of_token T s) \<and>
    (\<forall>i. index_of_token T s = Some (Single i) \<longleftrightarrow> s \<noteq> [] \<and> get_single_token T i = Some s) \<and>
    (\<forall>d i. index_of_token T s = Some (Double d i) \<longleftrightarrow> s \<noteq> [] \<and> get_double_token T d i = Some s)"
proof -
  from build_tokens_values [OF assms] obtain vs where "token_values sb db = Ok vs" by blast
  from lookup_bytes_correct [OF assms this] have "lookup_bytes T s = Some (index_of_token T s)"
    by (simp add: index_of_token_def)
  with index_of_token_single_iff [OF assms] show ?thesis by blast
qed

theorem index_of_token_exact_witness:
  "build_tokens [[], lit ''iq''] [[lit ''abcde'']] = Ok sample_tables \<and>
   index_of_token sample_tables (lit ''iq'') = Some (Single 1) \<and>
   index_of_token sample_tables (lit ''abcde'') = Some (Double 0 0)"
  using index_of_token_exact [OF sample_built, of "lit ''iq''"]
    index_of_token_exact [OF sample_built, of "lit ''abcde''"] sample_built
  by (simp add: get_single_token_def get_double_token_def sample_tables_def) (simp add: lit_def)

end
