(* ===== verification/Jid.thy ===== *)
theory Jid
  imports Prelude
begin

text \<open>
  Addresses: \<open>jid.rs\<close>. The theory models the server names, the single-pass scanner and the
  validating parser, the renderers (all written against one text sink interface, the locale
  \<open>text_sink\<close>), the comparisons and the redacting display.

  A \<open>Jid\<close> and a \<open>JidRef\<close> differ only in who owns the user string (a \<open>NodeStr\<close>
  dereferences to it), so both are the record \<open>jid\<close>. A user, like every string, is its UTF-8
  bytes; the separators the parser looks for are ASCII.

  Main results: the parser agrees with a declarative reading of the grammar and succeeds exactly
  when the server suffix is known; rendering and parsing are inverse on exactly the JIDs
  described by \<open>renderable\<close>; every rendering path produces the same text; the
  allocation-free comparison decides equality with that text; equality is an equivalence that
  agrees with what is hashed; redaction hides the number.
\<close>

section \<open>Servers\<close>

datatype server_name =
  Pn | Lid | Group | Broadcast | Newsletter | Hosted | HostedLid | Messenger | Interop | Bot | Call

fun as_str :: "server_name \<Rightarrow> str" where
  "as_str Pn = lit ''s.whatsapp.net''"
| "as_str Lid = lit ''lid''"
| "as_str Group = lit ''g.us''"
| "as_str Broadcast = lit ''broadcast''"
| "as_str Newsletter = lit ''newsletter''"
| "as_str Hosted = lit ''hosted''"
| "as_str HostedLid = lit ''hosted.lid''"
| "as_str Messenger = lit ''msgr''"
| "as_str Interop = lit ''interop''"
| "as_str Bot = lit ''bot''"
| "as_str Call = lit ''call''"

definition parse_known :: "str \<Rightarrow> server_name option" where
  "parse_known s =
     (if s = lit ''s.whatsapp.net'' then Some Pn
      else if s = lit ''lid'' then Some Lid
      else if s = lit ''g.us'' then Some Group
      else if s = lit ''broadcast'' then Some Broadcast
      else if s = lit ''newsletter'' then Some Newsletter
      else if s = lit ''hosted'' then Some Hosted
      else if s = lit ''hosted.lid'' then Some HostedLid
      else if s = lit ''msgr'' then Some Messenger
      else if s = lit ''interop'' then Some Interop
      else if s = lit ''bot'' then Some Bot
      else if s = lit ''c.us'' then Some Pn
      else if s = lit ''call'' then Some Call
      else None)"

definition is_pn_family :: "server_name \<Rightarrow> bool" where
  "is_pn_family s \<longleftrightarrow> s = Pn \<or> s = Hosted"

definition is_lid_family :: "server_name \<Rightarrow> bool" where
  "is_lid_family s \<longleftrightarrow> s = Lid \<or> s = HostedLid"

definition renders_agent :: "server_name \<Rightarrow> bool" where
  "renders_agent s \<longleftrightarrow> \<not> (s = Pn \<or> s = Lid \<or> s = Hosted \<or> s = HostedLid)"

definition carries_phone_number :: "server_name \<Rightarrow> bool" where
  "carries_phone_number s \<longleftrightarrow> s = Pn \<or> s = Hosted \<or> s = Messenger \<or> s = Interop"

text \<open>The kinds of \<open>ParseIntError\<close> a decimal parse can report.\<close>

datatype int_error = Empty | InvalidDigit | PosOverflow | NegOverflow

datatype jid_error = InvalidFormat str | Parse int_error

definition server_try_from :: "str \<Rightarrow> (jid_error, server_name) outcome" where
  "server_try_from s = ok_or (InvalidFormat (lit ''unknown server: '' @ s)) (parse_known s)"

section \<open>The record\<close>

record jid =
  jid_user :: str
  jid_server :: server_name
  jid_agent :: u8
  jid_device :: u16
  jid_integrator :: u16

text \<open>\<open>Jid::new\<close>; the constructors named after a server are this function at that server.\<close>

definition jid_new :: "str \<Rightarrow> server_name \<Rightarrow> jid" where
  "jid_new u s = \<lparr>jid_user = u, jid_server = s, jid_agent = 0, jid_device = 0, jid_integrator = 0\<rparr>"

definition pn_device :: "str \<Rightarrow> u16 \<Rightarrow> jid" where
  "pn_device u d = (jid_new u Pn)\<lparr>jid_device := d\<rparr>"

definition lid_device :: "str \<Rightarrow> u16 \<Rightarrow> jid" where
  "lid_device u d = (jid_new u Lid)\<lparr>jid_device := d\<rparr>"

definition status_broadcast :: jid where
  "status_broadcast = jid_new (lit ''status'') Broadcast"

subsection \<open>Predicates of the \<open>JidExt\<close> trait\<close>

definition is_ad :: "jid \<Rightarrow> bool" where
  "is_ad j \<longleftrightarrow> 0 < jid_device j \<and> jid_server j \<in> {Pn, Lid, Hosted, HostedLid}"

definition is_interop :: "jid \<Rightarrow> bool" where
  "is_interop j \<longleftrightarrow> jid_server j = Interop \<and> 0 < jid_integrator j"

definition is_messenger :: "jid \<Rightarrow> bool" where
  "is_messenger j \<longleftrightarrow> jid_server j = Messenger \<and> 0 < jid_device j"

definition is_group :: "jid \<Rightarrow> bool" where
  "is_group j \<longleftrightarrow> jid_server j = Group"

definition is_broadcast_list :: "jid \<Rightarrow> bool" where
  "is_broadcast_list j \<longleftrightarrow> jid_server j = Broadcast \<and> jid_user j \<noteq> lit ''status''"

definition is_status_broadcast :: "jid \<Rightarrow> bool" where
  "is_status_broadcast j \<longleftrightarrow> jid_server j = Broadcast \<and> jid_user j = lit ''status''"

definition is_psa :: "jid \<Rightarrow> bool" where
  "is_psa j \<longleftrightarrow> jid_server j = Pn \<and> jid_user j = lit ''0''"

definition starts_with :: "str \<Rightarrow> str \<Rightarrow> bool" where
  "starts_with s p \<longleftrightarrow> take (length p) s = p"

definition is_bot :: "jid \<Rightarrow> bool" where
  "is_bot j \<longleftrightarrow>
     (jid_server j = Pn \<and> jid_device j = 0 \<and>
      (starts_with (jid_user j) (lit ''1313555'') \<or> starts_with (jid_user j) (lit ''131655500''))) \<or>
     jid_server j = Bot"

definition is_newsletter :: "jid \<Rightarrow> bool" where
  "is_newsletter j \<longleftrightarrow> jid_server j = Newsletter"

definition is_hosted :: "jid \<Rightarrow> bool" where
  "is_hosted j \<longleftrightarrow> jid_device j = 99 \<or> jid_server j = Hosted \<or> jid_server j = HostedLid"

definition jid_is_empty :: "jid \<Rightarrow> bool" where
  "jid_is_empty j \<longleftrightarrow> jid_user j = []"

definition is_same_user_as :: "jid \<Rightarrow> jid \<Rightarrow> bool" where
  "is_same_user_as j k \<longleftrightarrow> jid_user j = jid_user k"

subsection \<open>Derived JIDs\<close>

definition user_base :: "jid \<Rightarrow> str" where
  "user_base j = (case split_once 58 (jid_user j) of Some (b, _) \<Rightarrow> b | None \<Rightarrow> jid_user j)"

definition with_device :: "jid \<Rightarrow> u16 \<Rightarrow> jid" where
  "with_device j d = j\<lparr>jid_device := d\<rparr>"

definition with_device_hosting :: "jid \<Rightarrow> u16 \<Rightarrow> bool \<Rightarrow> jid" where
  "with_device_hosting j d hosted =
     (let k = with_device j d in
      k\<lparr>jid_server :=
          (case (jid_server k, hosted) of
             (Pn, True) \<Rightarrow> Hosted | (Hosted, True) \<Rightarrow> Hosted
           | (Pn, False) \<Rightarrow> Pn | (Hosted, False) \<Rightarrow> Pn
           | (Lid, True) \<Rightarrow> HostedLid | (HostedLid, True) \<Rightarrow> HostedLid
           | (Lid, False) \<Rightarrow> Lid | (HostedLid, False) \<Rightarrow> Lid
           | (s, _) \<Rightarrow> s)\<rparr>)"

definition to_non_ad :: "jid \<Rightarrow> jid" where
  "to_non_ad j = j\<lparr>jid_agent := 0, jid_device := 0\<rparr>"

definition is_same_chat_as :: "jid \<Rightarrow> jid \<Rightarrow> bool" where
  "is_same_chat_as j k \<longleftrightarrow>
     jid_user j = jid_user k \<and> jid_server j = jid_server k \<and>
     jid_integrator j = jid_integrator k \<and>
     (\<not> renders_agent (jid_server j) \<or> jid_agent j = jid_agent k)"

definition matches_user_or_lid :: "jid \<Rightarrow> jid \<Rightarrow> jid option \<Rightarrow> bool" where
  "matches_user_or_lid j user lid \<longleftrightarrow>
     is_same_user_as j user \<or> (case lid of Some l \<Rightarrow> is_same_user_as j l | None \<Rightarrow> False)"

definition device_eq :: "jid \<Rightarrow> jid \<Rightarrow> bool" where
  "device_eq j k \<longleftrightarrow>
     jid_user j = jid_user k \<and> jid_server j = jid_server k \<and> jid_device j = jid_device k"

record device_key_rec =
  dk_user :: str
  dk_server :: server_name
  dk_device :: u16

definition device_key :: "jid \<Rightarrow> device_key_rec" where
  "device_key j = \<lparr>dk_user = jid_user j, dk_server = jid_server j, dk_device = jid_device j\<rparr>"

subsection \<open>Equality and hash\<close>

definition identity_agent :: "server_name \<Rightarrow> u8 \<Rightarrow> u8" where
  "identity_agent s a = (if renders_agent s then a else 0)"

definition jid_eq :: "jid \<Rightarrow> jid \<Rightarrow> bool" where
  "jid_eq j k \<longleftrightarrow>
     jid_user j = jid_user k \<and> jid_server j = jid_server k \<and> jid_device j = jid_device k \<and>
     jid_integrator j = jid_integrator k \<and>
     (jid_agent j = jid_agent k \<or>
      identity_agent (jid_server j) (jid_agent j) = identity_agent (jid_server k) (jid_agent k))"

text \<open>What \<open>Hash\<close> feeds the hasher, in order.\<close>

definition jid_hash_feed :: "jid \<Rightarrow> str \<times> server_name \<times> u16 \<times> u16 \<times> u8" where
  "jid_hash_feed j =
     (jid_user j, jid_server j, jid_device j, jid_integrator j,
      identity_agent (jid_server j) (jid_agent j))"


section \<open>Parsing\<close>

text \<open>The hand-written \<open>u16\<close> parser, with the checked operations of its width.\<close>

definition checked_mul16 :: "u16 \<Rightarrow> u16 \<Rightarrow> u16 option" where
  "checked_mul16 a b = (if unat a * unat b < 65536 then Some (a * b) else None)"

definition checked_add16 :: "u16 \<Rightarrow> u16 \<Rightarrow> u16 option" where
  "checked_add16 a b = (if unat a + unat b < 65536 then Some (a + b) else None)"

fun u16_digits :: "u16 \<Rightarrow> u8 list \<Rightarrow> u16 option" where
  "u16_digits v [] = Some v"
| "u16_digits v (b # bs) =
     (let digit = b - 48 in
      if 9 < digit then None
      else (case checked_mul16 v 10 of
              None \<Rightarrow> None
            | Some m \<Rightarrow> (case checked_add16 m (ucast digit) of None \<Rightarrow> None | Some v' \<Rightarrow> u16_digits v' bs)))"

definition parse_u16_decimal :: "str \<Rightarrow> u16 option" where
  "parse_u16_decimal s =
     (let bytes = (if s \<noteq> [] \<and> hd s = 43 then tl s else s)
      in if bytes = [] then None else u16_digits 0 bytes)"

text \<open>\<open>str::parse::<u16>\<close>, with the error it reports.\<close>

fun std_digits :: "nat \<Rightarrow> u8 list \<Rightarrow> (int_error, nat) outcome" where
  "std_digits v [] = Ok v"
| "std_digits v (b # bs) =
     (if \<not> is_digit b then Err InvalidDigit
      else if v * 10 + unat (b - 48) < 65536 then std_digits (v * 10 + unat (b - 48)) bs
      else Err PosOverflow)"

definition u16_from_str :: "str \<Rightarrow> (int_error, u16) outcome" where
  "u16_from_str s =
     (case s of
        [] \<Rightarrow> Err Empty
      | [b] \<Rightarrow> if b = 43 \<or> b = 45 then Err InvalidDigit else omap of_nat (std_digits 0 s)
      | b # bs \<Rightarrow> omap of_nat (std_digits 0 (if b = 43 then bs else s)))"

record parsed_jid_parts =
  p_user :: str
  p_server :: str
  p_agent :: u8
  p_device :: u16
  p_integrator :: u16

text \<open>The scan: the position of the first \<open>@\<close>, and the last \<open>:\<close> and \<open>.\<close> seen before it.\<close>

fun scan_separators :: "nat \<Rightarrow> u8 list \<Rightarrow> nat option \<Rightarrow> nat option \<Rightarrow> nat option \<times> nat option \<times> nat option" where
  "scan_separators i [] colon dot = (None, colon, dot)"
| "scan_separators i (b # bs) colon dot =
     (if b = 64 then (Some i, colon, dot)
      else if b = 58 then scan_separators (Suc i) bs (Some i) dot
      else if b = 46 then scan_separators (Suc i) bs colon (Some i)
      else scan_separators (Suc i) bs colon dot)"

definition slice :: "nat \<Rightarrow> nat \<Rightarrow> 'a list \<Rightarrow> 'a list" where
  "slice a b xs = take (b - a) (drop a xs)"

definition unwrap_or :: "'a \<Rightarrow> 'a option \<Rightarrow> 'a" where
  "unwrap_or d x = (case x of Some v \<Rightarrow> v | None \<Rightarrow> d)"

definition parse_jid_scan :: "str \<Rightarrow> (parsed_jid_parts \<times> server_name option) option" where
  "parse_jid_scan s =
     (case scan_separators 0 s None None of
        (None, _, _) \<Rightarrow> None
      | (Some at, colon_pos, last_dot_pos) \<Rightarrow>
        if at = 0 then None
        else
          (let user_part = take at s;
               server_str = drop (at + 1) s;
               srv = parse_known server_str;
               (user_before_colon, dev) =
                 (case colon_pos of
                    Some pos \<Rightarrow> (take pos s, unwrap_or 0 (parse_u16_decimal (slice (pos + 1) at s)))
                  | None \<Rightarrow> (user_part, 0))
           in if srv = Some Lid then
                Some (\<lparr>p_user = user_before_colon, p_server = server_str, p_agent = 0,
                       p_device = dev, p_integrator = 0\<rparr>, srv)
              else
                (let agent_dot =
                       (case last_dot_pos of
                          Some pos \<Rightarrow> if pos < length user_before_colon then Some pos
                                       else str_rfind 46 user_before_colon
                        | None \<Rightarrow> None);
                     (final_user, ag) =
                       (case agent_dot of
                          Some dot_pos \<Rightarrow>
                            (case parse_u16_decimal (drop (dot_pos + 1) user_before_colon) of
                               Some v \<Rightarrow> if v \<le> 255 then (take dot_pos user_before_colon, ucast v)
                                           else (user_before_colon, 0)
                             | None \<Rightarrow> (user_before_colon, 0))
                        | None \<Rightarrow> (user_before_colon, 0))
                 in Some (\<lparr>p_user = final_user, p_server = server_str, p_agent = ag,
                           p_device = dev, p_integrator = 0\<rparr>, srv))))"

definition parse_jid_fast :: "str \<Rightarrow> parsed_jid_parts option" where
  "parse_jid_fast s = map_option fst (parse_jid_scan s)"

definition parse_jid_ref :: "str \<Rightarrow> jid option" where
  "parse_jid_ref s =
     (case parse_jid_scan s of
        None \<Rightarrow> None
      | Some (parts, None) \<Rightarrow> None
      | Some (parts, Some srv) \<Rightarrow>
          Some \<lparr>jid_user = p_user parts, jid_server = srv, jid_agent = p_agent parts,
                jid_device = p_device parts, jid_integrator = p_integrator parts\<rparr>)"

definition parse_device :: "str \<Rightarrow> (jid_error, u16) outcome" where
  "parse_device s = (case u16_from_str s of Ok v \<Rightarrow> Ok v | Err e \<Rightarrow> Err (Parse e) | Panic \<Rightarrow> Panic)"

definition jid_from_str :: "str \<Rightarrow> (jid_error, jid) outcome" where
  "jid_from_str s =
     (case parse_jid_ref s of
        Some j \<Rightarrow> Ok j
      | None \<Rightarrow>
        (let (user_part, srv) = (case split_once 64 s of Some us \<Rightarrow> us | None \<Rightarrow> ([], s)) in
         if user_part = [] \<and> parse_known srv = None then
           Err (InvalidFormat (lit ''unknown server '' @ [39] @ srv @ [39]))
         else if srv = lit ''lid'' then
           obind (case rsplit_once 58 user_part of
                    Some (u, d_str) \<Rightarrow> omap (Pair u) (parse_device d_str)
                  | None \<Rightarrow> Ok (user_part, 0)) (\<lambda>(u, d).
           omap (\<lambda>sv. \<lparr>jid_user = u, jid_server = sv, jid_agent = 0, jid_device = d, jid_integrator = 0\<rparr>)
             (server_try_from srv))
         else
           obind (case rsplit_once 58 user_part of
                    Some (u, d_str) \<Rightarrow> omap (Pair u) (parse_device d_str)
                  | None \<Rightarrow> Ok (user_part, 0)) (\<lambda>(u, d).
           obind (case rsplit_once 46 u of
                    Some (u', last_part) \<Rightarrow>
                      (case u16_from_str last_part of
                         Ok num \<Rightarrow>
                           if 255 < num then
                             Err (InvalidFormat (lit ''Agent component out of range: '' @ dec (unat num)))
                           else Ok (u', ucast num)
                       | _ \<Rightarrow> Ok (u, 0))
                  | None \<Rightarrow> Ok (u, 0)) (\<lambda>(u, a).
           omap (\<lambda>sv. \<lparr>jid_user = u, jid_server = sv, jid_agent = a, jid_device = d, jid_integrator = 0\<rparr>)
             (server_try_from srv)))))"

section \<open>Rendering\<close>

text \<open>
  The infallible and the fallible arm of the macro \<open>write_jid\<close>. The fallible one is
  generic in the sink: \<open>ws\<close> is its \<open>write_str\<close>, \<open>None\<close> a \<open>fmt::Error\<close>.
\<close>

definition push_jid_to_string :: "str \<Rightarrow> server_name \<Rightarrow> u8 \<Rightarrow> u16 \<Rightarrow> str \<Rightarrow> str" where
  "push_jid_to_string user srv agent device buf =
     (if user = [] then buf @ as_str srv
      else
        (let buf = buf @ user;
             buf = (if 0 < agent \<and> renders_agent srv then (buf @ [46]) @ dec (unat agent) else buf);
             buf = (if 0 < device then (buf @ [58]) @ dec (unat device) else buf)
         in (buf @ [64]) @ as_str srv))"

definition write_jid_fallible ::
  "('w \<Rightarrow> str \<Rightarrow> 'w option) \<Rightarrow> 'w \<Rightarrow> str \<Rightarrow> server_name \<Rightarrow> u8 \<Rightarrow> u16 \<Rightarrow> 'w option" where
  "write_jid_fallible ws w user srv agent device =
     (if user = [] then ws w (as_str srv)
      else
        Option.bind (ws w user) (\<lambda>w.
        Option.bind (if 0 < agent \<and> renders_agent srv
                     then Option.bind (ws w [46]) (\<lambda>w. ws w (dec (unat agent))) else Some w) (\<lambda>w.
        Option.bind (if 0 < device
                     then Option.bind (ws w [58]) (\<lambda>w. ws w (dec (unat device))) else Some w) (\<lambda>w.
        Option.bind (ws w [64]) (\<lambda>w. ws w (as_str srv))))))"

subsection \<open>The sinks\<close>

text \<open>A growable string, which never refuses.\<close>

definition string_write_str :: "str \<Rightarrow> str \<Rightarrow> str option" where
  "string_write_str buf s = Some (buf @ s)"

record jid_stack_writer =
  sw_buf :: "u8 list"
  sw_len :: nat

definition stack_new :: jid_stack_writer where
  "stack_new = \<lparr>sw_buf = replicate 64 0, sw_len = 0\<rparr>"

definition stack_as_str :: "jid_stack_writer \<Rightarrow> str" where
  "stack_as_str w = take (sw_len w) (sw_buf w)"

definition stack_write_str :: "jid_stack_writer \<Rightarrow> str \<Rightarrow> jid_stack_writer option" where
  "stack_write_str w s =
     (let e = sw_len w + length s in
      if length (sw_buf w) < e then None
      else Some \<lparr>sw_buf = take (sw_len w) (sw_buf w) @ s @ drop e (sw_buf w), sw_len = e\<rparr>)"

record str_eq_writer =
  eq_target :: "u8 list"
  eq_position :: nat
  eq_matches :: bool

definition eq_write_str :: "str_eq_writer \<Rightarrow> str \<Rightarrow> str_eq_writer option" where
  "eq_write_str w s =
     (if eq_matches w then
        (let e = eq_position w + length s;
             m = \<not> (length (eq_target w) < e \<or> slice (eq_position w) e (eq_target w) \<noteq> s)
         in Some (w\<lparr>eq_matches := m, eq_position := e\<rparr>))
      else Some w)"

subsection \<open>The renderers\<close>

definition jid_ref_to_compact :: "jid \<Rightarrow> str" where
  "jid_ref_to_compact j =
     (case write_jid_fallible stack_write_str stack_new (jid_user j) (jid_server j) (jid_agent j) (jid_device j) of
        Some w \<Rightarrow> stack_as_str w
      | None \<Rightarrow> push_jid_to_string (jid_user j) (jid_server j) (jid_agent j) (jid_device j) [])"

definition to_non_ad_string :: "jid \<Rightarrow> str" where
  "to_non_ad_string j = push_jid_to_string (jid_user j) (jid_server j) 0 0 []"

definition to_non_ad_arc_str :: "jid \<Rightarrow> str" where
  "to_non_ad_arc_str j =
     (case write_jid_fallible stack_write_str stack_new (jid_user j) (jid_server j) 0 0 of
        Some w \<Rightarrow> stack_as_str w
      | None \<Rightarrow> to_non_ad_string j)"

definition write_display_to :: "('w \<Rightarrow> str \<Rightarrow> 'w option) \<Rightarrow> 'w \<Rightarrow> jid \<Rightarrow> 'w option" where
  "write_display_to ws w j =
     write_jid_fallible ws w (jid_user j) (jid_server j) (jid_agent j) (jid_device j)"

definition jid_fmt :: "('w \<Rightarrow> str \<Rightarrow> 'w option) \<Rightarrow> 'w \<Rightarrow> jid \<Rightarrow> 'w option" where
  "jid_fmt ws f j =
     (case write_display_to stack_write_str stack_new j of
        Some w \<Rightarrow> ws f (stack_as_str w)
      | None \<Rightarrow> write_display_to ws f j)"

text \<open>\<open>ToString\<close> runs \<open>Display\<close> on a string.\<close>

definition jid_to_string :: "jid \<Rightarrow> str option" where
  "jid_to_string j = jid_fmt string_write_str [] j"

definition push_phash_form_to :: "jid \<Rightarrow> str \<Rightarrow> str" where
  "push_phash_form_to j buf =
     (if jid_user j = [] then buf @ as_str (jid_server j)
      else buf @ jid_user j @ lit ''.0:'' @ dec (unat (jid_device j)) @ [64] @ as_str (jid_server j))"

definition to_phash_form_string :: "jid \<Rightarrow> str" where
  "to_phash_form_string j = push_phash_form_to j []"

subsection \<open>Comparing without rendering\<close>

definition jid_display_eq :: "str \<Rightarrow> server_name \<Rightarrow> u8 \<Rightarrow> u16 \<Rightarrow> str \<Rightarrow> bool" where
  "jid_display_eq user srv agent device other =
     (case write_jid_fallible eq_write_str \<lparr>eq_target = other, eq_position = 0, eq_matches = True\<rparr>
             user srv agent device of
        Some w \<Rightarrow> eq_matches w \<and> eq_position w = length other
      | None \<Rightarrow> False)"

definition display_eq :: "jid \<Rightarrow> str \<Rightarrow> bool" where
  "display_eq j other =
     jid_display_eq (jid_user j) (jid_server j) (jid_agent j) (jid_device j) other"

definition jid_displays_equal ::
  "str \<times> server_name \<times> u8 \<times> u16 \<Rightarrow> str \<times> server_name \<times> u8 \<times> u16 \<Rightarrow> bool" where
  "jid_displays_equal l r =
     (case (l, r) of ((lu, ls, la, ld), (ru, rs, ra, rd)) \<Rightarrow>
        if lu = [] \<or> ru = [] then lu = [] \<and> ru = [] \<and> ls = rs
        else lu = ru \<and> ls = rs \<and> ld = rd \<and> (\<not> renders_agent ls \<or> la = ra))"

definition display_eq_jid :: "jid \<Rightarrow> jid \<Rightarrow> bool" where
  "display_eq_jid j k =
     jid_displays_equal (jid_user j, jid_server j, jid_agent j, jid_device j)
       (jid_user k, jid_server k, jid_agent k, jid_device k)"

subsection \<open>Redacting display\<close>

text \<open>
  \<open>tok\<close> is the keyed hash of \<open>observe_token\<close> (the standard library's \<open>RandomState\<close>
  with a per-process key), \<open>pii\<close> the build feature \<open>tracing-pii\<close>.
\<close>

definition hex_digit :: "nat \<Rightarrow> u8" where
  "hex_digit n = (if n < 10 then 48 + of_nat n else 87 + of_nat n)"

fun hex_pad :: "nat \<Rightarrow> nat \<Rightarrow> str" where
  "hex_pad 0 n = []"
| "hex_pad (Suc k) n = hex_pad k (n div 16) @ [hex_digit (n mod 16)]"

definition hex16 :: "64 word \<Rightarrow> str" where
  "hex16 w = hex_pad 16 (unat w)"

definition observed_user :: "(str \<Rightarrow> 64 word) \<Rightarrow> jid \<Rightarrow> str option" where
  "observed_user tok j =
     (if carries_phone_number (jid_server j) then Some (lit ''pn#'' @ hex16 (tok (jid_user j)))
      else if jid_server j = Group \<or> jid_server j = Broadcast then
        (case str_find 45 (jid_user j) of
           Some i \<Rightarrow>
             if 0 < i \<and> list_all is_digit (take i (jid_user j)) then
               Some (lit ''pn#'' @ hex16 (tok (take i (jid_user j))) @ drop i (jid_user j))
             else None
         | None \<Rightarrow> None)
      else None)"

definition observe :: "bool \<Rightarrow> (str \<Rightarrow> 64 word) \<Rightarrow> jid \<Rightarrow> str option" where
  "observe pii tok j =
     (if jid_user j = [] \<or> pii then jid_fmt string_write_str [] j
      else
        (case observed_user tok j of
           None \<Rightarrow> jid_fmt string_write_str [] j
         | Some user \<Rightarrow>
             Some (user @
               (if 0 < jid_agent j \<and> renders_agent (jid_server j) then 46 # dec (unat (jid_agent j)) else []) @
               (if 0 < jid_device j then 58 # dec (unat (jid_device j)) else []) @
               64 # as_str (jid_server j))))"

definition observe_str :: "bool \<Rightarrow> (str \<Rightarrow> 64 word) \<Rightarrow> str \<Rightarrow> str option" where
  "observe_str pii tok s =
     (if pii then Some s
      else (case jid_from_str s of
              Ok j \<Rightarrow> observe pii tok j
            | _ \<Rightarrow> Some (lit ''?#'' @ hex16 (tok s))))"


section \<open>Properties of the parsers\<close>

subsection \<open>Numbers\<close>

lemma is_digit_iff: "is_digit b \<longleftrightarrow> \<not> 9 < b - 48"
proof -
  have "unat (b - 48) = (if 48 \<le> unat b then unat b - 48 else unat b + 208)"
    using unat_u8_bound [of b] by (simp add: unat_sub_if' word_le_nat_alt)
  then show ?thesis
    using unat_u8_bound [of b] by (auto simp: is_digit_def word_less_nat_alt word_le_nat_alt)
qed

lemma unat_u16_bound [simp]: "unat (v :: u16) < 65536"
  using unsigned_less [of v] by simp

lemma u16_digits_eq: "u16_digits v bs = map_option of_nat (parse_digits 65536 (unat v) bs)"
proof (induction v bs rule: u16_digits.induct)
  case (1 v)
  then show ?case by simp
next
  case (2 v b bs)
  let ?d = "b - 48"
  have u: "unat (ucast ?d :: u16) = unat ?d"
    by (simp add: unsigned_ucast_eq take_bit_nat_eq_self_iff less_trans [OF unat_u8_bound])
  show ?case
  proof (cases "9 < ?d")
    case True
    then show ?thesis by simp
  next
    case False
    show ?thesis
    proof (cases "unat v * 10 < 65536")
      case m: True
      then have um: "unat (v * 10) = unat v * 10" by (simp add: unat_word_ariths)
      show ?thesis
      proof (cases "unat v * 10 + unat ?d < 65536")
        case True
        then have ua: "unat (v * 10 + ucast ?d) = unat v * 10 + unat ?d"
          using um u by (simp add: unat_word_ariths)
        have "u16_digits (v * 10 + ucast ?d) bs =
            map_option of_nat (parse_digits 65536 (unat (v * 10 + ucast ?d)) bs)"
          using "2.IH" [OF refl False, of "v * 10" "v * 10 + ucast ?d"] m True um u
          by (simp add: checked_mul16_def checked_add16_def)
        with False m True ua um u show ?thesis
          by (simp add: checked_mul16_def checked_add16_def)
      next
        case False
        with \<open>\<not> 9 < ?d\<close> m um u show ?thesis
          by (simp add: checked_mul16_def checked_add16_def)
      qed
    next
      case m: False
      with False show ?thesis by (simp add: checked_mul16_def)
    qed
  qed
qed

lemma parse_u16_decimal_uint: "parse_u16_decimal s = map_option of_nat (parse_uint 65536 s)"
  by (cases s) (simp_all add: parse_u16_decimal_def parse_uint_def u16_digits_eq)

lemma parse_u16_decimal_dec [simp]: "parse_u16_decimal (dec (unat (v :: u16))) = Some v"
  by (simp add: parse_u16_decimal_uint)

lemma parse_u16_decimal_dec8 [simp]: "parse_u16_decimal (dec (unat (a :: u8))) = Some (ucast a)"
proof -
  have "unat a < 65536" by (rule less_trans [OF unat_u8_bound]) simp
  moreover have "(of_nat (unat a) :: u16) = ucast a" by simp
  ultimately show ?thesis unfolding parse_u16_decimal_uint by (simp del: of_nat_unat)
qed

lemma parse_u16_decimal_Nil [simp]: "parse_u16_decimal [] = None"
  by (simp add: parse_u16_decimal_def)

lemma std_digits_eq:
  "(case std_digits v bs of Ok n \<Rightarrow> Some n | Err _ \<Rightarrow> None | Panic \<Rightarrow> None) = parse_digits 65536 v bs"
  by (induction v bs rule: std_digits.induct) (simp_all add: is_digit_iff)

lemma std_digits_not_Panic [simp]: "std_digits v bs \<noteq> Panic"
  by (induction v bs rule: std_digits.induct) auto

lemma u16_from_str_not_Panic [simp]: "u16_from_str s \<noteq> Panic"
  by (auto simp: u16_from_str_def split: list.splits)

lemma case_omap_option:
  "(case omap f r of Ok n \<Rightarrow> Some n | Err _ \<Rightarrow> None | Panic \<Rightarrow> None) =
     map_option f (case r of Ok n \<Rightarrow> Some n | Err _ \<Rightarrow> None | Panic \<Rightarrow> None)"
  by (cases r) auto

lemma u16_from_str_eq:
  "(case u16_from_str s of Ok v \<Rightarrow> Some v | Err _ \<Rightarrow> None | Panic \<Rightarrow> None) = parse_u16_decimal s"
proof (cases s)
  case Nil
  then show ?thesis by (simp add: u16_from_str_def)
next
  case (Cons b bs)
  show ?thesis
  proof (cases "bs = [] \<and> (b = 43 \<or> b = 45)")
    case True
    then show ?thesis using Cons by (auto simp: u16_from_str_def parse_u16_decimal_uint parse_uint_def)
  next
    case False
    then have "u16_from_str s = omap of_nat (std_digits 0 (if b = 43 then bs else s))"
      using Cons by (auto simp: u16_from_str_def split: list.splits)
    moreover have "b = 43 \<longrightarrow> bs \<noteq> []" using False by auto
    ultimately show ?thesis
      using Cons by (simp add: case_omap_option std_digits_eq parse_u16_decimal_uint parse_uint_def)
  qed
qed

lemma u16_from_str_Ok: "u16_from_str s = Ok v \<longleftrightarrow> parse_u16_decimal s = Some v"
  using u16_from_str_eq [of s] by (cases "u16_from_str s") auto

lemma u16_from_str_Err: "u16_from_str s = Err e \<Longrightarrow> parse_u16_decimal s = None"
  using u16_from_str_eq [of s] by simp

subsection \<open>Servers\<close>

lemma parse_known_as_str [simp]: "parse_known (as_str s) = Some s"
  by (cases s) (simp_all add: parse_known_def lit_def)

lemma as_str_inject [simp]: "as_str s = as_str t \<longleftrightarrow> s = t"
  by (metis option.inject parse_known_as_str)

lemma as_str_no_at [simp]: "64 \<notin> set (as_str s)"
  by (cases s) (simp_all add: lit_def)

lemma as_str_nonempty [simp]: "as_str s \<noteq> []"
  by (cases s) (simp_all add: lit_def)

lemma parse_known_no_at: "parse_known s = Some v \<Longrightarrow> 64 \<notin> set s"
  by (auto simp: parse_known_def lit_def split: if_splits)

lemma parse_known_Lid: "parse_known s = Some Lid \<longleftrightarrow> s = lit ''lid''"
  by (auto simp: parse_known_def lit_def split: if_splits)

subsection \<open>Splitting\<close>

lemma str_rfind_Cons:
  "str_rfind c (x # xs) =
     (case str_rfind c xs of Some p \<Rightarrow> Some (Suc p) | None \<Rightarrow> if x = c then Some 0 else None)"
proof (cases "c \<in> set xs")
  case True
  then obtain ys zs where xs: "xs = ys @ c # zs" "c \<notin> set zs" by (meson split_list_last)
  have "str_rfind c (x # xs) = Some (Suc (length ys))"
    using str_rfind_append [OF xs(2), of "x # ys"] xs(1) by simp
  then show ?thesis using xs by simp
next
  case False
  then show ?thesis using str_rfind_append [OF False, of "[]"] by (cases "x = c") auto
qed

lemma str_rfind_take:
  "str_rfind c xs = Some p \<Longrightarrow> p < n \<Longrightarrow> str_rfind c (take n xs) = Some p"
proof (erule str_rfind_SomeE)
  fix ys zs assume "xs = ys @ c # zs" "c \<notin> set zs" "p = length ys" and n: "p < n"
  then have "take n xs = ys @ c # take (n - Suc (length ys)) zs" "c \<notin> set (take (n - Suc (length ys)) zs)"
    by (auto simp: take_Cons' dest: in_set_takeD)
  then show ?thesis using \<open>p = length ys\<close> by simp
qed

lemma str_rfind_bound: "str_rfind c xs = Some p \<Longrightarrow> p < length xs"
  by (erule str_rfind_SomeE) simp

definition first_some :: "'a option \<Rightarrow> 'a option \<Rightarrow> 'a option" where
  "first_some a b = (case a of Some x \<Rightarrow> Some x | None \<Rightarrow> b)"

lemma scan_separators_at:
  "64 \<notin> set xs \<Longrightarrow>
   scan_separators i (xs @ 64 # ys) c d =
     (Some (i + length xs), first_some (map_option ((+) i) (str_rfind 58 xs)) c,
      first_some (map_option ((+) i) (str_rfind 46 xs)) d)"
proof (induction xs arbitrary: i c d)
  case Nil
  then show ?case by (simp add: first_some_def)
next
  case (Cons b bs)
  then have IH: "scan_separators (Suc i) (bs @ 64 # ys) c' d' =
     (Some (Suc i + length bs), first_some (map_option ((+) (Suc i)) (str_rfind 58 bs)) c',
      first_some (map_option ((+) (Suc i)) (str_rfind 46 bs)) d')" for c' d'
    by simp
  have shift: "first_some (map_option ((+) (Suc i)) x) (if b = y then Some i else z) =
      first_some (map_option ((+) i) (case x of Some p \<Rightarrow> Some (Suc p) | None \<Rightarrow> if b = y then Some 0 else None)) z"
    for x y z by (cases x) (simp_all add: first_some_def)
  have "b \<noteq> 64" using Cons.prems by simp
  then have "scan_separators i ((b # bs) @ 64 # ys) c d =
      scan_separators (Suc i) (bs @ 64 # ys) (if b = 58 then Some i else c) (if b = 46 then Some i else d)"
    by simp
  then show ?case unfolding IH shift str_rfind_Cons by simp
qed

lemma scan_separators_none: "64 \<notin> set s \<Longrightarrow> fst (scan_separators i s c d) = None"
  by (induction s arbitrary: i c d) auto

text \<open>The declarative reading of the grammar, with \<open>rsplit_once\<close> where the scanner counts.\<close>

definition split_device :: "str \<Rightarrow> str \<times> u16" where
  "split_device u =
     (case rsplit_once 58 u of
        Some (b, d) \<Rightarrow> (b, unwrap_or 0 (parse_u16_decimal d))
      | None \<Rightarrow> (u, 0))"

definition split_agent :: "str \<Rightarrow> str \<times> u8" where
  "split_agent u =
     (case rsplit_once 46 u of
        Some (b, a) \<Rightarrow>
          (case parse_u16_decimal a of
             Some v \<Rightarrow> if v \<le> 255 then (b, ucast v) else (u, 0)
           | None \<Rightarrow> (u, 0))
      | None \<Rightarrow> (u, 0))"

definition parse_user :: "server_name option \<Rightarrow> str \<Rightarrow> str \<times> u8 \<times> u16" where
  "parse_user srv u =
     (let (b, d) = split_device u;
          (b', a) = (if srv = Some Lid then (b, 0) else split_agent b)
      in (b', a, d))"

definition split_server :: "str \<Rightarrow> str \<times> str" where
  "split_server s = (case split_once 64 s of Some us \<Rightarrow> us | None \<Rightarrow> ([], s))"

definition jid_grammar :: "str \<Rightarrow> jid option" where
  "jid_grammar s =
     (let (u, sv) = split_server s in
      map_option (\<lambda>srv.
        let (b, a, d) = parse_user (Some srv) u in
        \<lparr>jid_user = b, jid_server = srv, jid_agent = a, jid_device = d, jid_integrator = 0\<rparr>)
        (parse_known sv))"

lemma parse_user_Nil [simp]: "parse_user srv [] = ([], 0, 0)"
  by (simp add: parse_user_def split_device_def split_agent_def rsplit_once_def str_rfind_def)

lemma split_server_at: "64 \<notin> set u \<Longrightarrow> split_server (u @ 64 # sv) = (u, sv)"
  by (simp add: split_server_def split_once_append)

lemma split_server_none: "64 \<notin> set s \<Longrightarrow> split_server s = ([], s)"
  using split_once_None [of 64 s] by (simp add: split_server_def del: split_once_None)

text \<open>The scan with its remembered positions computes \<open>parse_user\<close>.\<close>

lemma agent_dot_eq:
  assumes "n \<le> length u"
  shows "(case str_rfind 46 u of
            Some pos \<Rightarrow> if pos < length (take n u) then Some pos else str_rfind 46 (take n u)
          | None \<Rightarrow> None) = str_rfind 46 (take n u)"
proof (cases "46 \<in> set u")
  case False
  then have "46 \<notin> set (take n u)" by (meson in_set_takeD)
  with False show ?thesis by simp
next
  case True
  then obtain p where "str_rfind 46 u = Some p" by (auto simp: str_rfind_def)
  then show ?thesis by (auto simp: str_rfind_take)
qed

lemma parse_jid_scan_at:
  assumes u: "64 \<notin> set u" "u \<noteq> []"
  shows "parse_jid_scan (u @ 64 # sv) =
    (let (b, a, d) = parse_user (parse_known sv) u in
     Some (\<lparr>p_user = b, p_server = sv, p_agent = a, p_device = d, p_integrator = 0\<rparr>, parse_known sv))"
proof -
  let ?s = "u @ 64 # sv"
  let ?ubc = "fst (split_device u)"
  have first: "first_some (map_option ((+) 0) x) None = x" for x :: "nat option"
    by (cases x) (simp_all add: first_some_def)
  have scan: "scan_separators 0 ?s None None = (Some (length u), str_rfind 58 u, str_rfind 46 u)"
    using scan_separators_at [OF u(1), of 0 sv None None] unfolding first by simp
  have dev: "(case str_rfind 58 u of
        Some pos \<Rightarrow> (take pos ?s, unwrap_or 0 (parse_u16_decimal (slice (pos + 1) (length u) ?s)))
      | None \<Rightarrow> (u, 0)) = split_device u"
  proof (cases "58 \<in> set u")
    case True
    then obtain p where p: "str_rfind 58 u = Some p" by (auto simp: str_rfind_def)
    with str_rfind_bound [OF p] show ?thesis by (simp add: split_device_def rsplit_once_def slice_def)
  qed (simp add: split_device_def)
  obtain n where n: "?ubc = take n u" "n \<le> length u"
  proof (cases "str_rfind 58 u")
    case None
    then show ?thesis by (intro that [of "length u"]) (simp_all add: split_device_def)
  next
    case (Some p)
    then show ?thesis
      by (intro that [of p]) (auto simp: split_device_def rsplit_once_def dest: str_rfind_bound)
  qed
  have dot: "(case str_rfind 46 u of
        Some pos \<Rightarrow> if pos < length ?ubc then Some pos else str_rfind 46 ?ubc | None \<Rightarrow> None) =
      str_rfind 46 ?ubc"
    unfolding n(1) by (rule agent_dot_eq [OF n(2)])
  have ag: "(case str_rfind 46 b of
        Some dot_pos \<Rightarrow>
          (case parse_u16_decimal (drop (dot_pos + 1) b) of
             Some v \<Rightarrow> if v \<le> 255 then (take dot_pos b, ucast v) else (b, 0)
           | None \<Rightarrow> (b, 0))
      | None \<Rightarrow> (b, 0)) = split_agent b" for b
    by (auto simp: split_agent_def rsplit_once_def split: option.splits)
  obtain b d where bd: "split_device u = (b, d)" by fastforce
  obtain b' a where ba: "split_agent b = (b', a)" by fastforce
  have take: "take (length u) ?s = u" "drop (length u + 1) ?s = sv" "length u \<noteq> 0" using u(2) by simp_all
  show ?thesis
    unfolding parse_jid_scan_def scan prod.case option.case take Let_def dev bd parse_user_def
    using take(3) dot [unfolded bd fst_conv] by (simp only: ag ba if_False prod.case if_distrib) simp
qed

lemma parse_jid_scan_none:
  "64 \<notin> set s \<Longrightarrow> parse_jid_scan s = None"
  "parse_jid_scan (64 # sv) = None"
proof -
  assume "64 \<notin> set s"
  then have "fst (scan_separators 0 s None None) = None" by (rule scan_separators_none)
  then show "parse_jid_scan s = None"
    by (cases "scan_separators 0 s None None") (simp add: parse_jid_scan_def)
qed (simp add: parse_jid_scan_def)

lemma parse_jid_ref_grammar: "parse_jid_ref s = Some j \<Longrightarrow> jid_grammar s = Some j"
proof -
  assume j: "parse_jid_ref s = Some j"
  then have "parse_jid_scan s \<noteq> None" by (auto simp: parse_jid_ref_def split: option.splits)
  then obtain u sv where s: "s = u @ 64 # sv" "64 \<notin> set u" "u \<noteq> []"
    using parse_jid_scan_none by (metis append_Nil split_list_first)
  from j show ?thesis
    unfolding s(1) parse_jid_ref_def parse_jid_scan_at [OF s(2,3)] jid_grammar_def split_server_at [OF s(2)]
    by (auto split: option.splits prod.splits simp: Let_def)
qed

lemma parse_jid_ref_None:
  assumes "parse_jid_ref s = None" "split_server s = (u, sv)"
  shows "u = [] \<or> parse_known sv = None"
proof (rule ccontr)
  assume c: "\<not> (u = [] \<or> parse_known sv = None)"
  with assms(2) have "64 \<in> set s" using split_server_none by (metis prod.inject)
  then obtain xs ys where s: "s = xs @ 64 # ys" "64 \<notin> set xs" by (meson split_list_first)
  with assms(2) have e: "xs = u" "ys = sv" by (simp_all add: split_server_at)
  obtain b a d where p: "parse_user (parse_known sv) u = (b, a, d)" by (metis prod_cases3)
  from c e s have "parse_jid_scan s = (let (b, a, d) = parse_user (parse_known sv) u in
     Some (\<lparr>p_user = b, p_server = sv, p_agent = a, p_device = d, p_integrator = 0\<rparr>, parse_known sv))"
    using parse_jid_scan_at [of u sv] by blast
  with p c assms(1) show False by (auto simp: parse_jid_ref_def)
qed

lemma parse_device_not_Panic [simp]: "parse_device s \<noteq> Panic"
  using u16_from_str_not_Panic [of s] by (auto simp: parse_device_def split: outcome.splits)

lemma server_try_from_unknown:
  "parse_known sv = None \<Longrightarrow> server_try_from sv = Err (InvalidFormat (lit ''unknown server: '' @ sv))"
  by (simp add: server_try_from_def)

lemma obind_Err_cases:
  "m \<noteq> Panic \<Longrightarrow> (\<And>x. m = Ok x \<Longrightarrow> \<exists>e. f x = Err e) \<Longrightarrow> \<exists>e. obind m f = Err e"
  by (cases m) auto

text \<open>The parser against the grammar: it succeeds exactly on the strings whose suffix names a
  known server, and then gives the declarative reading.\<close>

lemma jid_from_str_unknown:
  assumes "parse_jid_ref s = None" "split_server s = (u, sv)" "parse_known sv = None"
  shows "\<exists>e. jid_from_str s = Err e"
proof (cases "u = []")
  case True
  then show ?thesis using assms by (simp add: jid_from_str_def split_server_def)
next
  case False
  have "sv \<noteq> lit ''lid''" using assms(3) parse_known_Lid [of sv] by auto
  moreover have "(case rsplit_once 58 u of
      Some (b, d_str) \<Rightarrow> omap (Pair b) (parse_device d_str) | None \<Rightarrow> Ok (u, 0)) \<noteq> Panic"
    by (auto split: option.splits)
  moreover have "(case rsplit_once 46 b of
        Some (u', last_part) \<Rightarrow>
          (case u16_from_str last_part of
             Ok num \<Rightarrow> if 255 < num then
               Err (InvalidFormat (lit ''Agent component out of range: '' @ dec (unat num)))
               else Ok (u', ucast num :: u8)
           | _ \<Rightarrow> Ok (b, 0))
      | None \<Rightarrow> Ok (b, 0)) \<noteq> Panic" for b
    by (auto split: option.splits outcome.splits)
  ultimately show ?thesis
    using assms False unfolding jid_from_str_def
    by (simp only: option.case split_server_def [symmetric] prod.case Let_def if_False simp_thms
        server_try_from_unknown omap.simps)
      (intro obind_Err_cases; fastforce intro!: obind_Err_cases)
qed

lemma jid_from_str_known:
  assumes "parse_jid_ref s = None" "split_server s = ([], sv)" "parse_known sv = Some srv"
  shows "jid_from_str s = Ok (jid_new [] srv)"
  using assms unfolding jid_from_str_def
  by (auto simp: split_server_def [symmetric] server_try_from_def jid_new_def)

lemma jid_from_str_Ok: "jid_from_str s = Ok j \<longleftrightarrow> jid_grammar s = Some j"
  and jid_from_str_not_Panic: "jid_from_str s \<noteq> Panic"
proof -
  obtain u sv where sp: "split_server s = (u, sv)" by fastforce
  have "(jid_from_str s = Ok j \<longleftrightarrow> jid_grammar s = Some j) \<and> jid_from_str s \<noteq> Panic"
  proof (cases "parse_jid_ref s")
    case (Some k)
    then show ?thesis using parse_jid_ref_grammar [OF Some] by (auto simp: jid_from_str_def)
  next
    case None
    show ?thesis
    proof (cases "parse_known sv")
      case unknown: None
      from jid_from_str_unknown [OF None sp unknown] show ?thesis
        by (auto simp: jid_grammar_def sp unknown)
    next
      case (Some srv)
      with parse_jid_ref_None [OF None sp] have "u = []" by simp
      with jid_from_str_known [OF None _ Some] sp Some show ?thesis
        by (auto simp: jid_grammar_def jid_new_def)
    qed
  qed
  then show "jid_from_str s = Ok j \<longleftrightarrow> jid_grammar s = Some j" "jid_from_str s \<noteq> Panic" by auto
qed

section \<open>Properties of the renderers\<close>

text \<open>The text of a JID, which every renderer is shown to produce.\<close>

definition jid_text :: "str \<Rightarrow> server_name \<Rightarrow> u8 \<Rightarrow> u16 \<Rightarrow> str" where
  "jid_text user srv agent device =
     (if user = [] then as_str srv
      else user @ (if 0 < agent \<and> renders_agent srv then 46 # dec (unat agent) else []) @
        (if 0 < device then 58 # dec (unat device) else []) @ 64 # as_str srv)"

abbreviation display :: "jid \<Rightarrow> str" where
  "display j \<equiv> jid_text (jid_user j) (jid_server j) (jid_agent j) (jid_device j)"

lemma push_jid_text: "push_jid_to_string user srv agent device buf = buf @ jid_text user srv agent device"
  by (simp add: push_jid_to_string_def jid_text_def Let_def)

text \<open>
  The contract of a text sink (\<open>fmt::Write\<close>): \<open>holds w t\<close> says that the sink has taken
  the text \<open>t\<close>, \<open>fits t\<close> that it can take it. A fragment is taken as a whole when the
  text with it fits, and refused otherwise.
\<close>

locale text_sink =
  fixes ws :: "'w \<Rightarrow> str \<Rightarrow> 'w option"
    and holds :: "'w \<Rightarrow> str \<Rightarrow> bool"
    and fits :: "str \<Rightarrow> bool"
  assumes take_fragment: "holds w t \<Longrightarrow> fits (t @ s) \<Longrightarrow> \<exists>w'. ws w s = Some w' \<and> holds w' (t @ s)"
    and refuse_fragment: "holds w t \<Longrightarrow> \<not> fits (t @ s) \<Longrightarrow> ws w s = None"
    and fits_prefix: "fits (t @ s) \<Longrightarrow> fits t"
    and held_fits: "holds w t \<Longrightarrow> fits t"
begin

definition writes :: "('w \<Rightarrow> 'w option) \<Rightarrow> str \<Rightarrow> bool" where
  "writes act s \<longleftrightarrow>
     (\<forall>w t. holds w t \<longrightarrow>
        (if fits (t @ s) then \<exists>w'. act w = Some w' \<and> holds w' (t @ s) else act w = None))"

lemma writes_fragment: "writes (\<lambda>w. ws w s) s"
  unfolding writes_def using take_fragment refuse_fragment by auto

lemma writes_seq: "writes f s \<Longrightarrow> writes g t \<Longrightarrow> writes (\<lambda>w. Option.bind (f w) g) (s @ t)"
  unfolding writes_def
proof (intro allI impI)
  fix w u
  assume f: "\<forall>w u. holds w u \<longrightarrow> (if fits (u @ s) then \<exists>w'. f w = Some w' \<and> holds w' (u @ s) else f w = None)"
    and g: "\<forall>w u. holds w u \<longrightarrow> (if fits (u @ t) then \<exists>w'. g w = Some w' \<and> holds w' (u @ t) else g w = None)"
    and h: "holds w u"
  show "if fits (u @ s @ t) then \<exists>w'. Option.bind (f w) g = Some w' \<and> holds w' (u @ s @ t)
        else Option.bind (f w) g = None"
  proof (cases "fits (u @ s)")
    case True
    then obtain w' where w': "f w = Some w'" "holds w' (u @ s)" using f h by meson
    then show ?thesis using g [rule_format, OF w'(2)] by (simp split: if_splits)
  next
    case False
    then have "f w = None" using f h by meson
    moreover have "\<not> fits (u @ s @ t)" using False fits_prefix [of "u @ s" t] by auto
    ultimately show ?thesis by simp
  qed
qed

lemma writes_optional:
  "writes f s \<Longrightarrow> writes (\<lambda>w. if b then f w else Some w) (if b then s else [])"
  by (cases b) (auto simp: writes_def held_fits)

lemma write_jid_writes:
  "writes (\<lambda>w. write_jid_fallible ws w user srv agent device) (jid_text user srv agent device)"
proof (cases "user = []")
  case True
  then show ?thesis using writes_fragment by (simp add: write_jid_fallible_def jid_text_def)
next
  case False
  have num: "writes (\<lambda>w. Option.bind (ws w [c]) (\<lambda>w. ws w (dec n))) (c # dec n)" for c n
    using writes_seq [OF writes_fragment [of "[c]"] writes_fragment [of "dec n"]] by simp
  have "writes (\<lambda>w. Option.bind (ws w [64]) (\<lambda>w. ws w (as_str srv))) (64 # as_str srv)"
    using writes_seq [OF writes_fragment [of "[64]"] writes_fragment [of "as_str srv"]] by simp
  from writes_seq [OF writes_fragment [of user] writes_seq [OF writes_optional [OF num] writes_seq [OF writes_optional [OF num] this]],
      of "0 < agent \<and> renders_agent srv" 46 "unat agent" "0 < device" 58 "unat device"] False
  show ?thesis by (simp add: write_jid_fallible_def jid_text_def)
qed

lemma write_jid_takes:
  "holds w t \<Longrightarrow> fits (t @ jid_text user srv agent device) \<Longrightarrow>
   \<exists>w'. write_jid_fallible ws w user srv agent device = Some w' \<and>
     holds w' (t @ jid_text user srv agent device)"
  using write_jid_writes [of user srv agent device] by (simp add: writes_def)

lemma write_jid_refuses:
  "holds w t \<Longrightarrow> \<not> fits (t @ jid_text user srv agent device) \<Longrightarrow>
   write_jid_fallible ws w user srv agent device = None"
  using write_jid_writes [of user srv agent device] by (simp add: writes_def)

end

text \<open>The three sinks of the source meet the contract.\<close>

interpretation string_sink: text_sink string_write_str "(=)" "\<lambda>_. True"
  by unfold_locales (auto simp: string_write_str_def)

definition stack_holds :: "jid_stack_writer \<Rightarrow> str \<Rightarrow> bool" where
  "stack_holds w t \<longleftrightarrow> length (sw_buf w) = 64 \<and> sw_len w = length t \<and> length t \<le> 64 \<and> stack_as_str w = t"

lemma stack_new_holds: "stack_holds stack_new []"
  by (simp add: stack_holds_def stack_new_def stack_as_str_def)

interpretation stack_sink: text_sink stack_write_str stack_holds "\<lambda>t. length t \<le> 64"
  by unfold_locales (auto simp: stack_holds_def stack_write_str_def stack_as_str_def Let_def)

definition eq_holds :: "str \<Rightarrow> str_eq_writer \<Rightarrow> str \<Rightarrow> bool" where
  "eq_holds target w t \<longleftrightarrow>
     eq_target w = target \<and> (eq_matches w \<longleftrightarrow> take (length t) target = t) \<and>
     (eq_matches w \<longrightarrow> eq_position w = length t)"

lemma eq_write_holds:
  assumes "eq_holds target w t"
  shows "\<exists>w'. eq_write_str w s = Some w' \<and> eq_holds target w' (t @ s)"
proof (cases "eq_matches w")
  case True
  with assms have w: "eq_target w = target" "take (length t) target = t" "eq_position w = length t"
    by (simp_all add: eq_holds_def)
  have "take (length (t @ s)) target = t @ s \<longleftrightarrow>
      \<not> (length target < length t + length s \<or> slice (length t) (length t + length s) target \<noteq> s)"
    using w(2) by (auto simp: take_add slice_def)
  with True w show ?thesis by (auto simp: eq_write_str_def eq_holds_def Let_def)
next
  case False
  with assms have "eq_target w = target" "take (length t) target \<noteq> t" by (simp_all add: eq_holds_def)
  moreover from this(2) have "take (length (t @ s)) target \<noteq> t @ s"
    by (auto simp: take_add append_eq_append_conv_if)
  ultimately show ?thesis using False by (simp add: eq_write_str_def eq_holds_def)
qed

interpretation eq_sink: text_sink eq_write_str "eq_holds target" "\<lambda>_. True" for target
  by unfold_locales (auto intro: eq_write_holds)


lemma stack_render:
  "write_jid_fallible stack_write_str stack_new u srv a d =
     (if length (jid_text u srv a d) \<le> 64
      then write_jid_fallible stack_write_str stack_new u srv a d else None)"
  "length (jid_text u srv a d) \<le> 64 \<Longrightarrow>
   \<exists>w. write_jid_fallible stack_write_str stack_new u srv a d = Some w \<and> stack_as_str w = jid_text u srv a d"
  using stack_sink.write_jid_refuses [OF stack_new_holds, of u srv a d]
    stack_sink.write_jid_takes [OF stack_new_holds, of u srv a d]
  by (auto simp: stack_holds_def)

lemma stack_or_heap:
  "(case write_jid_fallible stack_write_str stack_new u srv a d of
      Some w \<Rightarrow> f (stack_as_str w) | None \<Rightarrow> f (jid_text u srv a d)) = f (jid_text u srv a d)"
  using stack_render [of u srv a d] by (cases "length (jid_text u srv a d) \<le> 64") auto

lemma string_render: "write_jid_fallible string_write_str buf u srv a d = Some (buf @ jid_text u srv a d)"
  using string_sink.write_jid_takes [of buf buf u srv a d] by auto

lemma jid_to_string_text [simp]: "jid_to_string j = Some (display j)"
  using stack_or_heap [where f = "\<lambda>t. Some ([] @ t)" and u = "jid_user j" and srv = "jid_server j" and a = "jid_agent j" and d = "jid_device j"]
  unfolding jid_to_string_def jid_fmt_def write_display_to_def string_render string_write_str_def by simp

lemma jid_ref_to_compact_text: "jid_ref_to_compact j = display j"
  using stack_or_heap [where f = id and u = "jid_user j" and srv = "jid_server j" and a = "jid_agent j" and d = "jid_device j"]
  by (simp add: jid_ref_to_compact_def push_jid_text cong: option.case_cong)

lemma to_non_ad_text: "to_non_ad_string j = display (to_non_ad j)" "to_non_ad_arc_str j = display (to_non_ad j)"
proof -
  show s: "to_non_ad_string j = display (to_non_ad j)"
    by (simp add: to_non_ad_string_def push_jid_text to_non_ad_def)
  show "to_non_ad_arc_str j = display (to_non_ad j)"
    using stack_or_heap [where f = id and u = "jid_user j" and srv = "jid_server j" and a = 0 and d = 0]
    by (simp add: to_non_ad_arc_str_def s [unfolded to_non_ad_def] to_non_ad_def cong: option.case_cong)
qed

lemma jid_display_eq_iff: "jid_display_eq u srv a d other \<longleftrightarrow> other = jid_text u srv a d"
proof -
  let ?t = "jid_text u srv a d"
  let ?w0 = "\<lparr>eq_target = other, eq_position = 0, eq_matches = True\<rparr>"
  have "eq_holds other ?w0 []" by (simp add: eq_holds_def)
  from eq_sink.write_jid_takes [OF this, of u srv a d] obtain w where
    w: "write_jid_fallible eq_write_str ?w0 u srv a d = Some w" "eq_holds other w ?t" by auto
  then have "jid_display_eq u srv a d other \<longleftrightarrow> eq_matches w \<and> eq_position w = length other"
    by (simp add: jid_display_eq_def)
  also have "\<dots> \<longleftrightarrow> other = ?t" using w(2) by (auto simp: eq_holds_def)
  finally show ?thesis .
qed

section \<open>Parsing what was rendered\<close>

definition has_agent_suffix :: "str \<Rightarrow> bool" where
  "has_agent_suffix u \<longleftrightarrow> fst (split_agent u) \<noteq> u"

text \<open>The JIDs whose text identifies them.\<close>

definition renderable :: "jid \<Rightarrow> bool" where
  "renderable j \<longleftrightarrow>
     (if jid_user j = [] then identity_agent (jid_server j) (jid_agent j) = 0 \<and> jid_device j = 0
      else 64 \<notin> set (jid_user j) \<and> (jid_device j = 0 \<longrightarrow> 58 \<notin> set (jid_user j)) \<and>
        (jid_server j \<noteq> Lid \<and> identity_agent (jid_server j) (jid_agent j) = 0 \<longrightarrow>
         \<not> has_agent_suffix (jid_user j)))"

lemma dec_no_sep: "c \<in> set (dec n) \<Longrightarrow> is_digit c"
  using dec_digits [of n] by (simp add: list_all_iff)

lemma dec_seps [simp]: "64 \<notin> set (dec n)" "58 \<notin> set (dec n)" "46 \<notin> set (dec n)"
  using dec_no_sep by (fastforce simp: is_digit_def)+

lemma split_device_render:
  "split_device (u @ (if 0 < d then 58 # dec (unat (d :: u16)) else [])) =
     (if 0 < d then (u, d) else split_device u)"
  by (cases "0 < d") (simp_all add: split_device_def rsplit_once_append unwrap_or_def)

lemma split_device_shorter: "58 \<in> set u \<Longrightarrow> length (fst (split_device u)) < length u"
  by (auto simp: split_device_def rsplit_once_def split: option.splits dest: str_rfind_bound)

lemma split_device_id: "58 \<notin> set u \<Longrightarrow> split_device u = (u, 0)"
  by (simp add: split_device_def)

lemma split_agent_render: "split_agent (u @ 46 # dec (unat (a :: u8))) = (u, a)"
proof -
  have "unat (ucast a :: u16) = unat a"
    by (simp add: unsigned_ucast_eq take_bit_nat_eq_self_iff less_trans [OF unat_u8_bound])
  then have "(ucast a :: u16) \<le> 255"
    using unat_u8_bound [of a] by (simp add: word_le_nat_alt less_Suc_eq_le [symmetric] del: unat_u8_bound)
  moreover have "(ucast (ucast a :: u16) :: u8) = a"
    by (rule bit_word_eqI) (simp add: bit_simps)
  ultimately show ?thesis by (simp add: split_agent_def rsplit_once_append)
qed

lemma split_agent_length: "length (fst (split_agent u)) \<le> length u"
  by (auto simp: split_agent_def rsplit_once_def split: option.splits)

lemma split_agent_id: "\<not> has_agent_suffix u \<Longrightarrow> split_agent u = (u, 0)"
  by (auto simp: has_agent_suffix_def split_agent_def rsplit_once_def split: option.splits if_splits
      dest: str_rfind_bound)


lemma split_agent_no_dot: "46 \<notin> set u \<Longrightarrow> split_agent u = (u, 0)"
  by (simp add: split_agent_def)

abbreviation agent_part :: "server_name \<Rightarrow> u8 \<Rightarrow> str" where
  "agent_part srv a \<equiv> (if 0 < a \<and> renders_agent srv then 46 # dec (unat a) else [])"

abbreviation device_part :: "u16 \<Rightarrow> str" where
  "device_part d \<equiv> (if 0 < d then 58 # dec (unat d) else [])"

lemma u16_pos: "0 < (d :: u16) \<longleftrightarrow> d \<noteq> 0"
  by (simp add: word_neq_0_conv)

lemma identity_agent_0: "identity_agent srv a = 0 \<longleftrightarrow> \<not> (0 < a \<and> renders_agent srv)"
  by (auto simp: identity_agent_def word_neq_0_conv [symmetric])

lemma split_device_user_shorter:
  assumes "58 \<in> set u" "58 \<notin> set t"
  shows "length (fst (split_device (u @ t))) < length u"
proof -
  obtain xs ys where u: "u = xs @ 58 # ys" "58 \<notin> set ys" using assms(1) by (meson split_list_last)
  then have "rsplit_once 58 (u @ t) = Some (xs, ys @ t)"
    using assms(2) rsplit_once_append [of 58 "ys @ t" xs] by simp
  then show ?thesis using u by (simp add: split_device_def)
qed

text \<open>When the user part of a rendered JID parses back: with the device taken off, the agent
  position must hold the agent or nothing that reads as one.\<close>

lemma agent_roundtrip:
  fixes srv a u
  defines "p \<equiv> (if Some srv = Some Lid then (u @ agent_part srv a, 0) else split_agent (u @ agent_part srv a))"
  shows "fst p = u \<and> identity_agent srv (snd p) = identity_agent srv a \<longleftrightarrow>
    (srv \<noteq> Lid \<and> identity_agent srv a = 0 \<longrightarrow> \<not> has_agent_suffix u)"
proof (cases "0 < a \<and> renders_agent srv")
  case True
  then show ?thesis by (auto simp: p_def split_agent_render identity_agent_0 renders_agent_def)
next
  case False
  then have z: "identity_agent srv a = 0" by (simp add: identity_agent_0)
  show ?thesis
    using False z split_agent_id [of u] by (auto simp: p_def has_agent_suffix_def identity_agent_def)
qed

lemma parse_user_render:
  "(case parse_user (Some srv) (u @ agent_part srv a @ device_part d) of
      (b, a', d') \<Rightarrow> b = u \<and> d' = d \<and> identity_agent srv a' = identity_agent srv a) \<longleftrightarrow>
   (d = 0 \<longrightarrow> 58 \<notin> set u) \<and> (srv \<noteq> Lid \<and> identity_agent srv a = 0 \<longrightarrow> \<not> has_agent_suffix u)"
proof (cases "d = 0 \<and> 58 \<in> set u")
  case True
  let ?V = "u @ agent_part srv a"
  let ?b = "fst (split_device ?V)"
  let ?p = "if Some srv = Some Lid then (?b, 0) else split_agent ?b"
  have "length ?b < length u"
    using True by (intro split_device_user_shorter) simp_all
  then have "length (fst ?p) < length u"
    using split_agent_length [of ?b] by (cases "srv = Lid") simp_all
  then have "fst ?p \<noteq> u" by (metis less_irrefl)
  moreover have "fst (parse_user (Some srv) (u @ agent_part srv a @ device_part d)) = fst ?p"
    using True by (simp only: parse_user_def Let_def case_prod_beta fst_conv snd_conv) simp
  ultimately show ?thesis using True by (simp only: case_prod_beta) simp
next
  case False
  have "split_device (u @ agent_part srv a @ device_part d) = (u @ agent_part srv a, d)"
  proof (cases "d = 0")
    case True
    with False have "58 \<notin> set (u @ agent_part srv a)" by simp
    from split_device_id [OF this] True show ?thesis by simp
  next
    case d: False
    then show ?thesis using split_device_render [of "u @ agent_part srv a" d] by (simp add: u16_pos)
  qed
  then have "parse_user (Some srv) (u @ agent_part srv a @ device_part d) =
      (let p = (if Some srv = Some Lid then (u @ agent_part srv a, 0) else split_agent (u @ agent_part srv a))
       in (fst p, snd p, d))"
    by (simp only: parse_user_def Let_def case_prod_beta fst_conv snd_conv)
  then show ?thesis using False agent_roundtrip [where srv = srv and u = u and a = a]
    by (simp only: Let_def prod.case) blast
qed

lemma jid_grammar_display:
  assumes "jid_user j \<noteq> []" "64 \<notin> set (jid_user j)"
  shows "jid_grammar (display j) = Some (case parse_user (Some (jid_server j))
      (jid_user j @ agent_part (jid_server j) (jid_agent j) @ device_part (jid_device j)) of
      (b, a, d) \<Rightarrow> \<lparr>jid_user = b, jid_server = jid_server j, jid_agent = a, jid_device = d, jid_integrator = 0\<rparr>)"
proof -
  let ?u = "jid_user j @ agent_part (jid_server j) (jid_agent j) @ device_part (jid_device j)"
  have "display j = ?u @ 64 # as_str (jid_server j)" using assms(1) by (simp add: jid_text_def)
  moreover have "split_server (?u @ 64 # as_str (jid_server j)) = (?u, as_str (jid_server j))"
    using assms(2) by (intro split_server_at) simp
  ultimately show ?thesis
    by (simp only: jid_grammar_def prod.case Let_def parse_known_as_str option.map)
qed

lemma jid_grammar_display_at:
  assumes "64 \<in> set (jid_user j)"
  shows "jid_grammar (display j) = None"
proof -
  obtain xs ys where u: "jid_user j = xs @ 64 # ys" "64 \<notin> set xs" using assms by (meson split_list_first)
  then obtain zs where "display j = xs @ 64 # zs" "64 \<in> set zs"
    by (simp add: jid_text_def)
  then show ?thesis using u(2) parse_known_no_at [of zs]
    by (cases "parse_known zs") (simp_all add: jid_grammar_def split_server_at)
qed

lemma jid_grammar_display_empty:
  "jid_user j = [] \<Longrightarrow> jid_grammar (display j) = Some (jid_new [] (jid_server j))"
  by (simp add: jid_grammar_def jid_text_def split_server_none jid_new_def)

lemma jid_roundtrip:
  "(\<exists>k. jid_from_str (display j) = Ok k \<and> jid_eq k j) \<longleftrightarrow> renderable j \<and> jid_integrator j = 0"
proof (cases "jid_user j = []")
  case True
  then show ?thesis
    unfolding jid_from_str_Ok jid_grammar_display_empty [OF True]
    by (auto simp: jid_eq_def jid_new_def renderable_def identity_agent_def)
next
  case False
  show ?thesis
  proof (cases "64 \<in> set (jid_user j)")
    case True
    then show ?thesis by (simp add: jid_from_str_Ok jid_grammar_display_at renderable_def False)
  next
    case no_at: False
    obtain b a d where p: "parse_user (Some (jid_server j))
        (jid_user j @ agent_part (jid_server j) (jid_agent j) @ device_part (jid_device j)) = (b, a, d)"
      by (metis prod_cases3)
    let ?k = "\<lparr>jid_user = b, jid_server = jid_server j, jid_agent = a, jid_device = d, jid_integrator = 0\<rparr>"
    have "jid_from_str (display j) = Ok ?k"
      unfolding jid_from_str_Ok jid_grammar_display [OF False no_at] p by simp
    then have "(\<exists>k. jid_from_str (display j) = Ok k \<and> jid_eq k j) \<longleftrightarrow> jid_eq ?k j" by simp
    also have "\<dots> \<longleftrightarrow> (b = jid_user j \<and> d = jid_device j \<and>
        identity_agent (jid_server j) a = identity_agent (jid_server j) (jid_agent j)) \<and> jid_integrator j = 0"
      by (auto simp: jid_eq_def)
    also have "\<dots> \<longleftrightarrow> renderable j \<and> jid_integrator j = 0"
      using parse_user_render [where srv = "jid_server j" and u = "jid_user j" and a = "jid_agent j" and d = "jid_device j"] False no_at
      unfolding p prod.case renderable_def by simp
    finally show ?thesis .
  qed
qed

section \<open>Equality, hash and comparison\<close>

lemma jid_eq_feed: "jid_eq j k \<longleftrightarrow> jid_hash_feed j = jid_hash_feed k"
  by (auto simp: jid_eq_def jid_hash_feed_def)

lemma jid_eq_same_chat: "jid_eq j k \<Longrightarrow> is_same_chat_as j k"
  by (auto simp: jid_eq_def is_same_chat_as_def identity_agent_def)

lemma jid_eq_display: "jid_eq j k \<Longrightarrow> display j = display k"
  by (auto simp: jid_eq_def jid_text_def identity_agent_def)

lemma display_eq_jid_display: "display_eq_jid j k \<Longrightarrow> display j = display k"
  unfolding display_eq_jid_def jid_displays_equal_def jid_text_def
  by (cases "jid_user j = [] \<or> jid_user k = []") auto

lemma display_inj:
  assumes "renderable j" "renderable k" "display j = display k"
  shows "display_eq_jid j k"
proof -
  let ?j = "j\<lparr>jid_integrator := 0\<rparr>" and ?k = "k\<lparr>jid_integrator := 0\<rparr>"
  have "renderable ?j" "renderable ?k" using assms(1,2) by (simp_all add: renderable_def)
  then have "\<exists>a. jid_from_str (display ?j) = Ok a \<and> jid_eq a ?j"
    "\<exists>b. jid_from_str (display ?k) = Ok b \<and> jid_eq b ?k"
    unfolding jid_roundtrip by simp_all
  then obtain a b where "jid_from_str (display j) = Ok a" "jid_eq a ?j"
    "jid_from_str (display k) = Ok b" "jid_eq b ?k" by force
  with assms(3) have "jid_eq ?j ?k" by (simp add: jid_eq_feed)
  then show ?thesis
    by (auto simp: jid_eq_def display_eq_jid_def jid_displays_equal_def identity_agent_def)
qed

section \<open>Redaction\<close>

text \<open>The phone number in a user, with what follows it.\<close>

definition phone_of :: "jid \<Rightarrow> (str \<times> str) option" where
  "phone_of j =
     (if carries_phone_number (jid_server j) then Some (jid_user j, [])
      else if jid_server j = Group \<or> jid_server j = Broadcast then
        (case split_once 45 (jid_user j) of
           Some (p, t) \<Rightarrow> if p \<noteq> [] \<and> list_all is_digit p then Some (p, 45 # t) else None
         | None \<Rightarrow> None)
      else None)"

lemma observed_user_phone:
  "observed_user tok j = map_option (\<lambda>(p, t). lit ''pn#'' @ hex16 (tok p) @ t) (phone_of j)"
proof (cases "45 \<in> set (jid_user j)")
  case True
  then obtain p t where u: "jid_user j = p @ 45 # t" "45 \<notin> set p" by (meson split_list_first)
  then show ?thesis by (auto simp: observed_user_def phone_of_def split_once_append)
next
  case False
  then show ?thesis by (simp add: observed_user_def phone_of_def)
qed

lemma observe_phone:
  assumes "jid_user j \<noteq> []" "phone_of j = Some (p, t)"
  shows "observe False tok j =
    Some (lit ''pn#'' @ hex16 (tok p) @ t @ agent_part (jid_server j) (jid_agent j) @
      device_part (jid_device j) @ 64 # as_str (jid_server j))"
  using assms by (simp add: observe_def observed_user_phone)

section \<open>Main results\<close>

text \<open>C30. The hand-written decimal parser accepts the strings \<open>u16::from_str\<close> accepts and
  gives the same numbers, overflow and the optional plus sign included.\<close>

theorem parse_u16_decimal_matches_std:
  "parse_u16_decimal s = (case u16_from_str s of Ok v \<Rightarrow> Some v | _ \<Rightarrow> None)"
  using u16_from_str_eq [of s] by (simp split: outcome.splits)

text \<open>C17. \<open>Jid::from_str\<close>, whose fast path is a one-pass scan with remembered separator
  positions, parses exactly the declarative grammar: it splits at the first \<open>@\<close>, the device
  at the last colon of the user and, except on the LID server, the agent at the last dot before
  it. It never panics, and it fails exactly when the server suffix is unknown.\<close>

theorem jid_from_str_grammar:
  "(\<forall>j. jid_from_str s = Ok j \<longleftrightarrow> jid_grammar s = Some j) \<and> jid_from_str s \<noteq> Panic \<and>
   ((\<exists>e. jid_from_str s = Err e) \<longleftrightarrow> parse_known (snd (split_server s)) = None)"
proof -
  have g: "jid_grammar s = None \<longleftrightarrow> parse_known (snd (split_server s)) = None"
    by (simp add: jid_grammar_def case_prod_beta)
  have "(\<exists>e. jid_from_str s = Err e) \<longleftrightarrow> jid_grammar s = None"
  proof (cases "jid_from_str s")
    case (Ok j)
    then show ?thesis using jid_from_str_Ok [of s j] by simp
  next
    case (Err e)
    then have "jid_grammar s \<noteq> Some j" for j using jid_from_str_Ok [of s j] by simp
    then have "jid_grammar s = None" by blast
    with Err show ?thesis by simp
  qed (simp add: jid_from_str_not_Panic)
  then show ?thesis unfolding g by (intro conjI allI jid_from_str_Ok jid_from_str_not_Panic)
qed

text \<open>C18. Display and parse are inverse, up to the equality of JIDs, on exactly these JIDs: no
  integrator; no \<open>@\<close> in the user; no colon in the user unless a device is rendered behind it;
  and, where the parser looks for an agent and none is rendered, no trailing \<open>.n\<close> with
  \<open>n \<le> 255\<close> in the user (for an empty user, no agent and no device).\<close>

theorem jid_display_parse_inverse:
  "(\<exists>t k. jid_to_string j = Some t \<and> jid_from_str t = Ok k \<and> jid_eq k j) \<longleftrightarrow>
   renderable j \<and> jid_integrator j = 0"
  using jid_roundtrip [of j] by simp

text \<open>C26. All ways to render a JID give the same text, whether it fits the 64-byte stack buffer
  or goes through the heap: \<open>Display\<close>, \<open>push_to\<close>, \<open>jid_ref_to_compact\<close>, and the
  non-AD forms of the JID without agent and device. The allocation-free \<open>display_eq\<close> holds for
  that text and no other string.\<close>

theorem jid_renderers_agree:
  "jid_to_string j = Some (jid_ref_to_compact j) \<and>
   push_jid_to_string (jid_user j) (jid_server j) (jid_agent j) (jid_device j) buf =
     buf @ jid_ref_to_compact j \<and>
   jid_to_string (to_non_ad j) = Some (to_non_ad_string j) \<and>
   to_non_ad_arc_str j = to_non_ad_string j \<and>
   (display_eq j s \<longleftrightarrow> jid_to_string j = Some s)"
  unfolding jid_ref_to_compact_text push_jid_text to_non_ad_text display_eq_def jid_display_eq_iff
    jid_to_string_text by (intro conjI refl) auto

text \<open>C27. \<open>display_eq_jid\<close> compares two JIDs as their texts compare, provided each is
  identified by its text.\<close>

theorem display_eq_jid_exact:
  assumes "renderable j" "renderable k"
  shows "display_eq_jid j k \<longleftrightarrow> jid_to_string j = jid_to_string k"
  using display_eq_jid_display [of j k] display_inj [OF assms] by auto

theorem display_eq_jid_exact_witness:
  "let j = pn_device (lit ''15550001'') 3; k = (pn_device (lit ''15550001'') 3)\<lparr>jid_agent := 7\<rparr> in
   renderable j \<and> renderable k \<and> display_eq_jid j k \<and> jid_to_string j = jid_to_string k"
proof -
  let ?j = "pn_device (lit ''15550001'') 3"
  let ?k = "?j\<lparr>jid_agent := 7\<rparr>"
  have r: "renderable ?j" "renderable ?k"
    by (simp_all add: renderable_def pn_device_def jid_new_def has_agent_suffix_def split_agent_no_dot lit_def)
  have "display_eq_jid ?j ?k"
    by (simp add: display_eq_jid_def jid_displays_equal_def pn_device_def jid_new_def renders_agent_def)
  with r display_eq_jid_exact [OF r] show ?thesis by (simp add: Let_def)
qed

text \<open>C28. Equality of JIDs is what their hash sees, so equal JIDs hash alike (and it is an
  equivalence); equal JIDs have the same text, the same device key and the same chat, although
  an agent the server does not render is ignored.\<close>

theorem jid_eq_consistent:
  "(jid_eq j k \<longleftrightarrow> jid_hash_feed j = jid_hash_feed k) \<and>
   (jid_eq j k \<longrightarrow> jid_to_string j = jid_to_string k \<and> device_key j = device_key k \<and> is_same_chat_as j k)"
  using jid_eq_display [of j k] jid_eq_same_chat [of j k] jid_eq_feed [of j k]
  unfolding jid_to_string_text by (auto simp: jid_eq_def device_key_def)

theorem jid_eq_consistent_witness:
  "let j = pn_device (lit ''1555'') 3; k = j\<lparr>jid_agent := 9\<rparr> in
   jid_eq j k \<and> j \<noteq> k \<and> jid_to_string j = jid_to_string k"
proof -
  let ?j = "pn_device (lit ''1555'') 3"
  have "jid_eq ?j (?j\<lparr>jid_agent := 9\<rparr>)"
    by (simp add: jid_eq_def pn_device_def jid_new_def identity_agent_def renders_agent_def)
  moreover have "?j \<noteq> ?j\<lparr>jid_agent := 9\<rparr>" by (simp add: pn_device_def jid_new_def)
  ultimately show ?thesis using jid_eq_consistent [of ?j "?j\<lparr>jid_agent := 9\<rparr>"] by (simp add: Let_def)
qed

text \<open>C29. The redacted display depends on the phone number of a JID only through the keyed
  token: two JIDs that differ in nothing but their number render alike when the tokens agree.
  This covers users that are a number and legacy group ids that start with one.\<close>

theorem observe_hides_number:
  assumes "jid_user j \<noteq> []" "jid_user k \<noteq> []"
    and "phone_of j = Some (p, t)" "phone_of k = Some (q, t)" "tok p = tok q"
    and "jid_server k = jid_server j" "jid_agent k = jid_agent j" "jid_device k = jid_device j"
  shows "observe False tok j = observe False tok k"
  using assms by (simp add: observe_phone)

theorem observe_hides_number_witness:
  "let j = pn_device (lit ''15550001'') 3; k = pn_device (lit ''15559999'') 3 in
   phone_of j = Some (lit ''15550001'', []) \<and> observe False (\<lambda>_. 7) j = observe False (\<lambda>_. 7) k"
proof -
  let ?j = "pn_device (lit ''15550001'') 3" and ?k = "pn_device (lit ''15559999'') 3"
  have j: "jid_user ?j \<noteq> []" "phone_of ?j = Some (lit ''15550001'', [])"
    by (simp_all add: pn_device_def jid_new_def phone_of_def carries_phone_number_def lit_def)
  have k: "jid_user ?k \<noteq> []" "phone_of ?k = Some (lit ''15559999'', [])"
    by (simp_all add: pn_device_def jid_new_def phone_of_def carries_phone_number_def lit_def)
  have "observe False (\<lambda>_. 7) ?j = observe False (\<lambda>_. 7) ?k"
    by (rule observe_hides_number [OF j(1) k(1) j(2) k(2)]) (simp_all add: pn_device_def jid_new_def)
  with j show ?thesis by (simp add: Let_def)
qed

end
