(* ===== verification/Node.thy ===== *)
theory Node
  imports Token Jid
begin

text \<open>
  Protocol nodes: \<open>node.rs\<close>, \<open>builder.rs\<close>, \<open>attrs.rs\<close> and \<open>error.rs\<close>.

  A node is a tag, a list of attributes and an optional content. The owned types (\<open>Node\<close>,
  \<open>NodeValue\<close>, \<open>NodeContent\<close>, \<open>Attrs\<close>) and the borrowed ones (\<open>NodeRef\<close>,
  \<open>ValueRef\<close>, \<open>NodeContentRef\<close>, \<open>AttrsRef\<close>) hold the same data and differ in who owns
  the buffers, so each pair is one type here. \<open>to_owned\<close> is not the identity by
  construction, though: it replaces tags and keys by their interned dictionary entry.

  The locale \<open>attr_store\<close> is the contract between the attribute list and the builder.
\<close>

section \<open>Errors\<close>

datatype binary_error =
    Io str
  | InvalidToken u8
  | InvalidNode
  | NonStringKey
  | AttrParse str
  | MissingAttr str
  | InvalidUtf8 nat
  | Zlib str
  | JidErr jid_error
  | UnexpectedEof
  | EmptyData
  | LeftoverData nat
  | AttrList "binary_error list"
  | MaxDepthExceeded
  | PlanMismatch
  | UnexpectedFormatByte u8

text \<open>The messages of the standard library's \<open>ParseIntError\<close>, and \<open>Display\<close> of a
  \<open>JidError\<close>.\<close>

fun int_error_text :: "int_error \<Rightarrow> str" where
  "int_error_text Empty = lit ''cannot parse integer from empty string''"
| "int_error_text InvalidDigit = lit ''invalid digit found in string''"
| "int_error_text PosOverflow = lit ''number too large to fit in target type''"
| "int_error_text NegOverflow = lit ''number too small to fit in target type''"

fun jid_error_text :: "jid_error \<Rightarrow> str" where
  "jid_error_text (InvalidFormat s) = lit ''Invalid JID format: '' @ s"
| "jid_error_text (Parse e) = lit ''Failed to parse component: '' @ int_error_text e"

text \<open>\<open>Clone\<close> rebuilds a JID error from its text.\<close>

fun error_clone :: "binary_error \<Rightarrow> binary_error" where
  "error_clone (JidErr e) = JidErr (InvalidFormat (jid_error_text e))"
| "error_clone (AttrList es) = AttrList (map error_clone es)"
| "error_clone e = e"

section \<open>Values, attributes and nodes\<close>

datatype node_value = VString str | VJid jid

type_synonym attrs = "(str \<times> node_value) list"

datatype node = Node (node_tag: str) (node_attrs: attrs) (node_content: "content option")
  and content = Bytes "u8 list" | CString str | Nodes "node list"

text \<open>The text of a value; a JID renders (which never fails, \<open>jid_to_string_text\<close>).\<close>

definition value_as_str :: "node_value \<Rightarrow> str" where
  "value_as_str v = (case v of VString s \<Rightarrow> s | VJid j \<Rightarrow> unwrap_or [] (jid_to_string j))"

definition value_to_jid :: "node_value \<Rightarrow> jid option" where
  "value_to_jid v =
     (case v of VJid j \<Rightarrow> Some j
      | VString s \<Rightarrow> (case jid_from_str s of Ok j \<Rightarrow> Some j | _ \<Rightarrow> None))"

definition value_eq_str :: "node_value \<Rightarrow> str \<Rightarrow> bool" where
  "value_eq_str v other = (case v of VString s \<Rightarrow> s = other | VJid j \<Rightarrow> display_eq j other)"

definition value_from_uint :: "nat \<Rightarrow> node_value" where
  "value_from_uint n = VString (dec n)"

definition value_from_bool :: "bool \<Rightarrow> node_value" where
  "value_from_bool b = VString (if b then lit ''true'' else lit ''false'')"

subsection \<open>The attribute list\<close>

definition attrs_get :: "attrs \<Rightarrow> str \<Rightarrow> node_value option" where
  "attrs_get as key = map_option snd (find (\<lambda>(k, _). k = key) as)"

definition contains_key :: "attrs \<Rightarrow> str \<Rightarrow> bool" where
  "contains_key as key = list_ex (\<lambda>(k, _). k = key) as"

fun attrs_position :: "(str \<times> node_value \<Rightarrow> bool) \<Rightarrow> attrs \<Rightarrow> nat option" where
  "attrs_position p [] = None"
| "attrs_position p (a # as) = (if p a then Some 0 else map_option Suc (attrs_position p as))"

definition attrs_insert :: "attrs \<Rightarrow> str \<Rightarrow> node_value \<Rightarrow> attrs" where
  "attrs_insert as key v =
     (case attrs_position (\<lambda>(k, _). k = key) as of
        Some pos \<Rightarrow> as[pos := (fst (as ! pos), v)]
      | None \<Rightarrow> as @ [(key, v)])"

definition attrs_push :: "attrs \<Rightarrow> str \<Rightarrow> node_value \<Rightarrow> attrs" where
  "attrs_push as key v = as @ [(key, v)]"

definition attrs_keys :: "attrs \<Rightarrow> str list" where
  "attrs_keys as = map fst as"

subsection \<open>Navigation\<close>

definition children :: "node \<Rightarrow> node list option" where
  "children n = (case node_content n of Some (Nodes ns) \<Rightarrow> Some ns | _ \<Rightarrow> None)"

fun get_optional_child_by_tag :: "node \<Rightarrow> str list \<Rightarrow> node option" where
  "get_optional_child_by_tag n [] = Some n"
| "get_optional_child_by_tag n (t # ts) =
     Option.bind (children n) (\<lambda>cs.
     Option.bind (find (\<lambda>c. node_tag c = t) cs) (\<lambda>c. get_optional_child_by_tag c ts))"

definition get_children_by_tag :: "node \<Rightarrow> str \<Rightarrow> node list" where
  "get_children_by_tag n t =
     filter (\<lambda>c. node_tag c = t) (case children n of Some cs \<Rightarrow> cs | None \<Rightarrow> [])"

definition get_optional_child :: "node \<Rightarrow> str \<Rightarrow> node option" where
  "get_optional_child n t = Option.bind (children n) (find (\<lambda>c. node_tag c = t))"

definition get_attr :: "node \<Rightarrow> str \<Rightarrow> node_value option" where
  "get_attr n key = map_option snd (find (\<lambda>(k, _). k = key) (node_attrs n))"

definition content_bytes :: "node \<Rightarrow> u8 list option" where
  "content_bytes n = (case node_content n of Some (Bytes b) \<Rightarrow> Some b | _ \<Rightarrow> None)"

definition content_str :: "node \<Rightarrow> str option" where
  "content_str n = (case node_content n of Some (CString s) \<Rightarrow> Some s | _ \<Rightarrow> None)"

subsection \<open>Interning\<close>

definition intern_cow :: "token_tables \<Rightarrow> str \<Rightarrow> str" where
  "intern_cow T s =
     (case index_of_token T s of
        Some kind \<Rightarrow>
          (case (case kind of Single i \<Rightarrow> get_single_token T i | Double d i \<Rightarrow> get_double_token T d i) of
             Some t \<Rightarrow> t
           | None \<Rightarrow> s)
      | None \<Rightarrow> s)"

fun to_owned :: "token_tables \<Rightarrow> node \<Rightarrow> node"
  and content_to_owned :: "token_tables \<Rightarrow> content \<Rightarrow> content" where
  "to_owned T (Node t as c) =
     Node (intern_cow T t) (map (\<lambda>(k, v). (intern_cow T k, v)) as) (map_option (content_to_owned T) c)"
| "content_to_owned T (Bytes b) = Bytes b"
| "content_to_owned T (CString s) = CString s"
| "content_to_owned T (Nodes ns) = Nodes (map (to_owned T) ns)"

section \<open>Builder\<close>

record node_builder =
  b_tag :: str
  b_attrs :: attrs
  b_content :: "content option"

definition builder_new :: "str \<Rightarrow> node_builder" where
  "builder_new t = \<lparr>b_tag = t, b_attrs = [], b_content = None\<rparr>"

definition builder_attr :: "node_builder \<Rightarrow> str \<Rightarrow> node_value \<Rightarrow> node_builder" where
  "builder_attr b key v = b\<lparr>b_attrs := attrs_insert (b_attrs b) key v\<rparr>"

fun builder_attrs :: "node_builder \<Rightarrow> attrs \<Rightarrow> node_builder" where
  "builder_attrs b [] = b"
| "builder_attrs b ((key, v) # kvs) = builder_attrs (builder_attr b key v) kvs"

definition builder_children :: "node_builder \<Rightarrow> node list \<Rightarrow> node_builder" where
  "builder_children b ns = b\<lparr>b_content := Some (Nodes ns)\<rparr>"

definition builder_bytes :: "node_builder \<Rightarrow> u8 list \<Rightarrow> node_builder" where
  "builder_bytes b bs = b\<lparr>b_content := Some (Bytes bs)\<rparr>"

definition builder_string_content :: "node_builder \<Rightarrow> str \<Rightarrow> node_builder" where
  "builder_string_content b s = b\<lparr>b_content := Some (CString s)\<rparr>"

definition builder_apply_content :: "node_builder \<Rightarrow> content option \<Rightarrow> node_builder" where
  "builder_apply_content b c = b\<lparr>b_content := c\<rparr>"

definition builder_build :: "node_builder \<Rightarrow> node" where
  "builder_build b = Node (b_tag b) (b_attrs b) (b_content b)"


section \<open>Attribute parsers\<close>

text \<open>\<open>str::parse\<close> for an integer type with the range \<open>lo\<close> to \<open>hi\<close>; a sign is
  read only by the signed types.\<close>

fun int_digits :: "bool \<Rightarrow> int \<Rightarrow> int \<Rightarrow> int \<Rightarrow> str \<Rightarrow> (int_error, int) outcome" where
  "int_digits neg lo hi v [] = Ok v"
| "int_digits neg lo hi v (b # bs) =
     (if \<not> is_digit b then Err InvalidDigit
      else
        (let d = int (unat (b - 48)); w = (if neg then v * 10 - d else v * 10 + d) in
         if w < lo then Err NegOverflow
         else if hi < w then Err PosOverflow
         else int_digits neg lo hi w bs))"

definition int_from_str :: "int \<Rightarrow> int \<Rightarrow> str \<Rightarrow> (int_error, int) outcome" where
  "int_from_str lo hi s =
     (case s of
        [] \<Rightarrow> Err Empty
      | b # bs \<Rightarrow>
          if (b = 43 \<or> b = 45) \<and> bs = [] then Err InvalidDigit
          else if b = 43 then int_digits False lo hi 0 bs
          else if b = 45 \<and> lo < 0 then int_digits True lo hi 0 bs
          else int_digits False lo hi 0 s)"

definition u64_from_str :: "str \<Rightarrow> (int_error, int) outcome" where
  "u64_from_str = int_from_str 0 (2 ^ 64 - 1)"

definition i64_from_str :: "str \<Rightarrow> (int_error, int) outcome" where
  "i64_from_str = int_from_str (- (2 ^ 63)) (2 ^ 63 - 1)"

definition coerce_protocol_bool :: "str \<Rightarrow> bool option" where
  "coerce_protocol_bool s =
     (if s \<in> {lit ''1'', lit ''true'', lit ''True'', lit ''t'', lit ''T'', lit ''TRUE''} then Some True
      else if s \<in> {lit ''0'', lit ''false'', lit ''False'', lit ''f'', lit ''F'', lit ''FALSE''} then Some False
      else None)"

record attr_parser =
  ap_attrs :: attrs
  ap_errors :: "binary_error list"

definition parser_new :: "node \<Rightarrow> attr_parser" where
  "parser_new n = \<lparr>ap_attrs = node_attrs n, ap_errors = []\<rparr>"

definition push_error :: "attr_parser \<Rightarrow> binary_error \<Rightarrow> attr_parser" where
  "push_error p e = p\<lparr>ap_errors := ap_errors p @ [e]\<rparr>"

definition parser_ok :: "attr_parser \<Rightarrow> bool" where
  "parser_ok p \<longleftrightarrow> ap_errors p = []"

definition parser_finish :: "attr_parser \<Rightarrow> (binary_error, unit) outcome" where
  "parser_finish p = (if parser_ok p then Ok () else Err (AttrList (map error_clone (ap_errors p))))"

definition quoted :: "str \<Rightarrow> str" where
  "quoted s = 39 # s @ [39]"

definition get_raw :: "attr_parser \<Rightarrow> str \<Rightarrow> bool \<Rightarrow> node_value option \<times> attr_parser" where
  "get_raw p key require =
     (let val = attrs_get (ap_attrs p) key in
      (val, if require \<and> val = None
            then push_error p (AttrParse (lit ''Required attribute '' @ quoted key @ lit '' not found''))
            else p))"

definition optional_string :: "attr_parser \<Rightarrow> str \<Rightarrow> str option \<times> attr_parser" where
  "optional_string p key = (let (val, p) = get_raw p key False in (map_option value_as_str val, p))"

definition required_string :: "attr_parser \<Rightarrow> str \<Rightarrow> (binary_error, str) outcome \<times> attr_parser" where
  "required_string p key = (let (val, p) = optional_string p key in (ok_or (MissingAttr key) val, p))"

definition get_string_value :: "attr_parser \<Rightarrow> str \<Rightarrow> bool \<Rightarrow> str option \<times> attr_parser" where
  "get_string_value p key require = (let (val, p) = get_raw p key require in (map_option value_as_str val, p))"

text \<open>\<open>AttrParser::get_jid\<close> keeps the parse error; \<open>AttrParserRef::get_jid\<close> reports the string.\<close>

definition get_jid :: "attr_parser \<Rightarrow> str \<Rightarrow> bool \<Rightarrow> jid option \<times> attr_parser" where
  "get_jid p key require =
     (case get_raw p key require of
        (None, p) \<Rightarrow> (None, p)
      | (Some (VJid j), p) \<Rightarrow> (Some j, p)
      | (Some (VString s), p) \<Rightarrow>
          (case jid_from_str s of
             Ok j \<Rightarrow> (Some j, p)
           | Err e \<Rightarrow> (None, push_error p (JidErr e))
           | Panic \<Rightarrow> (None, p)))"

definition get_jid_ref :: "attr_parser \<Rightarrow> str \<Rightarrow> bool \<Rightarrow> jid option \<times> attr_parser" where
  "get_jid_ref p key require =
     (case get_raw p key require of
        (None, p) \<Rightarrow> (None, p)
      | (Some v, p) \<Rightarrow>
          (case value_to_jid v of
             Some j \<Rightarrow> (Some j, p)
           | None \<Rightarrow>
               (None, case v of VString s \<Rightarrow> push_error p (AttrParse (lit ''Invalid JID: '' @ s)) | VJid _ \<Rightarrow> p)))"

definition optional_jid_result :: "attr_parser \<Rightarrow> str \<Rightarrow> (binary_error, jid option) outcome \<times> attr_parser" where
  "optional_jid_result p key =
     (case get_raw p key False of
        (None, p) \<Rightarrow> (Ok None, p)
      | (Some (VJid j), p) \<Rightarrow> (Ok (Some j), p)
      | (Some (VString s), p) \<Rightarrow>
          (case jid_from_str s of
             Ok j \<Rightarrow> (Ok (Some j), p) | Err e \<Rightarrow> (Err (JidErr e), p) | Panic \<Rightarrow> (Panic, p)))"

definition required_jid :: "attr_parser \<Rightarrow> str \<Rightarrow> (binary_error, jid) outcome \<times> attr_parser" where
  "required_jid p key =
     (case optional_jid_result p key of
        (r, p) \<Rightarrow> (obind r (ok_or (MissingAttr key)), p))"

definition parser_jid :: "attr_parser \<Rightarrow> str \<Rightarrow> jid \<times> attr_parser" where
  "parser_jid p key = (case get_jid p key True of (r, p) \<Rightarrow> (unwrap_or (jid_new [] Pn) r, p))"

definition non_ad_jid :: "attr_parser \<Rightarrow> str \<Rightarrow> jid \<times> attr_parser" where
  "non_ad_jid p key = (case parser_jid p key of (j, p) \<Rightarrow> (to_non_ad j, p))"

definition get_bool :: "attr_parser \<Rightarrow> str \<Rightarrow> bool \<Rightarrow> bool option \<times> attr_parser" where
  "get_bool p key require =
     (case get_string_value p key require of
        (None, p) \<Rightarrow> (None, p)
      | (Some s, p) \<Rightarrow>
          (case coerce_protocol_bool s of
             Some b \<Rightarrow> (Some b, p)
           | None \<Rightarrow> (None, push_error p (AttrParse
               (lit ''Failed to parse bool from '' @ quoted s @ lit '' for key '' @ quoted key)))))"

definition optional_bool :: "attr_parser \<Rightarrow> str \<Rightarrow> bool \<times> attr_parser" where
  "optional_bool p key = (case get_bool p key False of (r, p) \<Rightarrow> (unwrap_or False r, p))"

definition parser_bool :: "attr_parser \<Rightarrow> str \<Rightarrow> bool \<times> attr_parser" where
  "parser_bool p key = (case get_bool p key True of (r, p) \<Rightarrow> (unwrap_or False r, p))"

definition optional_u64 :: "attr_parser \<Rightarrow> str \<Rightarrow> int option \<times> attr_parser" where
  "optional_u64 p key =
     (case get_string_value p key False of
        (None, p) \<Rightarrow> (None, p)
      | (Some s, p) \<Rightarrow>
          (case u64_from_str s of
             Ok v \<Rightarrow> (Some v, p)
           | Err e \<Rightarrow> (None, push_error p (AttrParse
               (lit ''Failed to parse u64 from '' @ quoted s @ lit '' for key '' @ quoted key @ lit '': '' @ int_error_text e)))
           | Panic \<Rightarrow> (None, p)))"

definition get_i64 :: "attr_parser \<Rightarrow> str \<Rightarrow> bool \<Rightarrow> int option \<times> attr_parser" where
  "get_i64 p key require =
     (case get_string_value p key require of
        (None, p) \<Rightarrow> (None, p)
      | (Some s, p) \<Rightarrow>
          (case i64_from_str s of
             Ok v \<Rightarrow> (Some v, p)
           | Err e \<Rightarrow> (None, push_error p (AttrParse
               (lit ''Failed to parse i64 from '' @ quoted s @ lit '' for key '' @ quoted key @ lit '': '' @ int_error_text e)))
           | Panic \<Rightarrow> (None, p)))"

definition unix_time :: "attr_parser \<Rightarrow> str \<Rightarrow> int \<times> attr_parser" where
  "unix_time p key = (case get_i64 p key True of (r, p) \<Rightarrow> (unwrap_or 0 r, p))"

definition optional_unix_time :: "attr_parser \<Rightarrow> str \<Rightarrow> int option \<times> attr_parser" where
  "optional_unix_time p key = get_i64 p key False"

section \<open>The attribute list as a store\<close>

text \<open>
  What the builder relies on: a later value for a key replaces the earlier one and leaves the
  rest alone, keys keep their first position and are never doubled.
\<close>

locale attr_store =
  fixes get :: "'m \<Rightarrow> 'k \<Rightarrow> 'v option"
    and put :: "'m \<Rightarrow> 'k \<Rightarrow> 'v \<Rightarrow> 'm"
    and keys :: "'m \<Rightarrow> 'k list"
  assumes get_put: "get (put m k v) k' = (if k' = k then Some v else get m k')"
    and keys_put: "keys (put m k v) = (if k \<in> set (keys m) then keys m else keys m @ [k])"
    and get_keys: "get m k = None \<longleftrightarrow> k \<notin> set (keys m)"
begin

definition put_all :: "('k \<times> 'v) list \<Rightarrow> 'm \<Rightarrow> 'm" where
  "put_all kvs m = fold (\<lambda>(k, v) m. put m k v) kvs m"

lemma put_all_simps [simp]:
  "put_all [] m = m" "put_all ((k, v) # kvs) m = put_all kvs (put m k v)"
  by (simp_all add: put_all_def)

lemma get_put_all: "get (put_all kvs m) k = (case map_of (rev kvs) k of Some v \<Rightarrow> Some v | None \<Rightarrow> get m k)"
  by (induction kvs arbitrary: m) (auto simp: get_put map_add_def split: option.splits)

lemma keys_put_all_set: "set (keys (put_all kvs m)) = set (keys m) \<union> fst ` set kvs"
proof (induction kvs arbitrary: m)
  case (Cons kv kvs)
  obtain k v where kv: "kv = (k, v)" by (cases kv)
  show ?case by (cases "k \<in> set (keys m)") (auto simp: kv Cons keys_put)
qed simp

lemma distinct_put_all: "distinct (keys m) \<Longrightarrow> distinct (keys (put_all kvs m))"
  by (induction kvs arbitrary: m) (auto simp: keys_put)

lemma keys_prefix: "\<exists>ks. keys (put_all kvs m) = keys m @ ks"
proof (induction kvs arbitrary: m)
  case (Cons kv kvs)
  obtain k v where kv: "kv = (k, v)" by (cases kv)
  from Cons [of "put m k v"] show ?case by (auto simp: kv keys_put split: if_splits)
qed simp

end

lemma attrs_get_map_of: "attrs_get as k = map_of as k"
  by (induction as) (auto simp: attrs_get_def)

lemma attrs_position_None: "attrs_position (\<lambda>(k', _). k' = k) as = None \<longleftrightarrow> k \<notin> fst ` set as"
  by (induction as) auto

lemma attrs_position_Some:
  "attrs_position (\<lambda>(k', _). k' = k) as = Some i \<Longrightarrow>
   i < length as \<and> fst (as ! i) = k \<and> (\<forall>j < i. fst (as ! j) \<noteq> k)"
proof (induction as arbitrary: i)
  case (Cons a as)
  then show ?case by (cases a; cases i) (auto split: if_splits simp: nth_Cons' less_Suc_eq_0_disj)
qed simp

lemma map_of_update_first:
  "i < length as \<Longrightarrow> fst (as ! i) = k \<Longrightarrow> \<forall>j < i. fst (as ! j) \<noteq> k \<Longrightarrow>
   map_of (as[i := (k, v)]) k' = (if k' = k then Some v else map_of as k')"
proof (induction as arbitrary: i)
  case (Cons a as)
  show ?case
  proof (cases i)
    case 0
    with Cons.prems show ?thesis by (cases a) auto
  next
    case (Suc j)
    have "fst a \<noteq> k" using Cons.prems(3) Suc by (metis nth_Cons_0 zero_less_Suc)
    moreover have "map_of (as[j := (k, v)]) k' = (if k' = k then Some v else map_of as k')"
      using Cons.prems Suc by (intro Cons.IH) auto
    ultimately show ?thesis using Suc by (cases a) auto
  qed
qed simp

lemma attrs_insert_get: "attrs_get (attrs_insert as k v) k' = (if k' = k then Some v else attrs_get as k')"
proof (cases "attrs_position (\<lambda>(k', _). k' = k) as")
  case None
  then have "map_of as k = None" by (simp add: attrs_position_None map_of_eq_None_iff)
  with None show ?thesis by (auto simp add: attrs_insert_def attrs_get_map_of map_add_def split: option.splits)
next
  case (Some i)
  from attrs_position_Some [OF this] Some show ?thesis
    by (simp add: attrs_insert_def attrs_get_map_of map_of_update_first)
qed

lemma attrs_insert_keys:
  "attrs_keys (attrs_insert as k v) = (if k \<in> set (attrs_keys as) then attrs_keys as else attrs_keys as @ [k])"
proof (cases "attrs_position (\<lambda>(k', _). k' = k) as")
  case None
  then have "k \<notin> fst ` set as" by (simp add: attrs_position_None)
  with None show ?thesis by (simp add: attrs_insert_def attrs_keys_def)
next
  case (Some i)
  from attrs_position_Some [OF this] have "i < length as" "fst (as ! i) = k" by simp_all
  then have "k \<in> fst ` set as" by force
  moreover have "map fst (as[i := (k, v)]) = map fst as"
    using \<open>fst (as ! i) = k\<close> \<open>i < length as\<close> by (metis fst_conv list_update_id map_update nth_map)
  ultimately show ?thesis using Some \<open>fst (as ! i) = k\<close> by (simp add: attrs_insert_def attrs_keys_def)
qed

lemma attrs_get_keys: "attrs_get as k = None \<longleftrightarrow> k \<notin> set (attrs_keys as)"
  by (simp add: attrs_get_map_of map_of_eq_None_iff attrs_keys_def)

interpretation attr_list: attr_store attrs_get attrs_insert attrs_keys
  by unfold_locales (rule attrs_insert_get attrs_insert_keys attrs_get_keys)+

lemma builder_attrs_store: "b_attrs (builder_attrs b kvs) = attr_list.put_all kvs (b_attrs b)"
  by (induction b kvs rule: builder_attrs.induct) (simp_all add: builder_attr_def)

lemma builder_attrs_frame [simp]:
  "b_tag (builder_attrs b kvs) = b_tag b" "b_content (builder_attrs b kvs) = b_content b"
  by (induction b kvs rule: builder_attrs.induct) (simp_all add: builder_attr_def)

section \<open>Interning\<close>

lemma intern_cow_id:
  assumes "build_tokens sb db = Ok T"
  shows "intern_cow T s = s"
  using index_of_token_single_iff [OF assms, of s]
  by (auto simp: intern_cow_def split: option.splits token_kind.splits)

lemma to_owned_id:
  assumes "build_tokens sb db = Ok T"
  shows "to_owned T n = n" and "content_to_owned T c = c"
proof (induction n and c)
  case (Node t as c)
  then show ?case
    by (cases c) (auto simp: intern_cow_id [OF assms] intro!: map_idI)
qed (auto intro!: map_idI)

section \<open>Attribute parsers\<close>

text \<open>
  The law of an accessor: a present attribute is decoded; a missing required one and a
  malformed one leave exactly one error and no value; nothing else changes the parser.
\<close>

locale attr_accessor =
  fixes acc :: "attr_parser \<Rightarrow> str \<Rightarrow> bool \<Rightarrow> 'a option \<times> attr_parser"
    and decode :: "node_value \<Rightarrow> 'a option"
  assumes absent: "attrs_get (ap_attrs p) key = None \<Longrightarrow> \<not> require \<Longrightarrow> acc p key require = (None, p)"
    and missing: "attrs_get (ap_attrs p) key = None \<Longrightarrow> \<exists>e. acc p key True = (None, push_error p e)"
    and present: "attrs_get (ap_attrs p) key = Some v \<Longrightarrow> decode v = Some x \<Longrightarrow> acc p key require = (Some x, p)"
    and malformed: "attrs_get (ap_attrs p) key = Some v \<Longrightarrow> decode v = None \<Longrightarrow>
      \<exists>e. acc p key require = (None, push_error p e)"
begin

definition valid :: "attrs \<Rightarrow> str \<Rightarrow> bool" where
  "valid as key \<longleftrightarrow> (\<exists>v. attrs_get as key = Some v \<and> decode v \<noteq> None)"

lemma required_call:
  "\<exists>es. ap_errors (snd (acc p key True)) = ap_errors p @ es \<and> length es = (if valid (ap_attrs p) key then 0 else 1) \<and>
     ap_attrs (snd (acc p key True)) = ap_attrs p \<and>
     fst (acc p key True) = Option.bind (attrs_get (ap_attrs p) key) decode"
proof (cases "attrs_get (ap_attrs p) key")
  case None
  then show ?thesis using missing [OF None] by (auto simp: valid_def push_error_def)
next
  case (Some v)
  show ?thesis
  proof (cases "decode v")
    case None
    then show ?thesis using malformed [OF Some None, of True] Some by (auto simp: valid_def push_error_def)
  next
    case (Some x)
    then show ?thesis using present [OF \<open>attrs_get _ _ = Some v\<close> Some] \<open>attrs_get _ _ = Some v\<close>
      by (auto simp: valid_def)
  qed
qed

lemma optional_call:
  "\<exists>es. ap_errors (snd (acc p key False)) = ap_errors p @ es \<and>
     length es = (if attrs_get (ap_attrs p) key = None \<or> valid (ap_attrs p) key then 0 else 1) \<and>
     ap_attrs (snd (acc p key False)) = ap_attrs p"
proof (cases "attrs_get (ap_attrs p) key")
  case None
  then show ?thesis using absent [OF None, of False] by simp
next
  case (Some v)
  then show ?thesis using present [OF Some, of _ False] malformed [OF Some, of False]
    by (cases "decode v") (auto simp: valid_def push_error_def)
qed

end

lemma get_raw_cases:
  "attrs_get (ap_attrs p) key = Some v \<Longrightarrow> get_raw p key require = (Some v, p)"
  "attrs_get (ap_attrs p) key = None \<Longrightarrow> \<not> require \<Longrightarrow> get_raw p key require = (None, p)"
  "attrs_get (ap_attrs p) key = None \<Longrightarrow> \<exists>e. get_raw p key True = (None, push_error p e)"
  by (auto simp: get_raw_def Let_def)

lemma get_string_value_cases:
  "attrs_get (ap_attrs p) key = Some v \<Longrightarrow> get_string_value p key require = (Some (value_as_str v), p)"
  "attrs_get (ap_attrs p) key = None \<Longrightarrow> \<not> require \<Longrightarrow> get_string_value p key require = (None, p)"
  "attrs_get (ap_attrs p) key = None \<Longrightarrow> \<exists>e. get_string_value p key True = (None, push_error p e)"
  by (auto simp: get_string_value_def get_raw_def Let_def)

definition ok_opt :: "('e, 'a) outcome \<Rightarrow> 'a option" where
  "ok_opt r = (case r of Ok x \<Rightarrow> Some x | _ \<Rightarrow> None)"

lemma int_digits_not_Panic [simp]: "int_digits neg lo hi v bs \<noteq> Panic"
  by (cases neg; induction bs arbitrary: v) (simp_all add: Let_def)

lemma int_from_str_not_Panic [simp]: "int_from_str lo hi s \<noteq> Panic"
  by (cases s) (simp_all add: int_from_str_def del: int_digits.simps)

interpretation jid_accessor: attr_accessor get_jid value_to_jid
proof (unfold_locales, goal_cases)
  case (1 p key require)
  then show ?case using get_raw_cases(2) [of p key require] by (simp add: get_jid_def)
next
  case (2 p key)
  then show ?case using get_raw_cases(3) [of p key] by (auto simp: get_jid_def)
next
  case (3 p key v x require)
  then show ?case using get_raw_cases(1) [of p key v require] by (auto simp: get_jid_def value_to_jid_def split: node_value.splits outcome.splits)
next
  case (4 p key v require)
  then show ?case using get_raw_cases(1) [of p key v require] jid_from_str_not_Panic by (auto simp: get_jid_def value_to_jid_def split: node_value.splits outcome.splits)
qed

interpretation jid_ref_accessor: attr_accessor get_jid_ref value_to_jid
proof (unfold_locales, goal_cases)
  case (1 p key require)
  then show ?case using get_raw_cases(2) [of p key require] by (simp add: get_jid_ref_def)
next
  case (2 p key)
  then show ?case using get_raw_cases(3) [of p key] by (auto simp: get_jid_ref_def)
next
  case (3 p key v x require)
  then show ?case using get_raw_cases(1) [of p key v require] by (auto simp: get_jid_ref_def )
next
  case (4 p key v require)
  then show ?case using get_raw_cases(1) [of p key v require]  by (auto simp: get_jid_ref_def value_to_jid_def split: node_value.splits)
qed

interpretation bool_accessor: attr_accessor get_bool "\<lambda>v. coerce_protocol_bool (value_as_str v)"
proof (unfold_locales, goal_cases)
  case (1 p key require)
  then show ?case using get_string_value_cases(2) [of p key require] by (simp add: get_bool_def)
next
  case (2 p key)
  then show ?case using get_string_value_cases(3) [of p key] by (auto simp: get_bool_def)
next
  case (3 p key v x require)
  then show ?case using get_string_value_cases(1) [of p key v require] by (auto simp: get_bool_def )
next
  case (4 p key v require)
  then show ?case using get_string_value_cases(1) [of p key v require]  by (auto simp: get_bool_def )
qed

interpretation i64_accessor: attr_accessor get_i64 "\<lambda>v. ok_opt (i64_from_str (value_as_str v))"
proof (unfold_locales, goal_cases)
  case (1 p key require)
  then show ?case using get_string_value_cases(2) [of p key require] by (simp add: get_i64_def)
next
  case (2 p key)
  then show ?case using get_string_value_cases(3) [of p key] by (auto simp: get_i64_def)
next
  case (3 p key v x require)
  then show ?case using get_string_value_cases(1) [of p key v require] by (auto simp: get_i64_def ok_opt_def split: outcome.splits)
next
  case (4 p key v require)
  then show ?case using get_string_value_cases(1) [of p key v require]  by (auto simp: get_i64_def ok_opt_def i64_from_str_def split: outcome.splits)
qed

text \<open>A sequence of calls of the getters, of the owned and of the borrowed parser. \<open>optional_bool_value\<close>, \<open>unix_milli\<close> and
  \<open>optional_unix_milli\<close> are \<open>optional_bool\<close>, \<open>unix_time\<close> and \<open>optional_unix_time\<close> as far as the parser is concerned;
  \<open>GetJidRef\<close> is \<open>jid\<close> and \<open>non_ad_jid\<close> of the borrowed parser.\<close>

datatype request = GetString str | RequiredString str | OptionalJid str | GetJid str | NonAdJid str | OptionalJidRef str |
  GetJidRef str | OptionalJidResult str | RequiredJid str | OptionalBool str | GetBool str | OptionalU64 str |
  OptionalTime str | GetTime str

fun run_request :: "request \<Rightarrow> attr_parser \<Rightarrow> attr_parser" where
  "run_request (GetString k) p = snd (optional_string p k)"
| "run_request (RequiredString k) p = snd (required_string p k)"
| "run_request (OptionalJid k) p = snd (get_jid p k False)"
| "run_request (GetJid k) p = snd (parser_jid p k)"
| "run_request (NonAdJid k) p = snd (non_ad_jid p k)"
| "run_request (OptionalJidRef k) p = snd (get_jid_ref p k False)"
| "run_request (GetJidRef k) p = snd (get_jid_ref p k True)"
| "run_request (OptionalJidResult k) p = snd (optional_jid_result p k)"
| "run_request (RequiredJid k) p = snd (required_jid p k)"
| "run_request (OptionalBool k) p = snd (optional_bool p k)"
| "run_request (GetBool k) p = snd (parser_bool p k)"
| "run_request (OptionalU64 k) p = snd (optional_u64 p k)"
| "run_request (OptionalTime k) p = snd (optional_unix_time p k)"
| "run_request (GetTime k) p = snd (unix_time p k)"

text \<open>The calls that leave no error behind: an optional attribute may be absent, a required one may not,
  and one that is there has to be well-formed. The getters that hand their error to the caller record none.\<close>

definition well_formed :: "attrs \<Rightarrow> str \<Rightarrow> (node_value \<Rightarrow> bool) \<Rightarrow> bool" where
  "well_formed as k P \<longleftrightarrow> (case attrs_get as k of Some v \<Rightarrow> P v | None \<Rightarrow> False)"

definition is_jid :: "node_value \<Rightarrow> bool" where
  "is_jid v \<longleftrightarrow> value_to_jid v \<noteq> None"

definition is_bool :: "node_value \<Rightarrow> bool" where
  "is_bool v \<longleftrightarrow> coerce_protocol_bool (value_as_str v) \<noteq> None"

definition is_u64 :: "node_value \<Rightarrow> bool" where
  "is_u64 v \<longleftrightarrow> ok_opt (u64_from_str (value_as_str v)) \<noteq> None"

definition is_i64 :: "node_value \<Rightarrow> bool" where
  "is_i64 v \<longleftrightarrow> ok_opt (i64_from_str (value_as_str v)) \<noteq> None"

fun request_clean :: "attrs \<Rightarrow> request \<Rightarrow> bool" where
  "request_clean as (GetString k) = True"
| "request_clean as (RequiredString k) = True"
| "request_clean as (OptionalJid k) = (attrs_get as k = None \<or> well_formed as k is_jid)"
| "request_clean as (GetJid k) = well_formed as k is_jid"
| "request_clean as (NonAdJid k) = well_formed as k is_jid"
| "request_clean as (OptionalJidRef k) = (attrs_get as k = None \<or> well_formed as k is_jid)"
| "request_clean as (GetJidRef k) = well_formed as k is_jid"
| "request_clean as (OptionalJidResult k) = True"
| "request_clean as (RequiredJid k) = True"
| "request_clean as (OptionalBool k) = (attrs_get as k = None \<or> well_formed as k is_bool)"
| "request_clean as (GetBool k) = well_formed as k is_bool"
| "request_clean as (OptionalU64 k) = (attrs_get as k = None \<or> well_formed as k is_u64)"
| "request_clean as (OptionalTime k) = (attrs_get as k = None \<or> well_formed as k is_i64)"
| "request_clean as (GetTime k) = well_formed as k is_i64"

lemma valid_is:
  "jid_accessor.valid as k = well_formed as k is_jid" "jid_ref_accessor.valid as k = well_formed as k is_jid"
  "bool_accessor.valid as k = well_formed as k is_bool" "i64_accessor.valid as k = well_formed as k is_i64"
  by (auto simp: jid_accessor.valid_def jid_ref_accessor.valid_def bool_accessor.valid_def i64_accessor.valid_def
      well_formed_def is_jid_def is_bool_def is_i64_def split: option.splits)

lemma snd_getters [simp]:
  "snd (optional_string p k) = p" "snd (required_string p k) = p" "snd (optional_jid_result p k) = p" "snd (required_jid p k) = p"
  "snd (parser_jid p k) = snd (get_jid p k True)" "snd (non_ad_jid p k) = snd (get_jid p k True)"
  "snd (optional_bool p k) = snd (get_bool p k False)" "snd (parser_bool p k) = snd (get_bool p k True)"
  "snd (optional_unix_time p k) = snd (get_i64 p k False)" "snd (unix_time p k) = snd (get_i64 p k True)"
  by (auto simp: optional_string_def required_string_def optional_jid_result_def required_jid_def get_raw_def Let_def parser_jid_def
      non_ad_jid_def optional_bool_def parser_bool_def optional_unix_time_def unix_time_def
      split: prod.splits option.splits node_value.splits outcome.splits)

text \<open>What a call leaves in the parser.\<close>

definition records :: "attr_parser \<Rightarrow> bool \<Rightarrow> attr_parser \<Rightarrow> bool" where
  "records p clean p' \<longleftrightarrow>
     (\<exists>es. ap_errors p' = ap_errors p @ es \<and> length es = (if clean then 0 else 1) \<and> ap_attrs p' = ap_attrs p)"

lemma records_u64: "records p (attrs_get (ap_attrs p) k = None \<or> well_formed (ap_attrs p) k is_u64) (snd (optional_u64 p k))"
proof (cases "attrs_get (ap_attrs p) k")
  case None
  then show ?thesis using get_string_value_cases(2) [OF None, of False] by (simp add: optional_u64_def records_def)
next
  case (Some v)
  moreover have "u64_from_str (value_as_str v) \<noteq> Panic" by (simp add: u64_from_str_def)
  ultimately show ?thesis using get_string_value_cases(1) [OF Some, of False]
    by (auto simp: optional_u64_def records_def well_formed_def is_u64_def ok_opt_def push_error_def split: outcome.splits)
qed

lemma records_required:
  "records p (well_formed (ap_attrs p) k is_jid) (snd (get_jid p k True))"
  "records p (well_formed (ap_attrs p) k is_jid) (snd (get_jid_ref p k True))"
  "records p (well_formed (ap_attrs p) k is_bool) (snd (get_bool p k True))"
  "records p (well_formed (ap_attrs p) k is_i64) (snd (get_i64 p k True))"
  using jid_accessor.required_call [of p k] jid_ref_accessor.required_call [of p k] bool_accessor.required_call [of p k]
    i64_accessor.required_call [of p k] unfolding records_def valid_is by blast+

lemma records_optional:
  "records p (attrs_get (ap_attrs p) k = None \<or> well_formed (ap_attrs p) k is_jid) (snd (get_jid p k False))"
  "records p (attrs_get (ap_attrs p) k = None \<or> well_formed (ap_attrs p) k is_jid) (snd (get_jid_ref p k False))"
  "records p (attrs_get (ap_attrs p) k = None \<or> well_formed (ap_attrs p) k is_bool) (snd (get_bool p k False))"
  "records p (attrs_get (ap_attrs p) k = None \<or> well_formed (ap_attrs p) k is_i64) (snd (get_i64 p k False))"
  using jid_accessor.optional_call [of p k] jid_ref_accessor.optional_call [of p k] bool_accessor.optional_call [of p k]
    i64_accessor.optional_call [of p k] unfolding records_def valid_is by blast+

lemma run_request_errors: "records p (request_clean (ap_attrs p) r) (run_request r p)"
proof -
  have "records p True p" by (simp add: records_def)
  then show ?thesis
    by (cases r) (simp_all only: run_request.simps request_clean.simps snd_getters records_u64 records_required records_optional)
qed

lemma run_requests_errors:
  "\<exists>es. ap_errors (fold run_request rs p) = ap_errors p @ es \<and>
     length es = length (filter (\<lambda>r. \<not> request_clean (ap_attrs p) r) rs) \<and> ap_attrs (fold run_request rs p) = ap_attrs p"
proof (induction rs arbitrary: p)
  case (Cons r rs)
  obtain es where r: "ap_errors (run_request r p) = ap_errors p @ es" "length es = (if request_clean (ap_attrs p) r then 0 else 1)"
    "ap_attrs (run_request r p) = ap_attrs p" using run_request_errors [of p r] unfolding records_def by blast
  with Cons [of "run_request r p"] obtain es' where
    "ap_errors (fold run_request rs (run_request r p)) = ap_errors p @ es @ es'"
    "length es' = length (filter (\<lambda>r. \<not> request_clean (ap_attrs p) r) rs)"
    "ap_attrs (fold run_request rs (run_request r p)) = ap_attrs p" by auto
  with r show ?case by (intro exI [of _ "es @ es'"]) auto
qed simp

section \<open>Main results\<close>

text \<open>C31. The attributes of a built node: each key appears once, keys that were set before keep
  their place, and a key has the value it was last given by the builder, or the one it had.\<close>

theorem builder_attrs_last_wins:
  assumes "distinct (attrs_keys (b_attrs b))"
  shows "let n = builder_build (builder_attrs b kvs) in
    distinct (attrs_keys (node_attrs n)) \<and>
    (\<exists>ks. attrs_keys (node_attrs n) = attrs_keys (b_attrs b) @ ks) \<and>
    get_attr n k = (case map_of (rev kvs) k of Some v \<Rightarrow> Some v | None \<Rightarrow> attrs_get (b_attrs b) k)"
  using attr_list.distinct_put_all [OF assms, of kvs] attr_list.keys_prefix [of kvs "b_attrs b"]
    attr_list.get_put_all [of kvs "b_attrs b" k]
  by (simp add: builder_build_def builder_attrs_store Let_def get_attr_def attrs_get_def)

theorem builder_attrs_last_wins_witness:
  "let b = builder_attr (builder_new (lit ''iq'')) (lit ''id'') (VString (lit ''1''));
       n = builder_build (builder_attrs b [(lit ''to'', VString (lit ''x'')), (lit ''id'', VString (lit ''2''))]) in
   get_attr n (lit ''id'') = Some (VString (lit ''2'')) \<and> distinct (attrs_keys (node_attrs n))"
proof -
  let ?b = "builder_attr (builder_new (lit ''iq'')) (lit ''id'') (VString (lit ''1''))"
  have "distinct (attrs_keys (b_attrs ?b))"
    by (simp add: builder_attr_def builder_new_def attrs_insert_def attrs_keys_def)
  from builder_attrs_last_wins [OF this, of "[(lit ''to'', VString (lit ''x'')), (lit ''id'', VString (lit ''2''))]" "lit ''id''"]
  show ?thesis by (simp add: Let_def)
qed

text \<open>C32. Converting a decoded node to an owned one changes nothing: the dictionary entry that
  replaces a tag or an attribute key is that string, at every depth.\<close>

theorem to_owned_identity:
  assumes "build_tokens sb db = Ok T"
  shows "to_owned T n = n"
  using to_owned_id(1) [OF assms] .

theorem to_owned_identity_witness:
  "to_owned sample_tables (Node (lit ''iq'') [(lit ''abcde'', VString (lit ''v''))] (Some (Nodes [Node (lit ''z'') [] None]))) =
   Node (lit ''iq'') [(lit ''abcde'', VString (lit ''v''))] (Some (Nodes [Node (lit ''z'') [] None]))"
  by (rule to_owned_identity [OF sample_built])

text \<open>C33. \<open>finish\<close> after any sequence of calls of the getters. Each call that is not clean leaves one error: a
  required attribute (\<open>jid\<close>, \<open>non_ad_jid\<close>, \<open>bool\<close>, \<open>unix_time\<close>) that is missing or malformed, an optional one
  that is there and malformed. \<open>optional_string\<close>, \<open>required_string\<close>, \<open>optional_jid_result\<close> and \<open>required_jid\<close> record
  nothing. \<open>finish\<close> succeeds exactly when every call was clean, and otherwise returns as many errors
  as there were calls that were not.\<close>

theorem parser_finish_complete:
  "(parser_finish (fold run_request rs (parser_new n)) = Ok () \<longleftrightarrow> list_all (request_clean (node_attrs n)) rs) \<and>
   (\<not> list_all (request_clean (node_attrs n)) rs \<longrightarrow>
     (\<exists>es. length es = length (filter (\<lambda>r. \<not> request_clean (node_attrs n) r) rs) \<and>
       parser_finish (fold run_request rs (parser_new n)) = Err (AttrList es)))"
proof -
  obtain es where "ap_errors (fold run_request rs (parser_new n)) = es"
    "length es = length (filter (\<lambda>r. \<not> request_clean (node_attrs n) r) rs)"
    using run_requests_errors [of rs "parser_new n"] by (auto simp: parser_new_def)
  moreover have "filter (\<lambda>r. \<not> request_clean (node_attrs n) r) rs = [] \<longleftrightarrow> list_all (request_clean (node_attrs n)) rs"
    by (simp add: filter_empty_conv list_all_iff)
  ultimately show ?thesis by (auto simp: parser_finish_def parser_ok_def)
qed

theorem parser_finish_complete_witness:
  "let n = Node (lit ''iq'') [(lit ''t'', VString (lit ''12x''))] None in
   \<exists>es. length es = 2 \<and>
     parser_finish (fold run_request [GetTime (lit ''t''), OptionalBool (lit ''x''), RequiredJid (lit ''y''), GetBool (lit ''z'')] (parser_new n)) =
       Err (AttrList es)"
proof -
  let ?as = "[(lit ''t'', VString (lit ''12x''))]"
  let ?rs = "[GetTime (lit ''t''), OptionalBool (lit ''x''), RequiredJid (lit ''y''), GetBool (lit ''z'')]"
  have c: "\<not> request_clean ?as (GetTime (lit ''t''))" "\<not> request_clean ?as (GetBool (lit ''z''))" "request_clean ?as (OptionalBool (lit ''x''))"
    by (simp_all add: well_formed_def is_i64_def attrs_get_map_of value_as_str_def ok_opt_def i64_from_str_def int_from_str_def lit_def is_digit_def)
  have "\<not> list_all (request_clean ?as) ?rs" "length (filter (\<lambda>r. \<not> request_clean ?as r) ?rs) = 2" using c by auto
  then show ?thesis
    using parser_finish_complete [of ?rs "Node (lit ''iq'') ?as None"] unfolding Let_def node.sel by metis
qed

end
