(* ===== verification/Decoder.thy ===== *)
theory Decoder
  imports Node
begin

text \<open>
  The decoder of the binary format: \<open>decoder.rs\<close> and the frame format of \<open>util.rs\<close>.

  A reader takes the decoder state (the data and a position in it) and returns a value with the
  state after it, or an error, or panics. Readers are composed with \<open>rbind\<close>, the \<open>?\<close> of the
  source. The state an error leaves behind is dropped: no caller looks at it.

  The environment \<open>codec_env\<close> holds what the readers take from elsewhere: the token tables,
  the third-party UTF-8 validator \<open>smoothutf8\<close> (assumed, where it matters, to accept exactly
  valid UTF-8), and the number of nested string readers the native stack has room for. A JID
  token contains string tokens, which may be JID tokens again, and the source bounds this
  recursion by the stack only: a reader that runs out of frames is a \<open>Panic\<close> here.
\<close>

unbundle bit_operations_syntax

record codec_env =
  toks :: token_tables
  smooth_utf8 :: "u8 list \<Rightarrow> bool"
  str_frames :: nat

section \<open>Readers\<close>

record decoder =
  dec_data :: "u8 list"
  dec_position :: nat

type_synonym 'a reader = "decoder \<Rightarrow> (binary_error, 'a \<times> decoder) outcome"

definition rpure :: "'a \<Rightarrow> 'a reader" where
  "rpure x d = Ok (x, d)"

definition rfail :: "binary_error \<Rightarrow> 'a reader" where
  "rfail e d = Err e"

definition rpanic :: "'a reader" where
  "rpanic d = Panic"

definition rbind :: "'a reader \<Rightarrow> ('a \<Rightarrow> 'b reader) \<Rightarrow> 'b reader" where
  "rbind m f d = obind (m d) (\<lambda>(x, d'). f x d')"

definition rmap :: "('a \<Rightarrow> 'b) \<Rightarrow> 'a reader \<Rightarrow> 'b reader" where
  "rmap f m = rbind m (\<lambda>x. rpure (f x))"

text \<open>\<open>ok_or\<close> on an option, and a result computed without reading.\<close>

definition rok_or :: "binary_error \<Rightarrow> 'a option \<Rightarrow> 'a reader" where
  "rok_or e x = (case x of Some v \<Rightarrow> rpure v | None \<Rightarrow> rfail e)"

definition rlift :: "(binary_error, 'a) outcome \<Rightarrow> 'a reader" where
  "rlift r = (case r of Ok x \<Rightarrow> rpure x | Err e \<Rightarrow> rfail e | Panic \<Rightarrow> rpanic)"

text \<open>A \<open>for\<close> loop that reads \<open>n\<close> items into a vector.\<close>

fun rrep :: "nat \<Rightarrow> 'a reader \<Rightarrow> 'a list reader" where
  "rrep 0 r = rpure []"
| "rrep (Suc n) r = rbind r (\<lambda>x. rbind (rrep n r) (\<lambda>xs. rpure (x # xs)))"

section \<open>Primitive readers\<close>

definition decoder_new :: "u8 list \<Rightarrow> decoder" where
  "decoder_new xs = \<lparr>dec_data = xs, dec_position = 0\<rparr>"

definition is_finished :: "decoder \<Rightarrow> bool" where
  "is_finished d \<longleftrightarrow> length (dec_data d) \<le> dec_position d"

definition bytes_left :: "decoder \<Rightarrow> nat" where
  "bytes_left d = length (dec_data d) - dec_position d"

definition check_eos :: "nat \<Rightarrow> unit reader" where
  "check_eos len d = (if len \<le> bytes_left d then Ok ((), d) else Err UnexpectedEof)"

definition advance :: "nat \<Rightarrow> decoder \<Rightarrow> decoder" where
  "advance n d = d\<lparr>dec_position := dec_position d + n\<rparr>"

definition read_u8 :: "u8 reader" where
  "read_u8 = rbind (check_eos 1) (\<lambda>_ d. Ok (dec_data d ! dec_position d, advance 1 d))"

definition read_u16_be :: "u16 reader" where
  "read_u16_be = rbind (check_eos 2) (\<lambda>_ d.
     Ok (of_nat (be_nat [dec_data d ! dec_position d, dec_data d ! (dec_position d + 1)]), advance 2 d))"

definition read_u20_be :: "u32 reader" where
  "read_u20_be = rbind (check_eos 3) (\<lambda>_ d.
     (let b0 = dec_data d ! dec_position d;
          b1 = dec_data d ! (dec_position d + 1);
          b2 = dec_data d ! (dec_position d + 2)
      in Ok ((push_bit 16 (ucast b0 AND 0x0F) OR push_bit 8 (ucast b1)) OR ucast b2, advance 3 d)))"

definition read_u32_be :: "u32 reader" where
  "read_u32_be = rbind (check_eos 4) (\<lambda>_ d.
     Ok (of_nat (be_nat
       [dec_data d ! dec_position d, dec_data d ! (dec_position d + 1),
        dec_data d ! (dec_position d + 2), dec_data d ! (dec_position d + 3)]), advance 4 d))"

definition read_bytes :: "nat \<Rightarrow> u8 list reader" where
  "read_bytes len = rbind (check_eos len) (\<lambda>_ d.
     Ok (slice (dec_position d) (dec_position d + len) (dec_data d), advance len d))"

text \<open>How far \<open>from_utf8\<close> gets: the \<open>valid_up_to\<close> of its error.\<close>

function valid_up_to :: "u8 list \<Rightarrow> nat" where
  "valid_up_to bs =
     (if bs = [] \<or> utf8_head bs = 0 then 0 else utf8_head bs + valid_up_to (drop (utf8_head bs) bs))"
  by pat_completeness auto
termination
  by (relation "measure length") (auto simp del: utf8_head.simps)

declare valid_up_to.simps [simp del]

definition std_from_utf8 :: "u8 list \<Rightarrow> (binary_error, str) outcome" where
  "std_from_utf8 bs = (if utf8_valid bs then Ok bs else Err (InvalidUtf8 (valid_up_to bs)))"

definition read_string :: "codec_env \<Rightarrow> nat \<Rightarrow> str reader" where
  "read_string E len = rbind (read_bytes len) (\<lambda>bytes.
     if smooth_utf8 E bytes then rpure bytes else rlift (std_from_utf8 bytes))"

definition read_list_size :: "u8 \<Rightarrow> nat reader" where
  "read_list_size tag =
     (if tag = LIST_EMPTY then rpure 0
      else if tag = LIST_8 then rmap unat read_u8
      else if tag = LIST_16 then rmap unat read_u16_be
      else rfail (InvalidToken tag))"

section \<open>Packed strings\<close>

definition hex_glyph :: "u8 \<Rightarrow> u8" where
  "hex_glyph n = (if n < 10 then 48 + n else 55 + n)"

definition hex_pair :: "u8 \<Rightarrow> u8 list" where
  "hex_pair b = [hex_glyph (drop_bit 4 b), hex_glyph (b AND 0x0F)]"

abbreviation (input) NIBBLE_INVALID :: u8 where "NIBBLE_INVALID \<equiv> 0xFF"

definition glyph :: "u8 \<Rightarrow> u8" where
  "glyph n =
     (if n \<le> 9 then 48 + n else if n = 10 then 45 else if n = 11 then 46
      else if n = 15 then 0 else NIBBLE_INVALID)"

definition nibble_pair :: "u8 \<Rightarrow> u8 list" where
  "nibble_pair b = [glyph (drop_bit 4 b), glyph (b AND 0x0F)]"

definition unpack_nibble :: "u8 \<Rightarrow> (binary_error, u8) outcome" where
  "unpack_nibble v =
     (if v \<le> 9 then Ok (48 + v) else if v = 10 then Ok 45 else if v = 11 then Ok 46
      else if v = 15 then Ok 0 else Err (InvalidToken v))"

text \<open>Both unpackers write into a buffer of 254 bytes and index out of it past that.\<close>

definition decode_packed_hex :: "u8 list \<Rightarrow> (binary_error, u8 list) outcome" where
  "decode_packed_hex packed =
     (if 254 < length packed * 2 then Panic else Ok (concat (map hex_pair packed)))"

fun nibble_loop :: "u8 list \<Rightarrow> (binary_error, u8 list) outcome" where
  "nibble_loop [] = Ok []"
| "nibble_loop (b # bs) =
     obind (if NIBBLE_INVALID \<in> set (nibble_pair b)
            then obind (unpack_nibble (drop_bit 4 (b AND 0xF0))) (\<lambda>_.
                 obind (unpack_nibble (b AND 0x0F)) (\<lambda>_. Ok ()))
            else Ok ()) (\<lambda>_.
     omap (\<lambda>out. nibble_pair b @ out) (nibble_loop bs))"

definition decode_packed_nibble :: "u8 list \<Rightarrow> (binary_error, u8 list) outcome" where
  "decode_packed_nibble packed = (if 254 < length packed * 2 then Panic else nibble_loop packed)"

definition read_packed :: "codec_env \<Rightarrow> u8 \<Rightarrow> str reader" where
  "read_packed E tag = rbind read_u8 (\<lambda>b.
     (let half = (b AND 0x80 \<noteq> 0); len = unat (b AND 0x7F) in
      if len = 0 then rpure []
      else rbind (read_bytes len) (\<lambda>packed.
        rbind (if tag = HEX_8 then rlift (decode_packed_hex packed)
               else if tag = NIBBLE_8 then rlift (decode_packed_nibble packed)
               else rfail (InvalidToken tag)) (\<lambda>buf.
        (let out = (if half \<and> 0 < length buf then take (length buf - 1) buf else buf) in
         if smooth_utf8 E out then rpure out else rpanic)))))"

section \<open>Values\<close>

text \<open>The JID readers take the string reader \<open>rs\<close> they recurse into.\<close>

definition or_default :: "str option \<Rightarrow> str" where
  "or_default s = unwrap_or [] s"

definition read_jid_pair :: "str option reader \<Rightarrow> jid reader" where
  "read_jid_pair rs =
     rbind rs (\<lambda>user. rbind rs (\<lambda>server_str.
     (case server_try_from (or_default server_str) of
        Ok srv \<Rightarrow> rpure (jid_new (or_default user) srv)
      | _ \<Rightarrow> rfail (AttrParse (lit ''JID_PAIR unknown server: '' @ or_default server_str)))))"

definition domain_server :: "u8 \<Rightarrow> server_name option" where
  "domain_server agent =
     (if agent = 0 then Some Pn
      else if agent = 1 then Some Lid
      else if agent = 128 then Some Hosted
      else if agent = 129 then Some HostedLid
      else if agent AND 128 \<noteq> 0 \<and> agent AND 1 = 0 then Some Hosted
      else None)"

definition read_ad_jid :: "str option reader \<Rightarrow> jid reader" where
  "read_ad_jid rs =
     rbind read_u8 (\<lambda>agent. rbind read_u8 (\<lambda>dev. rbind rs (\<lambda>user.
     (case user of
        None \<Rightarrow> rfail InvalidNode
      | Some u \<Rightarrow>
          (case domain_server agent of
             Some srv \<Rightarrow> rpure ((jid_new u srv)\<lparr>jid_device := ucast dev\<rparr>)
           | None \<Rightarrow> rfail (AttrParse (lit ''read_ad_jid - Invalid domain type encoding '' @ dec (unat agent))))))))"

definition read_interop_jid :: "str option reader \<Rightarrow> jid reader" where
  "read_interop_jid rs =
     rbind rs (\<lambda>user.
     (case user of
        None \<Rightarrow> rfail InvalidNode
      | Some u \<Rightarrow>
          rbind read_u16_be (\<lambda>dev. rbind read_u16_be (\<lambda>integ. rbind rs (\<lambda>server_str.
          if or_default server_str \<noteq> lit ''interop'' then rfail InvalidNode
          else rpure ((jid_new u Interop)\<lparr>jid_device := dev, jid_integrator := integ\<rparr>))))))"

definition read_fb_jid :: "str option reader \<Rightarrow> jid reader" where
  "read_fb_jid rs =
     rbind rs (\<lambda>user.
     (case user of
        None \<Rightarrow> rfail InvalidNode
      | Some u \<Rightarrow>
          rbind read_u16_be (\<lambda>dev. rbind rs (\<lambda>server_str.
          if or_default server_str \<noteq> lit ''msgr'' then rfail InvalidNode
          else rpure ((jid_new u Messenger)\<lparr>jid_device := dev\<rparr>)))))"

definition read_value_as_string_from_tag :: "codec_env \<Rightarrow> str option reader \<Rightarrow> u8 \<Rightarrow> str option reader" where
  "read_value_as_string_from_tag E rs tag =
     (if tag = LIST_EMPTY then rpure None
      else if tag = BINARY_8 then rbind read_u8 (\<lambda>n. rmap Some (read_string E (unat n)))
      else if tag = BINARY_20 then rbind read_u20_be (\<lambda>n. rmap Some (read_string E (unat n)))
      else if tag = BINARY_32 then rbind read_u32_be (\<lambda>n. rmap Some (read_string E (unat n)))
      else if tag = JID_PAIR then rmap (\<lambda>j. Some (jid_ref_to_compact j)) (read_jid_pair rs)
      else if tag = AD_JID then rmap (\<lambda>j. Some (jid_ref_to_compact j)) (read_ad_jid rs)
      else if tag = INTEROP_JID then rmap (\<lambda>j. Some (jid_ref_to_compact j)) (read_interop_jid rs)
      else if tag = FB_JID then rmap (\<lambda>j. Some (jid_ref_to_compact j)) (read_fb_jid rs)
      else if tag = NIBBLE_8 \<or> tag = HEX_8 then rmap Some (read_packed E tag)
      else if DICTIONARY_0 \<le> tag \<and> tag \<le> DICTIONARY_3 then
        rbind read_u8 (\<lambda>index.
        (case get_double_token (toks E) (tag - DICTIONARY_0) index of
           Some s \<Rightarrow> rpure (Some s) | None \<Rightarrow> rfail (InvalidToken tag)))
      else
        (case get_single_token (toks E) tag of
           Some s \<Rightarrow> rpure (Some s) | None \<Rightarrow> rfail (InvalidToken tag)))"

text \<open>\<open>read_value_as_string\<close> with room for \<open>n\<close> nested calls.\<close>

fun read_str_n :: "codec_env \<Rightarrow> nat \<Rightarrow> str option reader" where
  "read_str_n E 0 = rpanic"
| "read_str_n E (Suc n) = rbind read_u8 (read_value_as_string_from_tag E (read_str_n E n))"

definition read_value_as_string :: "codec_env \<Rightarrow> str option reader" where
  "read_value_as_string E = read_str_n E (str_frames E)"

definition read_value :: "codec_env \<Rightarrow> node_value option reader" where
  "read_value E =
     rbind read_u8 (\<lambda>tag.
      if tag = LIST_EMPTY then rpure None
      else if tag = BINARY_8 then rbind read_u8 (\<lambda>n. rmap (\<lambda>s. Some (VString s)) (read_string E (unat n)))
      else if tag = BINARY_20 then rbind read_u20_be (\<lambda>n. rmap (\<lambda>s. Some (VString s)) (read_string E (unat n)))
      else if tag = BINARY_32 then rbind read_u32_be (\<lambda>n. rmap (\<lambda>s. Some (VString s)) (read_string E (unat n)))
      else if tag = JID_PAIR then rmap (\<lambda>j. Some (VJid j)) (read_jid_pair (read_value_as_string E))
      else if tag = AD_JID then rmap (\<lambda>j. Some (VJid j)) (read_ad_jid (read_value_as_string E))
      else if tag = INTEROP_JID then rmap (\<lambda>j. Some (VJid j)) (read_interop_jid (read_value_as_string E))
      else if tag = FB_JID then rmap (\<lambda>j. Some (VJid j)) (read_fb_jid (read_value_as_string E))
      else if tag = NIBBLE_8 \<or> tag = HEX_8 then rmap (\<lambda>s. Some (VString s)) (read_packed E tag)
      else if DICTIONARY_0 \<le> tag \<and> tag \<le> DICTIONARY_3 then
        rbind read_u8 (\<lambda>index.
        (case get_double_token (toks E) (tag - DICTIONARY_0) index of
           Some s \<Rightarrow> rpure (Some (VString s)) | None \<Rightarrow> rfail (InvalidToken tag)))
      else
        (case get_single_token (toks E) tag of
           Some s \<Rightarrow> rpure (Some (VString s)) | None \<Rightarrow> rfail (InvalidToken tag)))"

section \<open>Nodes\<close>

abbreviation (input) MAX_NODE_DEPTH :: nat where "MAX_NODE_DEPTH \<equiv> 128"

datatype open_content = ONone | OChildren nat | OScalar content

record node_open =
  open_tag :: str
  open_attrs :: attrs
  open_content :: open_content

definition read_attribute :: "codec_env \<Rightarrow> (str \<times> node_value) reader" where
  "read_attribute E =
     rbind (read_value_as_string E) (\<lambda>key.
     (case key of
        None \<Rightarrow> rfail NonStringKey
      | Some k \<Rightarrow> rbind (read_value E) (\<lambda>v. rpure (k, unwrap_or (VString []) v))))"

definition read_attributes :: "codec_env \<Rightarrow> nat \<Rightarrow> attrs reader" where
  "read_attributes E n = (if n = 0 then rpure [] else rrep n (read_attribute E))"

text \<open>The content behind its tag; \<open>child\<close> reads one child node.\<close>

definition read_content_from_tag :: "codec_env \<Rightarrow> node reader \<Rightarrow> u8 \<Rightarrow> content option reader" where
  "read_content_from_tag E child tag =
     (if tag = LIST_EMPTY then rpure None
      else if tag = LIST_8 \<or> tag = LIST_16 then
        rbind (read_list_size tag) (\<lambda>n. rmap (\<lambda>ns. Some (Nodes ns)) (rrep n child))
      else if tag = BINARY_8 then
        rbind read_u8 (\<lambda>len. rmap (\<lambda>b. Some (Bytes b)) (read_bytes (unat len)))
      else if tag = BINARY_20 then
        rbind read_u20_be (\<lambda>len. rmap (\<lambda>b. Some (Bytes b)) (read_bytes (unat len)))
      else if tag = BINARY_32 then
        rbind read_u32_be (\<lambda>len. rmap (\<lambda>b. Some (Bytes b)) (read_bytes (unat len)))
      else
        rbind (read_value_as_string_from_tag E (read_value_as_string E) tag) (\<lambda>s.
        rpure (map_option CString s)))"

text \<open>In a head the content is read with no child reader: lists were split off before
  (\<open>read_content_scalar\<close> shows that the argument is not used).\<close>

definition read_node_open :: "codec_env \<Rightarrow> node_open reader" where
  "read_node_open E =
     rbind read_u8 (\<lambda>tag. rbind (read_list_size tag) (\<lambda>list_size.
     if list_size = 0 then rfail InvalidNode
     else
       rbind (read_value_as_string E) (\<lambda>name.
       (case name of
          None \<Rightarrow> rfail InvalidNode
        | Some t \<Rightarrow>
            rbind (read_attributes E ((list_size - 1) div 2)) (\<lambda>as.
            rbind (if list_size mod 2 = 0 then
                     rbind read_u8 (\<lambda>content_tag.
                     if content_tag = LIST_EMPTY then rpure ONone
                     else if content_tag = LIST_8 \<or> content_tag = LIST_16 then
                       rmap OChildren (read_list_size content_tag)
                     else
                       rbind (read_content_from_tag E rpanic content_tag) (\<lambda>c.
                       rpure (case c of Some scalar \<Rightarrow> OScalar scalar | None \<Rightarrow> ONone)))
                   else rpure ONone) (\<lambda>content.
            rpure \<lparr>open_tag = t, open_attrs = as, open_content = content\<rparr>))))))"

function read_node_ref_at :: "codec_env \<Rightarrow> nat \<Rightarrow> node reader" where
  "read_node_ref_at E depth =
     (if MAX_NODE_DEPTH \<le> depth then rfail MaxDepthExceeded
      else
        rbind (read_node_open E) (\<lambda>head.
        rbind (case open_content head of
                 ONone \<Rightarrow> rpure None
               | OScalar scalar \<Rightarrow> rpure (Some scalar)
               | OChildren count \<Rightarrow> rmap (\<lambda>ns. Some (Nodes ns)) (rrep count (read_node_ref_at E (depth + 1))))
          (\<lambda>content. rpure (Node (open_tag head) (open_attrs head) content))))"
  by pat_completeness auto
termination
  by (relation "measure (\<lambda>(E, depth). 128 - depth)") auto

declare read_node_ref_at.simps [simp del]

definition read_node_ref :: "codec_env \<Rightarrow> node reader" where
  "read_node_ref E = read_node_ref_at E 0"

section \<open>Walking past nodes\<close>

definition drop_value :: "'a reader \<Rightarrow> unit reader" where
  "drop_value r = rmap (\<lambda>_. ()) r"

definition skip_value_from_tag :: "codec_env \<Rightarrow> u8 \<Rightarrow> unit reader" where
  "skip_value_from_tag E tag =
     (if tag = LIST_EMPTY then rpure ()
      else if tag = BINARY_8 then rbind read_u8 (\<lambda>n. drop_value (read_string E (unat n)))
      else if tag = BINARY_20 then rbind read_u20_be (\<lambda>n. drop_value (read_string E (unat n)))
      else if tag = BINARY_32 then rbind read_u32_be (\<lambda>n. drop_value (read_string E (unat n)))
      else if tag = JID_PAIR then drop_value (read_jid_pair (read_value_as_string E))
      else if tag = AD_JID then drop_value (read_ad_jid (read_value_as_string E))
      else if tag = INTEROP_JID then drop_value (read_interop_jid (read_value_as_string E))
      else if tag = FB_JID then drop_value (read_fb_jid (read_value_as_string E))
      else if tag = NIBBLE_8 \<or> tag = HEX_8 then
        rbind read_u8 (\<lambda>b. rbind (read_bytes (unat (b AND 0x7F))) (\<lambda>packed.
        (case (if tag = NIBBLE_8 then find (\<lambda>b. NIBBLE_INVALID \<in> set (nibble_pair b)) packed else None) of
           Some b \<Rightarrow> rbind (rlift (unpack_nibble (drop_bit 4 (b AND 0xF0)))) (\<lambda>_.
                     rbind (rlift (unpack_nibble (b AND 0x0F))) (\<lambda>_. rpure ()))
         | None \<Rightarrow> rpure ())))
      else if DICTIONARY_0 \<le> tag \<and> tag \<le> DICTIONARY_3 then
        rbind read_u8 (\<lambda>index.
        drop_value (rok_or (InvalidToken tag) (get_double_token (toks E) (tag - DICTIONARY_0) index)))
      else drop_value (rok_or (InvalidToken tag) (get_single_token (toks E) tag)))"

definition skip_value :: "codec_env \<Rightarrow> unit reader" where
  "skip_value E = rbind read_u8 (skip_value_from_tag E)"

definition skip_scalar_content :: "codec_env \<Rightarrow> u8 \<Rightarrow> unit reader" where
  "skip_scalar_content E tag =
     (if tag = BINARY_8 then rbind read_u8 (\<lambda>len. drop_value (read_bytes (unat len)))
      else if tag = BINARY_20 then rbind read_u20_be (\<lambda>len. drop_value (read_bytes (unat len)))
      else if tag = BINARY_32 then rbind read_u32_be (\<lambda>len. drop_value (read_bytes (unat len)))
      else skip_value_from_tag E tag)"

definition skip_attribute :: "codec_env \<Rightarrow> unit reader" where
  "skip_attribute E =
     rbind read_u8 (\<lambda>key_token.
     if key_token = LIST_EMPTY then rfail NonStringKey
     else rbind (skip_value_from_tag E key_token) (\<lambda>_. skip_value E))"

definition skip_node_open :: "codec_env \<Rightarrow> nat reader" where
  "skip_node_open E =
     rbind read_u8 (\<lambda>tag. rbind (read_list_size tag) (\<lambda>list_size.
     if list_size = 0 then rfail InvalidNode
     else
       rbind read_u8 (\<lambda>tag_token.
       if tag_token = LIST_EMPTY then rfail InvalidNode
       else
         rbind (skip_value_from_tag E tag_token) (\<lambda>_.
         rbind (rrep ((list_size - 1) div 2) (skip_attribute E)) (\<lambda>_.
         if list_size mod 2 \<noteq> 0 then rpure 0
         else
           rbind read_u8 (\<lambda>content_tag.
           if content_tag = LIST_EMPTY then rpure 0
           else if content_tag = LIST_8 \<or> content_tag = LIST_16 then read_list_size content_tag
           else rbind (skip_scalar_content E content_tag) (\<lambda>_. rpure 0)))))))"

function skip_node_at :: "codec_env \<Rightarrow> nat \<Rightarrow> unit reader" where
  "skip_node_at E depth =
     (if MAX_NODE_DEPTH \<le> depth then rfail MaxDepthExceeded
      else
        rbind (skip_node_open E) (\<lambda>count.
        rbind (rrep count (skip_node_at E (depth + 1))) (\<lambda>_. rpure ())))"
  by pat_completeness auto
termination
  by (relation "measure (\<lambda>(E, depth). 128 - depth)") auto

declare skip_node_at.simps [simp del]

section \<open>Frames\<close>

text \<open>
  \<open>util.rs\<close>. The zlib decompressor (with its size limit) is third-party code: \<open>zlib\<close>
  stands for \<open>decompress_zlib_pooled\<close> at the frame limit.
\<close>

abbreviation (input) FORMAT_PLAIN :: u8 where "FORMAT_PLAIN \<equiv> 0"
abbreviation (input) FORMAT_COMPRESSED :: u8 where "FORMAT_COMPRESSED \<equiv> 2"

definition check_plain_payload :: "u8 list \<Rightarrow> (binary_error, unit) outcome" where
  "check_plain_payload data =
     (case data of
        format # node_bytes \<Rightarrow>
          if format \<noteq> FORMAT_PLAIN then Err (UnexpectedFormatByte format)
          else if node_bytes \<noteq> [] then Ok ()
          else Err EmptyData
      | [] \<Rightarrow> Err EmptyData)"

definition pack :: "u8 list \<Rightarrow> u8 list" where
  "pack node_bytes = FORMAT_PLAIN # node_bytes"

definition unpack :: "(u8 list \<Rightarrow> (str, u8 list) outcome) \<Rightarrow> u8 list \<Rightarrow> (binary_error, u8 list) outcome" where
  "unpack zlib data =
     (case data of
        [] \<Rightarrow> Err EmptyData
      | data_type # rest \<Rightarrow>
          if 0 < data_type AND FORMAT_COMPRESSED then
            (case zlib rest of Ok out \<Rightarrow> Ok out | Err msg \<Rightarrow> Err (Zlib msg) | Panic \<Rightarrow> Panic)
          else Ok rest)"

section \<open>Laws of readers\<close>

text \<open>A decoder that has read \<open>pre\<close> and has \<open>xs\<close> before it.\<close>

definition at :: "u8 list \<Rightarrow> u8 list \<Rightarrow> decoder" where
  "at pre xs = \<lparr>dec_data = pre @ xs, dec_position = length pre\<rparr>"

lemma decoder_new_at: "decoder_new xs = at [] xs"
  by (simp add: decoder_new_def at_def)

lemma at_inject [simp]: "at pre xs = at pre ys \<longleftrightarrow> xs = ys"
  by (simp add: at_def)

lemma bytes_left_at [simp]: "bytes_left (at pre xs) = length xs"
  by (simp add: bytes_left_def at_def)

lemma is_finished_at [simp]: "is_finished (at pre xs) \<longleftrightarrow> xs = []"
  by (auto simp: is_finished_def at_def)

lemma dec_position_at [simp]: "dec_position (at pre xs) = length pre"
  by (simp add: at_def)

text \<open>
  The contract every reader of the format meets. A value is read from a prefix of the input,
  whatever comes before and after it; an error is final unless it is the end of the input; and
  so is running out of stack. The streaming decoder rests on this: retrying on more data never
  changes an answer that was given.
\<close>

definition good_reader :: "'a reader \<Rightarrow> bool" where
  "good_reader r \<longleftrightarrow> (\<forall>pre xs.
     (\<forall>x d. r (at pre xs) = Ok (x, d) \<longrightarrow>
        (\<exists>us vs. xs = us @ vs \<and> d = at (pre @ us) vs \<and>
           (\<forall>pre' ys. r (at pre' (us @ ys)) = Ok (x, at (pre' @ us) ys)))) \<and>
     (\<forall>e. r (at pre xs) = Err e \<longrightarrow>
        (\<forall>pre'. r (at pre' xs) = Err e) \<and>
        (e \<noteq> UnexpectedEof \<longrightarrow> (\<forall>pre' ys. r (at pre' (xs @ ys)) = Err e))) \<and>
     (r (at pre xs) = Panic \<longrightarrow> (\<forall>pre' ys. r (at pre' (xs @ ys)) = Panic)))"

named_theorems good_intros \<open>readers that meet the contract\<close>

lemma good_readerD:
  assumes "good_reader r"
  shows "r (at pre xs) = Ok (x, d) \<Longrightarrow>
      \<exists>us vs. xs = us @ vs \<and> d = at (pre @ us) vs \<and> (\<forall>pre' ys. r (at pre' (us @ ys)) = Ok (x, at (pre' @ us) ys))"
    and "r (at pre xs) = Err e \<Longrightarrow> r (at pre' xs) = Err e"
    and "r (at pre xs) = Err e \<Longrightarrow> e \<noteq> UnexpectedEof \<Longrightarrow> r (at pre' (xs @ ys)) = Err e"
    and "r (at pre xs) = Panic \<Longrightarrow> r (at pre' (xs @ ys)) = Panic"
proof -
  note D = assms [unfolded good_reader_def, THEN spec, of pre, THEN spec, of xs]
  note E = D [THEN conjunct2, THEN conjunct1, THEN spec, of e, THEN mp]
  show "r (at pre xs) = Ok (x, d) \<Longrightarrow>
      \<exists>us vs. xs = us @ vs \<and> d = at (pre @ us) vs \<and> (\<forall>pre' ys. r (at pre' (us @ ys)) = Ok (x, at (pre' @ us) ys))"
    by (rule D [THEN conjunct1, THEN spec, THEN spec, THEN mp])
  show "r (at pre xs) = Err e \<Longrightarrow> r (at pre' xs) = Err e"
    by (rule E [THEN conjunct1, THEN spec])
  show "r (at pre xs) = Err e \<Longrightarrow> e \<noteq> UnexpectedEof \<Longrightarrow> r (at pre' (xs @ ys)) = Err e"
    by (rule E [THEN conjunct2, THEN mp, THEN spec, THEN spec])
  show "r (at pre xs) = Panic \<Longrightarrow> r (at pre' (xs @ ys)) = Panic"
    by (rule D [THEN conjunct2, THEN conjunct2, THEN mp, THEN spec, THEN spec])
qed

lemma good_OkE:
  assumes "good_reader r" "r (at pre xs) = Ok (x, d)"
  obtains us vs where "xs = us @ vs" "d = at (pre @ us) vs"
    "\<And>pre' ys. r (at pre' (us @ ys)) = Ok (x, at (pre' @ us) ys)"
proof -
  from good_readerD(1) [OF assms] obtain us vs where "xs = us @ vs" "d = at (pre @ us) vs"
    "\<forall>pre' ys. r (at pre' (us @ ys)) = Ok (x, at (pre' @ us) ys)" by (elim exE conjE)
  then show ?thesis by (intro that [of us vs]) simp_all
qed

lemmas good_Err = good_readerD(2) good_readerD(3)
lemmas good_Panic = good_readerD(4)

lemma good_readerI:
  assumes "\<And>pre xs x d. r (at pre xs) = Ok (x, d) \<Longrightarrow>
      \<exists>us vs. xs = us @ vs \<and> d = at (pre @ us) vs \<and> (\<forall>pre' ys. r (at pre' (us @ ys)) = Ok (x, at (pre' @ us) ys))"
    and "\<And>pre xs e pre'. r (at pre xs) = Err e \<Longrightarrow> r (at pre' xs) = Err e"
    and "\<And>pre xs e pre' ys. r (at pre xs) = Err e \<Longrightarrow> e \<noteq> UnexpectedEof \<Longrightarrow> r (at pre' (xs @ ys)) = Err e"
    and "\<And>pre xs pre' ys. r (at pre xs) = Panic \<Longrightarrow> r (at pre' (xs @ ys)) = Panic"
  shows "good_reader r"
  unfolding good_reader_def by (intro allI conjI impI) (erule assms; assumption?)+

lemma good_rpure [good_intros, intro!]: "good_reader (rpure x)"
  by (rule good_readerI) (auto simp: rpure_def at_def intro!: exI [of _ "[]"])

lemma good_rfail [good_intros, intro!]: "good_reader (rfail e)"
  by (rule good_readerI) (auto simp: rfail_def)

lemma good_rpanic [good_intros, intro!]: "good_reader rpanic"
  by (rule good_readerI) (auto simp: rpanic_def)

lemma good_rbind [good_intros]:
  assumes m: "good_reader m" and f: "\<And>x. good_reader (f x)"
  shows "good_reader (rbind m f)"
proof (rule good_readerI)
  fix pre xs y d
  assume "rbind m f (at pre xs) = Ok (y, d)"
  then obtain x d1 where x: "m (at pre xs) = Ok (x, d1)" "f x d1 = Ok (y, d)"
    by (auto simp: rbind_def obind_eq_Ok)
  from good_OkE [OF m x(1)] obtain us vs where
    u: "xs = us @ vs" "d1 = at (pre @ us) vs" "\<And>pre' ys. m (at pre' (us @ ys)) = Ok (x, at (pre' @ us) ys)"
    by blast
  from good_OkE [OF f x(2) [unfolded u(2)]] obtain us2 vs2 where
    v: "vs = us2 @ vs2" "d = at ((pre @ us) @ us2) vs2"
    "\<And>pre' ys. f x (at pre' (us2 @ ys)) = Ok (y, at (pre' @ us2) ys)" by blast
  show "\<exists>us vs. xs = us @ vs \<and> d = at (pre @ us) vs \<and>
      (\<forall>pre' ys. rbind m f (at pre' (us @ ys)) = Ok (y, at (pre' @ us) ys))"
    by (intro exI [of _ "us @ us2"] exI [of _ vs2]) (simp add: u v rbind_def)
next
  fix pre xs e pre'
  assume "rbind m f (at pre xs) = Err e"
  then consider "m (at pre xs) = Err e" | x d1 where "m (at pre xs) = Ok (x, d1)" "f x d1 = Err e"
    by (auto simp: rbind_def obind_eq_Err)
  then show "rbind m f (at pre' xs) = Err e"
  proof cases
    case 1
    then show ?thesis using good_Err(1) [OF m 1] by (simp add: rbind_def)
  next
    case 2
    from good_OkE [OF m 2(1)] obtain us vs where
      u: "xs = us @ vs" "d1 = at (pre @ us) vs" "\<And>pre' ys. m (at pre' (us @ ys)) = Ok (x, at (pre' @ us) ys)"
      by blast
    then show ?thesis using good_Err(1) [OF f 2(2) [unfolded u(2)]] by (simp add: rbind_def)
  qed
next
  fix pre xs e pre' ys
  assume "rbind m f (at pre xs) = Err e" and e: "e \<noteq> UnexpectedEof"
  then consider "m (at pre xs) = Err e" | x d1 where "m (at pre xs) = Ok (x, d1)" "f x d1 = Err e"
    by (auto simp: rbind_def obind_eq_Err)
  then show "rbind m f (at pre' (xs @ ys)) = Err e"
  proof cases
    case 1
    then show ?thesis using good_Err(2) [OF m 1 e] by (simp add: rbind_def)
  next
    case 2
    from good_OkE [OF m 2(1)] obtain us vs where
      u: "xs = us @ vs" "d1 = at (pre @ us) vs" "\<And>pre' ys. m (at pre' (us @ ys)) = Ok (x, at (pre' @ us) ys)"
      by blast
    then show ?thesis using good_Err(2) [OF f 2(2) [unfolded u(2)] e] by (simp add: rbind_def)
  qed
next
  fix pre xs pre' ys
  assume "rbind m f (at pre xs) = Panic"
  then consider "m (at pre xs) = Panic" | x d1 where "m (at pre xs) = Ok (x, d1)" "f x d1 = Panic"
    by (auto simp: rbind_def obind_eq_Panic)
  then show "rbind m f (at pre' (xs @ ys)) = Panic"
  proof cases
    case 1
    then show ?thesis using good_Panic [OF m 1] by (simp add: rbind_def)
  next
    case 2
    from good_OkE [OF m 2(1)] obtain us vs where
      u: "xs = us @ vs" "d1 = at (pre @ us) vs" "\<And>pre' ys. m (at pre' (us @ ys)) = Ok (x, at (pre' @ us) ys)"
      by blast
    then show ?thesis using good_Panic [OF f 2(2) [unfolded u(2)]] by (simp add: rbind_def)
  qed
qed

lemma good_rmap [good_intros]: "good_reader m \<Longrightarrow> good_reader (rmap f m)"
  unfolding rmap_def by (intro good_intros)

lemma good_rlift [good_intros, intro!]: "good_reader (rlift r)"
  by (cases r) (auto simp: rlift_def)

lemma good_rok_or [good_intros, intro!]: "good_reader (rok_or e x)"
  by (cases x) (auto simp: rok_or_def)

lemma good_if [good_intros]:
  "good_reader r \<Longrightarrow> good_reader s \<Longrightarrow> good_reader (if b then r else s)"
  by simp

lemma good_case_option [good_intros]:
  "good_reader r \<Longrightarrow> (\<And>x. good_reader (s x)) \<Longrightarrow> good_reader (case v of None \<Rightarrow> r | Some x \<Rightarrow> s x)"
  by (cases v) auto

lemma good_case_outcome [good_intros]:
  "(\<And>x. good_reader (r x)) \<Longrightarrow> (\<And>e. good_reader (s e)) \<Longrightarrow> good_reader t \<Longrightarrow>
   good_reader (case v of Ok x \<Rightarrow> r x | Err e \<Rightarrow> s e | Panic \<Rightarrow> t)"
  by (cases v) auto

lemma good_Let [good_intros]: "(\<And>x. good_reader (f x)) \<Longrightarrow> good_reader (let x = v in f x)"
  by (simp add: Let_def)

lemma good_rrep [good_intros]: "good_reader r \<Longrightarrow> good_reader (rrep n r)"
  by (induction n) (auto intro!: good_intros)

text \<open>The primitive readers are all of one shape: a number of bytes, and a function of them.\<close>

lemma rbind_check_eos:
  "rbind (check_eos n) f (at pre xs) = (if n \<le> length xs then f () (at pre xs) else Err UnexpectedEof)"
  by (simp add: rbind_def check_eos_def)

lemma advance_at: "n \<le> length xs \<Longrightarrow> advance n (at pre xs) = at (pre @ take n xs) (drop n xs)"
  by (simp add: advance_def at_def)

lemma good_fixed:
  assumes "\<And>pre xs. r (at pre xs) =
    (if n \<le> length xs then Ok (g (take n xs), at (pre @ take n xs) (drop n xs)) else Err UnexpectedEof)"
  shows "good_reader r"
proof (rule good_readerI)
  fix pre xs x d
  assume "r (at pre xs) = Ok (x, d)"
  then have n: "n \<le> length xs" "x = g (take n xs)" "d = at (pre @ take n xs) (drop n xs)"
    using assms [of pre xs] by (auto split: if_splits)
  then show "\<exists>us vs. xs = us @ vs \<and> d = at (pre @ us) vs \<and> (\<forall>pre' ys. r (at pre' (us @ ys)) = Ok (x, at (pre' @ us) ys))"
    by (intro exI [of _ "take n xs"] exI [of _ "drop n xs"]) (simp add: assms)
qed (auto simp: assms split: if_splits)

lemma nth_at [simp]:
  "(pre @ xs) ! length pre = xs ! 0" "(pre @ xs) ! Suc (length pre) = xs ! Suc 0"
  "(pre @ xs) ! Suc (Suc (length pre)) = xs ! 2"
  by (simp_all add: nth_append numeral_2_eq_2)

lemma read_u8_at: "read_u8 (at pre xs) =
    (if 1 \<le> length xs then Ok (hd (take 1 xs), at (pre @ take 1 xs) (drop 1 xs)) else Err UnexpectedEof)"
  unfolding read_u8_def rbind_check_eos by (cases xs) (simp_all add: advance_at, simp add: at_def)

definition u20_of :: "u8 list \<Rightarrow> u32" where
  "u20_of bs = or (or (push_bit 16 (and (ucast (bs ! 0)) 0x0F)) (push_bit 8 (ucast (bs ! 1)))) (ucast (bs ! 2))"

lemma take_explicit:
  "2 \<le> length xs \<Longrightarrow> take 2 xs = [xs ! 0, xs ! 1]"
  "4 \<le> length xs \<Longrightarrow> take 4 xs = [xs ! 0, xs ! 1, xs ! 2, xs ! 3]"
  by (auto simp: numeral_eq_Suc Suc_le_length_iff)

lemma read_u16_be_at: "read_u16_be (at pre xs) =
    (if 2 \<le> length xs then Ok (of_nat (be_nat (take 2 xs)), at (pre @ take 2 xs) (drop 2 xs)) else Err UnexpectedEof)"
proof (cases "2 \<le> length xs")
  case True
  then show ?thesis
    unfolding read_u16_be_def rbind_check_eos by (simp add: advance_at take_explicit) (simp add: at_def)
qed (simp add: read_u16_be_def rbind_check_eos)

lemma read_u20_be_at: "read_u20_be (at pre xs) =
    (if 3 \<le> length xs then Ok (u20_of (take 3 xs), at (pre @ take 3 xs) (drop 3 xs)) else Err UnexpectedEof)"
proof (cases "3 \<le> length xs")
  case True
  then show ?thesis
    unfolding read_u20_be_def rbind_check_eos
    by (simp add: advance_at u20_of_def Let_def) (simp add: at_def)
qed (simp add: read_u20_be_def rbind_check_eos)

lemma read_u32_be_at: "read_u32_be (at pre xs) =
    (if 4 \<le> length xs then Ok (of_nat (be_nat (take 4 xs)), at (pre @ take 4 xs) (drop 4 xs)) else Err UnexpectedEof)"
proof (cases "4 \<le> length xs")
  case True
  then show ?thesis
    unfolding read_u32_be_def rbind_check_eos
    by (simp add: advance_at take_explicit del: be_nat.simps) (simp add: at_def del: be_nat.simps)
qed (simp add: read_u32_be_def rbind_check_eos)

lemma read_bytes_at: "read_bytes n (at pre xs) =
    (if n \<le> length xs then Ok (take n xs, at (pre @ take n xs) (drop n xs)) else Err UnexpectedEof)"
  unfolding read_bytes_def rbind_check_eos by (simp add: advance_at slice_def) (simp add: at_def)

lemma good_read_u8 [good_intros, intro!]: "good_reader read_u8"
  by (rule good_fixed [OF read_u8_at])

lemma good_read_u16_be [good_intros, intro!]: "good_reader read_u16_be"
  by (rule good_fixed [OF read_u16_be_at])

lemma good_read_u20_be [good_intros, intro!]: "good_reader read_u20_be"
  by (rule good_fixed [OF read_u20_be_at])

lemma good_read_u32_be [good_intros, intro!]: "good_reader read_u32_be"
  by (rule good_fixed [OF read_u32_be_at])

lemma good_read_bytes [good_intros, intro!]: "good_reader (read_bytes n)"
  by (rule good_fixed [where n = n and g = "\<lambda>x. x"]) (rule read_bytes_at)

lemma good_read_string [good_intros, intro!]: "good_reader (read_string E n)"
  unfolding read_string_def by (intro good_intros)

lemma good_read_list_size [good_intros, intro!]: "good_reader (read_list_size tag)"
  unfolding read_list_size_def by (intro good_intros)

lemma good_read_packed [good_intros, intro!]: "good_reader (read_packed E tag)"
  unfolding read_packed_def by (intro good_intros)

lemma good_read_jid_pair [good_intros]: "good_reader rs \<Longrightarrow> good_reader (read_jid_pair rs)"
  unfolding read_jid_pair_def by (intro good_intros)

lemma good_read_ad_jid [good_intros]: "good_reader rs \<Longrightarrow> good_reader (read_ad_jid rs)"
  unfolding read_ad_jid_def by (intro good_intros)

lemma good_read_interop_jid [good_intros]: "good_reader rs \<Longrightarrow> good_reader (read_interop_jid rs)"
  unfolding read_interop_jid_def by (intro good_intros)

lemma good_read_fb_jid [good_intros]: "good_reader rs \<Longrightarrow> good_reader (read_fb_jid rs)"
  unfolding read_fb_jid_def by (intro good_intros)

lemma good_from_tag [good_intros]:
  "good_reader rs \<Longrightarrow> good_reader (read_value_as_string_from_tag E rs tag)"
  unfolding read_value_as_string_from_tag_def by (intro good_intros)

lemma good_read_str_n [good_intros, intro!]: "good_reader (read_str_n E n)"
  by (induction n) (auto intro!: good_intros)

lemma good_read_value_as_string [good_intros, intro!]: "good_reader (read_value_as_string E)"
  unfolding read_value_as_string_def by (intro good_intros)

lemma good_read_value [good_intros, intro!]: "good_reader (read_value E)"
  unfolding read_value_def by (intro good_intros)

lemma good_read_attribute [good_intros, intro!]: "good_reader (read_attribute E)"
  unfolding read_attribute_def by (intro good_intros)

lemma good_read_attributes [good_intros, intro!]: "good_reader (read_attributes E n)"
  unfolding read_attributes_def by (intro good_intros)

lemma good_read_content [good_intros]: "good_reader child \<Longrightarrow> good_reader (read_content_from_tag E child tag)"
  unfolding read_content_from_tag_def by (intro good_intros)

lemma good_read_node_open [good_intros, intro!]: "good_reader (read_node_open E)"
  unfolding read_node_open_def by (intro good_intros)

lemma good_case_open [good_intros]:
  "good_reader r \<Longrightarrow> (\<And>n. good_reader (s n)) \<Longrightarrow> (\<And>c. good_reader (t c)) \<Longrightarrow>
   good_reader (case v of ONone \<Rightarrow> r | OChildren n \<Rightarrow> s n | OScalar c \<Rightarrow> t c)"
  by (cases v) auto

lemma good_read_node_ref_at [good_intros, intro!]: "good_reader (read_node_ref_at E depth)"
proof (induction E depth rule: read_node_ref_at.induct)
  case (1 E depth)
  show ?case
  proof (cases "128 \<le> depth")
    case True
    then show ?thesis by (subst read_node_ref_at.simps) (simp add: good_rfail)
  next
    case False
    have "open_content \<lparr>open_tag = [], open_attrs = [], open_content = OChildren 0\<rparr> = OChildren 0" by simp
    note [good_intros] = 1 [OF False this]
    show ?thesis
      by (subst read_node_ref_at.simps) (intro good_intros)
  qed
qed

lemma good_drop_value [good_intros]: "good_reader r \<Longrightarrow> good_reader (drop_value r)"
  unfolding drop_value_def by (intro good_intros)

lemma good_skip_value_from_tag [good_intros, intro!]: "good_reader (skip_value_from_tag E tag)"
  unfolding skip_value_from_tag_def by (intro good_intros)

lemma good_skip_node_open [good_intros, intro!]: "good_reader (skip_node_open E)"
  unfolding skip_node_open_def skip_attribute_def skip_value_def skip_scalar_content_def by (intro good_intros)

lemma good_skip_node_at [good_intros, intro!]: "good_reader (skip_node_at E depth)"
proof (induction E depth rule: skip_node_at.induct)
  case (1 E depth)
  show ?case
  proof (cases "128 \<le> depth")
    case True
    then show ?thesis by (subst skip_node_at.simps) (simp add: good_rfail)
  next
    case False
    note [good_intros] = 1 [OF False]
    show ?thesis by (subst skip_node_at.simps) (intro good_intros)
  qed
qed


section \<open>Panic freedom\<close>

text \<open>
  A reader is safe on \<open>k\<close> bytes when it does not panic on any input with at most \<open>k\<close> left.
\<close>

definition safe :: "nat \<Rightarrow> 'a reader \<Rightarrow> bool" where
  "safe k r \<longleftrightarrow> (\<forall>pre xs. length xs \<le> k \<longrightarrow> r (at pre xs) \<noteq> Panic)"

named_theorems safe_intros \<open>readers that do not panic\<close>

lemma safe_rpure [safe_intros]: "safe k (rpure x)"
  by (simp add: safe_def rpure_def)

lemma safe_rfail [safe_intros]: "safe k (rfail e)"
  by (simp add: safe_def rfail_def)

lemma safe_rbind [safe_intros]:
  assumes "good_reader m" "safe k m" "\<And>x. safe k (f x)"
  shows "safe k (rbind m f)"
  unfolding safe_def
proof (intro allI impI notI)
  fix pre xs
  assume xs: "length xs \<le> k" and "rbind m f (at pre xs) = Panic"
  then consider "m (at pre xs) = Panic" | x d1 where "m (at pre xs) = Ok (x, d1)" "f x d1 = Panic"
    by (auto simp: rbind_def obind_eq_Panic)
  then show False
  proof cases
    case 1
    then show ?thesis using assms(2) xs by (simp add: safe_def)
  next
    case 2
    from good_OkE [OF assms(1) 2(1)] obtain us vs where "xs = us @ vs" "d1 = at (pre @ us) vs" by metis
    then show ?thesis using assms(3) [of x] xs 2(2) by (simp add: safe_def)
  qed
qed

text \<open>Behind the first byte one byte less is left.\<close>

lemma safe_read_u8_bind:
  assumes "\<And>x. safe k (f x)"
  shows "safe (Suc k) (rbind read_u8 f)"
  unfolding safe_def using assms
  by (auto simp: rbind_def read_u8_at safe_def)

lemma safe_rmap [safe_intros]: "good_reader m \<Longrightarrow> safe k m \<Longrightarrow> safe k (rmap f m)"
  unfolding rmap_def by (intro safe_intros)

lemma safe_if [safe_intros]: "safe k r \<Longrightarrow> safe k s \<Longrightarrow> safe k (if b then r else s)"
  by simp

lemma safe_case_option [safe_intros]:
  "safe k r \<Longrightarrow> (\<And>x. safe k (s x)) \<Longrightarrow> safe k (case v of None \<Rightarrow> r | Some x \<Rightarrow> s x)"
  by (cases v) auto

lemma safe_case_outcome [safe_intros]:
  "(\<And>x. safe k (r x)) \<Longrightarrow> (\<And>e. safe k (s e)) \<Longrightarrow> safe k t \<Longrightarrow>
   safe k (case v of Ok x \<Rightarrow> r x | Err e \<Rightarrow> s e | Panic \<Rightarrow> t)"
  by (cases v) auto

lemma safe_case_open [safe_intros]:
  "safe k r \<Longrightarrow> (\<And>n. safe k (s n)) \<Longrightarrow> (\<And>c. safe k (t c)) \<Longrightarrow>
   safe k (case v of ONone \<Rightarrow> r | OChildren n \<Rightarrow> s n | OScalar c \<Rightarrow> t c)"
  by (cases v) auto

lemma safe_rrep [safe_intros]: "good_reader r \<Longrightarrow> safe k r \<Longrightarrow> safe k (rrep n r)"
  by (induction n) (auto intro!: safe_intros good_intros)

lemma safe_rlift [safe_intros]: "r \<noteq> Panic \<Longrightarrow> safe k (rlift r)"
  by (cases r) (auto simp: rlift_def intro: safe_intros)

lemma safe_primitives [safe_intros]:
  "safe k read_u8" "safe k read_u16_be" "safe k read_u20_be" "safe k read_u32_be" "safe k (read_bytes n)"
  by (simp_all add: safe_def read_u8_at read_u16_be_at read_u20_be_at read_u32_be_at read_bytes_at)

lemma safe_read_string [safe_intros]: "safe k (read_string E n)"
  unfolding read_string_def by (intro safe_intros good_intros) (simp add: std_from_utf8_def)

lemma safe_read_list_size [safe_intros]: "safe k (read_list_size tag)"
  unfolding read_list_size_def by (intro safe_intros good_intros)

text \<open>What the unpackers write is ASCII, as the validator then finds.\<close>

definition utf8_exact :: "codec_env \<Rightarrow> bool" where
  "utf8_exact E \<longleftrightarrow> (\<forall>bs. smooth_utf8 E bs = utf8_valid bs)"

lemma hex_pair_ascii: "list_all (\<lambda>c. c < 128) (hex_pair b)"
  by (rule u8_all [of "\<lambda>b. list_all (\<lambda>c. c < 128) (hex_pair b)"]) code_simp

lemma nibble_pair_ascii: "0xFF \<notin> set (nibble_pair b) \<Longrightarrow> list_all (\<lambda>c. c < 128) (nibble_pair b)"
  by (rule u8_all [of "\<lambda>b. 0xFF \<notin> set (nibble_pair b) \<longrightarrow> list_all (\<lambda>c. c < 128) (nibble_pair b)",
      THEN mp]) code_simp

text \<open>A byte with a hole in it is always reported.\<close>

definition nibble_report :: "u8 \<Rightarrow> (binary_error, unit) outcome" where
  "nibble_report b =
     obind (unpack_nibble (drop_bit 4 (and b 0xF0))) (\<lambda>_. obind (unpack_nibble (and b 0x0F)) (\<lambda>_. Ok ()))"

lemma nibble_report_bad:
  assumes "0xFF \<in> set (nibble_pair b)"
  shows "\<exists>e. nibble_report b = Err e"
proof -
  have "0xFF \<in> set (nibble_pair b) \<longrightarrow> (case nibble_report b of Err _ \<Rightarrow> True | _ \<Rightarrow> False)"
    by (rule u8_all [of "\<lambda>b. 0xFF \<in> set (nibble_pair b) \<longrightarrow>
        (case nibble_report b of Err _ \<Rightarrow> True | _ \<Rightarrow> False)"]) code_simp
  with assms show ?thesis by (cases "nibble_report b") simp_all
qed

lemma nibble_loop_Cons:
  "nibble_loop (b # bs) =
     obind (if 0xFF \<in> set (nibble_pair b) then nibble_report b else Ok ()) (\<lambda>_.
     omap (\<lambda>out. nibble_pair b @ out) (nibble_loop bs))"
  by (simp only: nibble_loop.simps nibble_report_def)

declare nibble_loop.simps(2) [simp del]

lemma nibble_loop_find:
  "nibble_loop bs =
     (case find (\<lambda>b. 0xFF \<in> set (nibble_pair b)) bs of
        Some b \<Rightarrow> obind (nibble_report b) (\<lambda>_. Ok [])
      | None \<Rightarrow> Ok (concat (map nibble_pair bs)))"
proof (induction bs)
  case (Cons b bs)
  show ?case
  proof (cases "0xFF \<in> set (nibble_pair b)")
    case True
    then obtain e where "nibble_report b = Err e" using nibble_report_bad by blast
    with True show ?thesis by (simp add: nibble_loop_Cons)
  next
    case False
    show ?thesis
    proof (cases "find (\<lambda>b. 0xFF \<in> set (nibble_pair b)) bs")
      case (Some c)
      then have "0xFF \<in> set (nibble_pair c)" by (auto simp: find_Some_iff)
      then obtain e where "nibble_report c = Err e" using nibble_report_bad by blast
      with False Some Cons show ?thesis by (simp add: nibble_loop_Cons)
    next
      case None
      with False Cons show ?thesis by (simp add: nibble_loop_Cons)
    qed
  qed
qed simp

lemma nibble_report_not_Panic: "nibble_report b \<noteq> Panic"
  by (simp add: nibble_report_def obind_eq_Panic unpack_nibble_def)

lemma decode_packed_ascii:
  assumes "length packed \<le> 127"
  shows "decode_packed_hex packed = Ok (concat (map hex_pair packed))"
    and "list_all (\<lambda>c. c < 128) (concat (map hex_pair packed))"
    and "decode_packed_nibble packed \<noteq> Panic"
    and "decode_packed_nibble packed = Ok out \<Longrightarrow> list_all (\<lambda>c. c < 128) out"
proof -
  show "decode_packed_hex packed = Ok (concat (map hex_pair packed))"
    using assms by (simp add: decode_packed_hex_def)
  show "list_all (\<lambda>c. c < 128) (concat (map hex_pair packed))"
    using hex_pair_ascii by (auto simp: list_all_iff)
  show "decode_packed_nibble packed \<noteq> Panic"
    using assms nibble_report_not_Panic
    by (auto simp: decode_packed_nibble_def nibble_loop_find obind_eq_Panic split: option.splits)
  assume o: "decode_packed_nibble packed = Ok out"
  show "list_all (\<lambda>c. c < 128) out"
  proof (cases "find (\<lambda>b. 0xFF \<in> set (nibble_pair b)) packed")
    case (Some c)
    then have "0xFF \<in> set (nibble_pair c)" by (auto simp: find_Some_iff)
    then obtain e where "nibble_report c = Err e" using nibble_report_bad by blast
    with o Some assms show ?thesis by (simp add: decode_packed_nibble_def nibble_loop_find)
  next
    case None
    with o assms have "out = concat (map nibble_pair packed)"
      by (simp add: decode_packed_nibble_def nibble_loop_find)
    moreover have "\<forall>b \<in> set packed. 0xFF \<notin> set (nibble_pair b)" using None by (simp add: find_None_iff)
    ultimately show ?thesis using nibble_pair_ascii by (auto simp: list_all_iff)
  qed
qed

lemma ascii_take: "list_all P xs \<Longrightarrow> list_all P (take n xs)"
  by (auto simp: list_all_iff dest: in_set_takeD)

lemma safe_read_bytes_bind:
  assumes "\<And>bs. length bs = n \<Longrightarrow> safe k (f bs)"
  shows "safe k (rbind (read_bytes n) f)"
  unfolding safe_def
proof (intro allI impI)
  fix pre xs :: "u8 list"
  assume "length xs \<le> k"
  then show "rbind (read_bytes n) f (at pre xs) \<noteq> Panic"
    using assms [of "take n xs"] by (auto simp: rbind_def read_bytes_at safe_def)
qed

lemma packed_len: "unat (and (b :: u8) 0x7F) \<le> 127"
  using word_and_le1 [where y = b and a = "0x7F"] by (simp add: word_le_nat_alt)

lemma safe_read_packed [safe_intros]:
  assumes "utf8_exact E"
  shows "safe k (read_packed E tag)"
proof -
  have ascii: "list_all (\<lambda>c. c < 128) out \<Longrightarrow>
      safe k (let out' = (if half \<and> 0 < length out then take (length out - 1) out else out) in
        if smooth_utf8 E out' then rpure out' else rpanic)" for out half
    using assms by (auto simp: utf8_exact_def utf8_valid_ascii ascii_take safe_rpure)
  have "safe k (rbind (if tag = HEX_8 then rlift (decode_packed_hex packed)
               else if tag = NIBBLE_8 then rlift (decode_packed_nibble packed)
               else rfail (InvalidToken tag)) (\<lambda>buf.
        (let out = (if half \<and> 0 < length buf then take (length buf - 1) buf else buf) in
         if smooth_utf8 E out then rpure out else rpanic)))"
    if "length packed \<le> 127" for packed half
  proof -
    note d = decode_packed_ascii [OF that]
    have "rbind (rlift (Ok x)) f = f x" "rbind (rlift (Err e)) f = rfail e" "rbind (rfail e) f = rfail e"
      for x e and f :: "u8 list \<Rightarrow> str reader"
      by (auto simp: rbind_def rlift_def rpure_def rfail_def fun_eq_iff)
    note l = this
    show ?thesis
    proof (cases "tag = HEX_8")
      case True
      show ?thesis unfolding if_P [OF True] d(1) l by (rule ascii [OF d(2)])
    next
      case hex: False
      show ?thesis
      proof (cases "tag = NIBBLE_8")
        case True
        show ?thesis
        proof (cases "decode_packed_nibble packed")
          case (Ok out)
          show ?thesis unfolding if_not_P [OF hex] if_P [OF True] Ok l by (rule ascii [OF d(4) [OF Ok]])
        next
          case (Err e)
          show ?thesis unfolding if_not_P [OF hex] if_P [OF True] Err l by (rule safe_rfail)
        qed (use d(3) in simp)
      next
        case False
        show ?thesis unfolding if_not_P [OF hex] if_not_P [OF False] l by (rule safe_rfail)
      qed
    qed
  qed
  note inner = this [unfolded Let_def]
  show ?thesis
    unfolding read_packed_def Let_def
    by (rule safe_rbind [OF good_read_u8 safe_primitives(1)], rule safe_if [OF safe_rpure safe_read_bytes_bind],
        rule inner) (simp add: packed_len)
qed

lemma safe_jid_readers:
  assumes "good_reader rs" "safe k rs"
  shows "safe k (read_jid_pair rs)" "safe k (read_ad_jid rs)" "safe k (read_interop_jid rs)" "safe k (read_fb_jid rs)"
  unfolding read_jid_pair_def read_ad_jid_def read_interop_jid_def read_fb_jid_def
  by (intro safe_intros good_intros assms)+

lemma safe_from_tag:
  assumes "utf8_exact E" "good_reader rs" "safe k rs"
  shows "safe k (read_value_as_string_from_tag E rs tag)"
  unfolding read_value_as_string_from_tag_def
  by (intro safe_intros good_intros safe_jid_readers assms)

lemma safe_read_str_n:
  assumes "utf8_exact E"
  shows "k < n \<Longrightarrow> safe k (read_str_n E n)"
proof (induction n arbitrary: k)
  case (Suc n)
  show ?case
  proof (cases k)
    case 0
    then show ?thesis by (simp add: safe_def rbind_def read_u8_at)
  next
    case (Suc k')
    then have "safe k' (read_str_n E n)" using Suc.IH [of k'] Suc.prems by simp
    then show ?thesis
      unfolding Suc read_str_n.simps by (intro safe_read_u8_bind safe_from_tag assms good_read_str_n)
  qed
qed simp

lemma safe_read_value_as_string [safe_intros]:
  "utf8_exact E \<Longrightarrow> k < str_frames E \<Longrightarrow> safe k (read_value_as_string E)"
  unfolding read_value_as_string_def by (rule safe_read_str_n)

lemma safe_read_value [safe_intros]:
  "utf8_exact E \<Longrightarrow> k < str_frames E \<Longrightarrow> safe k (read_value E)"
  unfolding read_value_def by (intro safe_intros good_intros safe_jid_readers)

lemma safe_read_attributes [safe_intros]:
  "utf8_exact E \<Longrightarrow> k < str_frames E \<Longrightarrow> safe k (read_attributes E n)"
  unfolding read_attributes_def read_attribute_def by (intro safe_intros good_intros)

lemma read_content_scalar:
  "tag \<noteq> LIST_8 \<Longrightarrow> tag \<noteq> LIST_16 \<Longrightarrow> read_content_from_tag E c tag = read_content_from_tag E c' tag"
  by (simp add: read_content_from_tag_def)

lemma safe_read_content:
  "utf8_exact E \<Longrightarrow> k < str_frames E \<Longrightarrow> good_reader c \<Longrightarrow> safe k c \<Longrightarrow> safe k (read_content_from_tag E c tag)"
  unfolding read_content_from_tag_def by (intro safe_intros good_intros safe_from_tag)

lemma safe_read_node_open [safe_intros]:
  assumes "utf8_exact E" "k < str_frames E"
  shows "safe k (read_node_open E)"
proof -
  have c: "safe k (if t = LIST_EMPTY then rpure ONone
      else if t = LIST_8 \<or> t = LIST_16 then rmap OChildren (read_list_size t)
      else rbind (read_content_from_tag E rpanic t) (\<lambda>c.
        rpure (case c of Some scalar \<Rightarrow> OScalar scalar | None \<Rightarrow> ONone)))" for t
  proof (cases "t = LIST_8 \<or> t = LIST_16")
    case True
    then show ?thesis by (auto intro!: safe_intros good_intros)
  next
    case False
    then have "read_content_from_tag E rpanic t = read_content_from_tag E (rpure (Node [] [] None)) t"
      by (intro read_content_scalar) auto
    then show ?thesis
      by (simp only:) (intro safe_intros good_intros safe_read_content assms)
  qed
  show ?thesis
    unfolding read_node_open_def
    by (intro safe_rbind [OF good_read_u8] safe_rbind [OF good_read_list_size]
        safe_rbind [OF good_read_value_as_string] safe_rbind [OF good_read_attributes]
        safe_if safe_case_option c safe_rpure safe_rfail safe_primitives safe_read_list_size
        safe_read_value_as_string safe_read_attributes assms safe_rbind good_intros)
qed

lemma safe_read_node_ref_at [safe_intros]:
  assumes "utf8_exact E" "k < str_frames E"
  shows "safe k (read_node_ref_at E depth)"
  using assms
proof (induction E depth rule: read_node_ref_at.induct)
  case (1 E depth)
  show ?case
  proof (cases "128 \<le> depth")
    case True
    then show ?thesis by (subst read_node_ref_at.simps) (simp add: safe_rfail)
  next
    case False
    have "open_content \<lparr>open_tag = [], open_attrs = [], open_content = OChildren 0\<rparr> = OChildren 0" by simp
    note [safe_intros] = "1.IH" [OF False this "1.prems"]
    show ?thesis
      by (subst read_node_ref_at.simps) (intro safe_intros good_intros "1.prems")
  qed
qed

end
