(* ===== verification/Decoder_Laws.thy ===== *)
theory Decoder_Laws
  imports Decoder
begin

text \<open>
  What the decoder promises: the walker that measures a node mirrors the reader that builds it;
  decoding never panics while the stack has room for the input; a value that was read stays read
  when more data arrives; decoded text is UTF-8; trees are no deeper than the cap and no larger
  than the input pays for.
\<close>

unbundle bit_operations_syntax

section \<open>Agreement of readers\<close>

text \<open>Two readers agree on inputs of at most \<open>k\<close> bytes.\<close>

definition agree :: "nat \<Rightarrow> 'a reader \<Rightarrow> 'a reader \<Rightarrow> bool" where
  "agree k r s \<longleftrightarrow> (\<forall>pre xs. length xs \<le> k \<longrightarrow> r (at pre xs) = s (at pre xs))"

named_theorems agree_intros \<open>introduction rules for \<open>agree\<close>\<close>

lemma agreeD: "agree k r s \<Longrightarrow> length xs \<le> k \<Longrightarrow> r (at pre xs) = s (at pre xs)"
  by (simp add: agree_def)

lemma agree_refl [agree_intros, simp]: "agree k r r"
  by (simp add: agree_def)

lemma agree_sym: "agree k r s \<Longrightarrow> agree k s r"
  by (simp add: agree_def)

lemma agree_trans [trans]: "agree k r s \<Longrightarrow> agree k s t \<Longrightarrow> agree k r t"
  by (simp add: agree_def)

text \<open>Where a good reader leaves the input: a suffix of what it got.\<close>

lemma good_OkE':
  assumes "good_reader m" "m (at pre xs) = Ok (x, d)"
  obtains ys zs where "xs = ys @ zs" "d = at (pre @ ys) zs"
  using good_OkE [OF assms] by metis

lemma agree_rbind [agree_intros]:
  assumes "good_reader m" "agree k m m'" "\<And>x. agree k (f x) (f' x)"
  shows "agree k (rbind m f) (rbind m' f')"
  unfolding agree_def
proof (intro allI impI)
  fix pre xs assume l: "length (xs :: u8 list) \<le> k"
  show "rbind m f (at pre xs) = rbind m' f' (at pre xs)"
  proof (cases "m (at pre xs)")
    case (Ok r)
    obtain x d where r: "r = (x, d)" by (cases r)
    from good_OkE' [OF assms(1) Ok [unfolded r]] obtain ys zs where
      "xs = ys @ zs" "d = at (pre @ ys) zs" by metis
    moreover have "m' (at pre xs) = Ok (x, d)" using Ok r agreeD [OF assms(2) l, of pre] by simp
    ultimately show ?thesis
      using l Ok r agreeD [OF assms(3) [of x], of zs "pre @ ys"] by (simp add: rbind_def)
  qed (use agreeD [OF assms(2) l, of pre] in \<open>simp_all add: rbind_def\<close>)
qed

text \<open>Behind a byte one byte less is left.\<close>

lemma agree_read_u8:
  assumes "\<And>x. 0 < k \<Longrightarrow> agree (k - 1) (f x) (f' x)"
  shows "agree k (rbind read_u8 f) (rbind read_u8 f')"
  unfolding agree_def
proof (intro allI impI)
  fix pre xs assume l: "length (xs :: u8 list) \<le> k"
  show "rbind read_u8 f (at pre xs) = rbind read_u8 f' (at pre xs)"
  proof (cases xs)
    case (Cons x ys)
    with l agreeD [OF assms [of x], of ys "pre @ [x]"] show ?thesis by (simp add: rbind_def read_u8_at)
  qed (simp add: rbind_def read_u8_at)
qed

lemma agree_rmap [agree_intros]: "good_reader m \<Longrightarrow> agree k m m' \<Longrightarrow> agree k (rmap f m) (rmap f m')"
  unfolding rmap_def by (intro agree_intros)

lemma agree_drop_value [agree_intros]: "good_reader m \<Longrightarrow> agree k m m' \<Longrightarrow> agree k (drop_value m) (drop_value m')"
  unfolding drop_value_def by (intro agree_intros)

lemma agree_if [agree_intros]:
  "(b \<Longrightarrow> agree k r r') \<Longrightarrow> (\<not> b \<Longrightarrow> agree k s s') \<Longrightarrow> agree k (if b then r else s) (if b then r' else s')"
  by simp

lemma agree_case_option [agree_intros]:
  "agree k r r' \<Longrightarrow> (\<And>x. agree k (s x) (s' x)) \<Longrightarrow>
   agree k (case v of None \<Rightarrow> r | Some x \<Rightarrow> s x) (case v of None \<Rightarrow> r' | Some x \<Rightarrow> s' x)"
  by (cases v) simp_all

lemma agree_rrep [agree_intros]: "good_reader r \<Longrightarrow> agree k r s \<Longrightarrow> agree k (rrep n r) (rrep n s)"
  by (induction n) (auto intro!: agree_intros good_intros)

lemma agree_mono: "agree k r s \<Longrightarrow> j \<le> k \<Longrightarrow> agree j r s"
  by (simp add: agree_def)

text \<open>Every frame count above the input length gives the same string reader.\<close>

lemma agree_jid_readers:
  assumes "good_reader rs" "agree k rs rs'"
  shows "agree k (read_jid_pair rs) (read_jid_pair rs')"
    and "agree k (read_ad_jid rs) (read_ad_jid rs')"
    and "agree k (read_interop_jid rs) (read_interop_jid rs')"
    and "agree k (read_fb_jid rs) (read_fb_jid rs')"
  unfolding read_jid_pair_def read_ad_jid_def read_interop_jid_def read_fb_jid_def
  by (intro agree_intros good_intros assms)+

lemma agree_from_tag:
  assumes "good_reader rs" "agree k rs rs'"
  shows "agree k (read_value_as_string_from_tag E rs tag) (read_value_as_string_from_tag E rs' tag)"
  unfolding read_value_as_string_from_tag_def
  by (intro agree_intros good_intros agree_jid_readers assms)

lemma agree_read_str_n: "k < n \<Longrightarrow> k < m \<Longrightarrow> agree k (read_str_n E n) (read_str_n E m)"
proof (induction k arbitrary: n m rule: less_induct)
  case (less k)
  from less.prems obtain n' m' where nm: "n = Suc n'" "m = Suc m'" by (cases n; cases m) auto
  show ?case unfolding nm read_str_n.simps
    by (intro agree_read_u8 agree_from_tag good_intros less.IH) (use less.prems nm in auto)
qed

section \<open>Skipping mirrors reading\<close>

lemma rbind_assoc: "rbind (rbind m f) g = rbind m (\<lambda>x. rbind (f x) g)"
  by (rule ext) (auto simp: rbind_def obind_assoc intro!: obind_cong)

lemma rbind_rpure [simp]: "rbind (rpure x) f = f x" "rbind (rfail e) f' = rfail e" "rbind rpanic f' = rpanic"
  by (auto simp: fun_eq_iff rbind_def rpure_def rfail_def rpanic_def)

lemma rbind_rpure_right: "rbind m rpure = m"
  by (rule ext) (simp add: rbind_def rpure_def obind_Ok_right split_beta prod_eq_iff)

lemma drop_rbind: "drop_value (rbind m f) = rbind m (\<lambda>x. drop_value (f x))"
  by (simp add: drop_value_def rmap_def rbind_assoc)

lemma drop_simps [simp]:
  "drop_value (rpure x) = rpure ()" "drop_value (rfail e) = rfail e" "drop_value (rmap g m) = drop_value m"
  by (simp_all add: drop_value_def rmap_def rbind_assoc)

lemma drop_if: "drop_value (if b then r else s) = (if b then drop_value r else drop_value s)"
  by simp

lemma drop_case_option:
  "drop_value (case v of None \<Rightarrow> r | Some x \<Rightarrow> s x) = (case v of None \<Rightarrow> drop_value r | Some x \<Rightarrow> drop_value (s x))"
  by (cases v) simp_all

lemma rbind_drop: "rbind (drop_value m) (\<lambda>_. r) = rbind m (\<lambda>_. r)"
  by (simp add: drop_value_def rmap_def rbind_assoc)

lemma drop_case_rok: "drop_value (rok_or e v) = drop_value (case v of Some x \<Rightarrow> rpure (g x) | None \<Rightarrow> rfail e)"
  by (cases v) (simp_all add: rok_or_def)

text \<open>Values read by a reader satisfy a predicate.\<close>

definition yields :: "('a \<Rightarrow> bool) \<Rightarrow> 'a reader \<Rightarrow> bool" where
  "yields P r \<longleftrightarrow> (\<forall>d x d'. r d = Ok (x, d') \<longrightarrow> P x)"

named_theorems yields_intros \<open>introduction rules for \<open>yields\<close>\<close>

lemma yields_rpure [yields_intros]: "P x \<Longrightarrow> yields P (rpure x)"
  by (simp add: yields_def rpure_def)

lemma yields_rfail [yields_intros]: "yields P (rfail e)" "yields P rpanic"
  by (simp_all add: yields_def rfail_def rpanic_def)

lemma yields_rbind:
  assumes "yields Q m" "\<And>x. Q x \<Longrightarrow> yields P (f x)"
  shows "yields P (rbind m f)"
  using assms by (fastforce simp: yields_def rbind_def obind_eq_Ok)

lemma yields_rmap [yields_intros]: "yields (\<lambda>x. P (f x)) m \<Longrightarrow> yields P (rmap f m)"
  by (fastforce simp: yields_def rmap_def rbind_def rpure_def obind_eq_Ok)

lemma yields_True [yields_intros, simp]: "yields (\<lambda>x. True) m"
  by (simp add: yields_def)

lemma yields_if [yields_intros]:
  "(b \<Longrightarrow> yields P r) \<Longrightarrow> (\<not> b \<Longrightarrow> yields P s) \<Longrightarrow> yields P (if b then r else s)"
  by simp

lemma yields_case_option [yields_intros]:
  "yields P r \<Longrightarrow> (\<And>x. v = Some x \<Longrightarrow> yields P (s x)) \<Longrightarrow> yields P (case v of None \<Rightarrow> r | Some x \<Rightarrow> s x)"
  by (cases v) simp_all

text \<open>A step that reads, and one that only walks past, followed by agreeing continuations.\<close>

lemma agree_skip:
  assumes "good_reader m" "agree k (drop_value s) (drop_value m)" "yields P m" "\<And>x. P x \<Longrightarrow> agree k t (f x)"
  shows "agree k (rbind s (\<lambda>_. t)) (rbind m f)"
  unfolding agree_def
proof (intro allI impI)
  fix pre xs assume l: "length (xs :: u8 list) \<le> k"
  note s = agreeD [OF assms(2) l, of pre]
  show "rbind s (\<lambda>_. t) (at pre xs) = rbind m f (at pre xs)"
  proof (cases "m (at pre xs)")
    case (Ok r)
    obtain x d where r: "r = (x, d)" by (cases r)
    from good_OkE' [OF assms(1) Ok [unfolded r]] obtain ys zs where
      "xs = ys @ zs" "d = at (pre @ ys) zs" by metis
    moreover obtain u where "s (at pre xs) = Ok (u, d)"
      using Ok r s by (auto simp: drop_value_def rmap_def rbind_def rpure_def obind_eq_Ok)
    moreover have "P x" using assms(3) Ok r unfolding yields_def by blast
    ultimately show ?thesis
      using l Ok r agreeD [OF assms(4) [of x], of zs "pre @ ys"] by (simp add: rbind_def)
  qed (use s in \<open>auto simp: rbind_def drop_value_def rmap_def rpure_def obind_eq_Err obind_eq_Panic\<close>)
qed

lemma drop_unit [simp]: "drop_value (s :: unit reader) = s"
proof -
  have "(\<lambda>_ :: unit. rpure ()) = rpure" by (rule ext) simp
  then show ?thesis by (simp add: drop_value_def rmap_def rbind_rpure_right)
qed

lemma drop_rrep: "drop_value (rrep (Suc n) r) = rbind r (\<lambda>_. drop_value (rrep n r))"
  by (simp add: drop_value_def rmap_def rbind_assoc)

lemma agree_drop_rrep:
  assumes "good_reader s" "agree k (drop_value r) (drop_value s)"
  shows "agree k (drop_value (rrep n r)) (drop_value (rrep n s))"
proof (induction n)
  case (Suc n)
  show ?case unfolding drop_rrep
    by (rule agree_skip [where P = "\<lambda>_. True", OF assms yields_True Suc])
qed simp

lemma from_tag_Some: "tag \<noteq> 0 \<Longrightarrow> yields (\<lambda>x. x \<noteq> None) (read_value_as_string_from_tag E rs tag)"
  unfolding read_value_as_string_from_tag_def
  by (auto intro!: yields_intros yields_rbind [where Q = "\<lambda>_. True"])

lemma agree_rbind_same:
  assumes "good_reader m" "yields P m" "\<And>x. P x \<Longrightarrow> agree k (f x) (f' x)"
  shows "agree k (rbind m f) (rbind m f')"
  unfolding agree_def
proof (intro allI impI)
  fix pre xs assume l: "length (xs :: u8 list) \<le> k"
  show "rbind m f (at pre xs) = rbind m f' (at pre xs)"
  proof (cases "m (at pre xs)")
    case (Ok r)
    obtain x d where r: "r = (x, d)" by (cases r)
    from good_OkE' [OF assms(1) Ok [unfolded r]] obtain ys zs where
      "xs = ys @ zs" "d = at (pre @ ys) zs" by metis
    moreover have "P x" using assms(2) Ok r unfolding yields_def by blast
    ultimately show ?thesis
      using l Ok r agreeD [OF assms(3) [of x], of zs "pre @ ys"] by (simp add: rbind_def)
  qed (simp_all add: rbind_def)
qed

lemma yields_read_bytes: "yields (\<lambda>bs. length bs = n) (read_bytes n)"
  by (auto simp: yields_def read_bytes_def rbind_def check_eos_def bytes_left_def slice_def)

lemma packed_check:
  assumes "utf8_exact E" "length packed \<le> 127" "tag = NIBBLE_8 \<or> tag = HEX_8"
  shows "(case (if tag = NIBBLE_8 then find (\<lambda>b. NIBBLE_INVALID \<in> set (nibble_pair b)) packed else None) of
           Some b \<Rightarrow> rbind (rlift (unpack_nibble (drop_bit 4 (b AND 0xF0)))) (\<lambda>_.
                     rbind (rlift (unpack_nibble (b AND 0x0F))) (\<lambda>_. rpure ()))
         | None \<Rightarrow> rpure ()) =
    rbind (if tag = HEX_8 then rlift (decode_packed_hex packed)
               else if tag = NIBBLE_8 then rlift (decode_packed_nibble packed)
               else rfail (InvalidToken tag)) (\<lambda>buf.
        drop_value (let out = (if half \<and> 0 < length buf then take (length buf - 1) buf else buf) in
         if smooth_utf8 E out then rpure out else rpanic))"
    (is "?skip = rbind _ ?rest")
proof -
  have rest: "?rest buf = rpure ()" if "list_all (\<lambda>c. c < 128) buf" for buf
    using that assms(1) ascii_take [OF that, of "length buf - 1"]
    by (simp add: Let_def utf8_exact_def utf8_valid_ascii)
  show ?thesis
  proof (cases "tag = HEX_8")
    case True
    then show ?thesis
      using rest [OF decode_packed_ascii(2) [OF assms(2)]] by (simp add: decode_packed_ascii(1) [OF assms(2)] rlift_def)
  next
    case False
    with assms(3) have tag: "tag = NIBBLE_8" by simp
    show ?thesis
    proof (cases "find (\<lambda>b. NIBBLE_INVALID \<in> set (nibble_pair b)) packed")
      case (Some c)
      then have "0xFF \<in> set (nibble_pair c)" by (auto simp: find_Some_iff)
      then obtain e where e: "nibble_report c = Err e" using nibble_report_bad by blast
      have "?skip = rlift (nibble_report c)"
        unfolding tag Some nibble_report_def
        by (cases "unpack_nibble (drop_bit 4 (c AND 240))"; cases "unpack_nibble (c AND 15)") (simp_all add: rlift_def tag Some)
      moreover have "decode_packed_nibble packed = Err e"
        using assms(2) by (simp add: decode_packed_nibble_def nibble_loop_find Some e)
      ultimately show ?thesis by (simp add: tag rlift_def e)
    next
      case None
      then have d: "decode_packed_nibble packed = Ok (concat (map nibble_pair packed))"
        using assms(2) by (simp add: decode_packed_nibble_def nibble_loop_find)
      show ?thesis using rest [OF decode_packed_ascii(4) [OF assms(2) d]] by (simp add: tag None d rlift_def)
    qed
  qed
qed

lemma skip_packed:
  assumes "utf8_exact E" "tag = NIBBLE_8 \<or> tag = HEX_8"
  shows "agree k (rbind read_u8 (\<lambda>b. rbind (read_bytes (unat (b AND 0x7F))) (\<lambda>packed.
        (case (if tag = NIBBLE_8 then find (\<lambda>b. NIBBLE_INVALID \<in> set (nibble_pair b)) packed else None) of
           Some b \<Rightarrow> rbind (rlift (unpack_nibble (drop_bit 4 (b AND 0xF0)))) (\<lambda>_.
                     rbind (rlift (unpack_nibble (b AND 0x0F))) (\<lambda>_. rpure ()))
         | None \<Rightarrow> rpure ())))) (drop_value (read_packed E tag))"
    (is "agree k (rbind read_u8 (\<lambda>b. rbind (?bytes b) ?check)) _")
proof -
  have "agree k (rbind read_u8 (\<lambda>b. rbind (?bytes b) ?check))
    (rbind read_u8 (\<lambda>b. drop_value (let half = (b AND 0x80 \<noteq> 0); len = unat (b AND 0x7F) in
      if len = 0 then rpure []
      else rbind (read_bytes len) (\<lambda>packed.
        rbind (if tag = HEX_8 then rlift (decode_packed_hex packed)
               else if tag = NIBBLE_8 then rlift (decode_packed_nibble packed)
               else rfail (InvalidToken tag)) (\<lambda>buf.
        (let out = (if half \<and> 0 < length buf then take (length buf - 1) buf else buf) in
         if smooth_utf8 E out then rpure out else rpanic))))))"
    (is "agree k _ (rbind read_u8 ?f)")
  proof (rule agree_rbind [OF good_read_u8 agree_refl])
    fix b :: u8
    show "agree k (rbind (?bytes b) ?check) (?f b)"
    proof (cases "unat (b AND 0x7F) = 0")
      case True
      then show ?thesis unfolding Let_def if_P [OF True] unfolding agree_def by (simp add: rbind_def read_bytes_at)
    next
      case False
      show ?thesis unfolding Let_def if_not_P [OF False] drop_rbind
      proof (rule agree_rbind_same [OF good_read_bytes yields_read_bytes])
        fix packed :: "u8 list" assume "length packed = unat (b AND 0x7F)"
        then have "length packed \<le> 127" using packed_len [of b] by simp
        from packed_check [OF assms(1) this assms(2), of "b AND 0x80 \<noteq> 0"]
        show "agree k (?check packed) (rbind (if tag = HEX_8 then rlift (decode_packed_hex packed)
               else if tag = NIBBLE_8 then rlift (decode_packed_nibble packed)
               else rfail (InvalidToken tag)) (\<lambda>buf.
        drop_value (if smooth_utf8 E (if (b AND 0x80 \<noteq> 0) \<and> 0 < length buf then take (length buf - 1) buf else buf) then rpure (if (b AND 0x80 \<noteq> 0) \<and> 0 < length buf then take (length buf - 1) buf else buf) else rpanic)))"
          unfolding Let_def by (simp only: agree_refl)
      qed
    qed
  qed
  then show ?thesis unfolding read_packed_def drop_rbind .
qed

lemma agree_skip_from_tag:
  assumes "utf8_exact E" "good_reader rs" "agree k (read_value_as_string E) rs"
  shows "agree k (skip_value_from_tag E tag) (drop_value (read_value_as_string_from_tag E rs tag))"
  unfolding skip_value_from_tag_def read_value_as_string_from_tag_def drop_if drop_rbind drop_simps drop_case_rok [where g = Some]
  by (intro agree_if agree_refl agree_drop_value agree_jid_readers skip_packed good_intros assms) assumption

lemma drop_read_value:
  "drop_value (read_value E) =
   rbind read_u8 (\<lambda>tag. drop_value (read_value_as_string_from_tag E (read_value_as_string E) tag))"
  unfolding read_value_def read_value_as_string_from_tag_def drop_if drop_rbind drop_simps drop_case_option
  by (rule refl)

lemma agree_skip_value:
  assumes "utf8_exact E"
  shows "agree k (skip_value E) (drop_value (read_value E))"
  unfolding skip_value_def drop_read_value
  by (intro agree_rbind agree_skip_from_tag good_intros agree_refl assms)

text \<open>A name read as a string, against a tag read first and a walk past the rest.\<close>

lemma agree_skip_name:
  assumes "utf8_exact E" "k < str_frames E" "\<And>s. agree k t (f s)"
  shows "agree k (rbind read_u8 (\<lambda>tag. if tag = LIST_EMPTY then rfail e
           else rbind (skip_value_from_tag E tag) (\<lambda>_. t)))
    (rbind (read_value_as_string E) (\<lambda>v. case v of None \<Rightarrow> rfail e | Some s \<Rightarrow> f s))"
proof -
  from assms(2) obtain n where n: "str_frames E = Suc n" by (cases "str_frames E") auto
  show ?thesis
    unfolding read_value_as_string_def n read_str_n.simps rbind_assoc
  proof (rule agree_read_u8)
    fix tag :: u8 assume k: "0 < k"
    let ?r = "read_value_as_string_from_tag E (read_str_n E n) tag"
    show "agree (k - 1) (if tag = LIST_EMPTY then rfail e else rbind (skip_value_from_tag E tag) (\<lambda>_. t))
      (rbind ?r (\<lambda>v. case v of None \<Rightarrow> rfail e | Some s \<Rightarrow> f s))"
    proof (cases "tag = LIST_EMPTY")
      case True
      then show ?thesis by (simp add: read_value_as_string_from_tag_def)
    next
      case False
      have "agree (k - 1) (read_value_as_string E) (read_str_n E n)"
        unfolding read_value_as_string_def by (rule agree_read_str_n) (use assms(2) k n in auto)
      then have "agree (k - 1) (rbind (skip_value_from_tag E tag) (\<lambda>_. t))
        (rbind ?r (\<lambda>v. case v of None \<Rightarrow> rfail e | Some s \<Rightarrow> f s))"
        using agree_skip_from_tag [OF assms(1) good_read_str_n, of "k - 1" E n tag] False
        by (intro agree_skip [where P = "\<lambda>x. x \<noteq> None"] good_intros from_tag_Some)
           (auto split: option.splits intro: agree_mono [OF assms(3)])
      with False show ?thesis by simp
    qed
  qed
qed

lemma agree_skip_attribute:
  assumes "utf8_exact E" "k < str_frames E"
  shows "agree k (skip_attribute E) (drop_value (read_attribute E))"
  unfolding skip_attribute_def read_attribute_def drop_rbind drop_case_option drop_simps
  unfolding rbind_rpure
proof (rule agree_skip_name [OF assms])
  show "agree k (skip_value E) (rbind (read_value E) (\<lambda>x. rpure ()))"
    using agree_skip_value [OF assms(1)] by (simp add: drop_value_def rmap_def)
qed

lemma agree_skip_scalar:
  assumes "utf8_exact E" "tag \<noteq> LIST_EMPTY" "tag \<noteq> LIST_8" "tag \<noteq> LIST_16"
  shows "agree k (skip_scalar_content E tag) (drop_value (read_content_from_tag E child tag))"
  unfolding skip_scalar_content_def read_content_from_tag_def drop_if drop_rbind drop_simps
    if_not_P [OF assms(2)]
  using assms agree_skip_from_tag [OF assms(1) good_read_value_as_string agree_refl, of k tag]
  by (simp add: drop_value_def rmap_def)

definition announced :: "open_content \<Rightarrow> nat" where
  "announced c = (case c of OChildren n \<Rightarrow> n | _ \<Rightarrow> 0)"

lemma announced_simps [simp]: "announced ONone = 0" "announced (OChildren n) = n" "announced (OScalar s) = 0"
  by (simp_all add: announced_def)

lemma agree_skip_content:
  assumes "utf8_exact E"
  shows "agree k
    (if list_size mod 2 \<noteq> 0 then rpure 0
     else rbind read_u8 (\<lambda>content_tag.
           if content_tag = LIST_EMPTY then rpure 0
           else if content_tag = LIST_8 \<or> content_tag = LIST_16 then read_list_size content_tag
           else rbind (skip_scalar_content E content_tag) (\<lambda>_. rpure 0)))
    (rbind (if list_size mod 2 = 0 then
                     rbind read_u8 (\<lambda>content_tag.
                     if content_tag = LIST_EMPTY then rpure ONone
                     else if content_tag = LIST_8 \<or> content_tag = LIST_16 then
                       rmap OChildren (read_list_size content_tag)
                     else
                       rbind (read_content_from_tag E rpanic content_tag) (\<lambda>c.
                       rpure (case c of Some scalar \<Rightarrow> OScalar scalar | None \<Rightarrow> ONone)))
                   else rpure ONone) (\<lambda>c. rpure (announced c)))"
proof (cases "list_size mod 2 = 0")
  case True
  show ?thesis unfolding if_P [OF True] rbind_assoc
    unfolding True not_not simp_thms if_False
  proof (rule agree_rbind [OF good_read_u8 agree_refl])
    fix tag :: u8
    consider "tag = LIST_EMPTY" | "tag = LIST_8 \<or> tag = LIST_16" | "tag \<noteq> LIST_EMPTY" "tag \<noteq> LIST_8" "tag \<noteq> LIST_16"
      by blast
    then show "agree k (if tag = LIST_EMPTY then rpure 0
           else if tag = LIST_8 \<or> tag = LIST_16 then read_list_size tag
           else rbind (skip_scalar_content E tag) (\<lambda>_. rpure 0))
      (rbind (if tag = LIST_EMPTY then rpure ONone
                     else if tag = LIST_8 \<or> tag = LIST_16 then
                       rmap OChildren (read_list_size tag)
                     else
                       rbind (read_content_from_tag E rpanic tag) (\<lambda>c.
                       rpure (case c of Some scalar \<Rightarrow> OScalar scalar | None \<Rightarrow> ONone))) (\<lambda>c. rpure (announced c)))"
    proof cases
      case 2
      then show ?thesis by (auto simp: rmap_def rbind_assoc rbind_rpure_right)
    next
      case 3
      have "agree k (rbind (skip_scalar_content E tag) (\<lambda>_. rpure 0))
        (rbind (read_content_from_tag E rpanic tag) (\<lambda>c.
                 rbind (rpure (case c of Some scalar \<Rightarrow> OScalar scalar | None \<Rightarrow> ONone)) (\<lambda>c. rpure (announced c))))"
        by (rule agree_skip [where P = "\<lambda>_. True"])
          (use agree_skip_scalar [OF assms 3] in \<open>auto intro!: good_intros split: option.splits\<close>)
      with 3 show ?thesis by (simp add: rbind_assoc)
    qed simp
  qed
qed simp

lemma agree_skip_attributes:
  assumes "utf8_exact E" "k < str_frames E"
  shows "agree k (drop_value (rrep n (skip_attribute E))) (drop_value (read_attributes E n))"
  using agree_drop_rrep [OF good_read_attribute, of k "skip_attribute E" E n] agree_skip_attribute [OF assms]
  by (cases n) (simp_all add: read_attributes_def)

lemma if_rmap: "rbind (if b then r else s) f = (if b then rbind r f else rbind s f)"
  by simp

lemma case_option_rbind: "rbind (case v of None \<Rightarrow> r | Some x \<Rightarrow> s x) f = (case v of None \<Rightarrow> rbind r f | Some x \<Rightarrow> rbind (s x) f)"
  by (cases v) simp_all

lemma agree_skip_node_open:
  assumes "utf8_exact E" "k < str_frames E"
  shows "agree k (skip_node_open E) (rmap (\<lambda>h. announced (open_content h)) (read_node_open E))"
  unfolding skip_node_open_def read_node_open_def rmap_def [of _ "rbind read_u8 _"] rbind_assoc if_rmap [where f = "\<lambda>h. rpure (announced (open_content h))"]
    case_option_rbind rbind_rpure node_open.simps
proof (rule agree_rbind [OF good_read_u8 agree_refl], rule agree_rbind [OF good_read_list_size agree_refl], rule agree_if)
  fix n :: nat assume "n \<noteq> 0"
  show "agree k (rbind read_u8 (\<lambda>tag_token.
       if tag_token = LIST_EMPTY then rfail InvalidNode
       else
         rbind (skip_value_from_tag E tag_token) (\<lambda>_.
         rbind (rrep ((n - 1) div 2) (skip_attribute E)) (\<lambda>_.
         if n mod 2 \<noteq> 0 then rpure 0
         else
           rbind read_u8 (\<lambda>content_tag.
           if content_tag = LIST_EMPTY then rpure 0
           else if content_tag = LIST_8 \<or> content_tag = LIST_16 then read_list_size content_tag
           else rbind (skip_scalar_content E content_tag) (\<lambda>_. rpure 0))))))
      (rbind (read_value_as_string E) (\<lambda>name.
       (case name of
          None \<Rightarrow> rfail InvalidNode
        | Some t \<Rightarrow>
            rbind (read_attributes E ((n - 1) div 2)) (\<lambda>as.
            rbind (if n mod 2 = 0 then
                     rbind read_u8 (\<lambda>content_tag.
                     if content_tag = LIST_EMPTY then rpure ONone
                     else if content_tag = LIST_8 \<or> content_tag = LIST_16 then
                       rmap OChildren (read_list_size content_tag)
                     else
                       rbind (read_content_from_tag E rpanic content_tag) (\<lambda>c.
                       rpure (case c of Some scalar \<Rightarrow> OScalar scalar | None \<Rightarrow> ONone)))
                   else rpure ONone) (\<lambda>content. rpure (announced content))))))"
    by (rule agree_skip_name [OF assms], rule agree_skip [where P = "\<lambda>_. True"], rule good_read_attributes,
        rule agree_skip_attributes [OF assms], rule yields_True, rule agree_skip_content [OF assms(1)])
qed simp

text \<open>The tree reader continues like the walker, with what a head announces.\<close>

lemma agree_skip_node_at:
  "utf8_exact E \<Longrightarrow> k < str_frames E \<Longrightarrow> agree k (skip_node_at E depth) (drop_value (read_node_ref_at E depth))"
proof (induction E depth rule: skip_node_at.induct)
  case (1 E depth)
  show ?case
  proof (cases "MAX_NODE_DEPTH \<le> depth")
    case True
    then show ?thesis by (simp add: skip_node_at.simps [of E depth] read_node_ref_at.simps [of E depth])
  next
    case False
    let ?skip = "skip_node_at E (depth + 1)" and ?read = "read_node_ref_at E (depth + 1)"
    let ?count = "\<lambda>h. announced (open_content h)"
    have IH: "agree k (drop_value ?skip) (drop_value ?read)"
      using "1.IH" [OF False "1.prems"] by simp
    have "agree k (skip_node_at E depth)
       (rbind (rmap ?count (read_node_open E)) (\<lambda>n. rbind (rrep n ?skip) (\<lambda>_. rpure ())))"
      unfolding skip_node_at.simps [of E depth] if_not_P [OF False]
      by (rule agree_rbind [OF good_skip_node_open agree_skip_node_open [OF "1.prems"] agree_refl])
    also have "agree k (rbind (rmap ?count (read_node_open E)) (\<lambda>n. rbind (rrep n ?skip) (\<lambda>_. rpure ())))
       (drop_value (read_node_ref_at E depth))"
      unfolding read_node_ref_at.simps [of E depth] if_not_P [OF False] rmap_def [of ?count] rbind_assoc rbind_rpure
        drop_rbind drop_simps
    proof (rule agree_rbind [OF good_read_node_open agree_refl])
      fix h
      show "agree k (rbind (rrep (?count h) ?skip) (\<lambda>_. rpure ()))
        (rbind (case open_content h of ONone \<Rightarrow> rpure None | OChildren count \<Rightarrow> rmap (\<lambda>ns. Some (Nodes ns)) (rrep count ?read)
            | OScalar scalar \<Rightarrow> rpure (Some scalar)) (\<lambda>_. rpure ()))"
        using agree_drop_rrep [OF good_read_node_ref_at IH]
        by (cases "open_content h") (simp_all add: drop_value_def rmap_def rbind_assoc)
    qed
    finally show ?thesis .
  qed
qed

lemma yields_mono: "yields P r \<Longrightarrow> (\<And>x. P x \<Longrightarrow> Q x) \<Longrightarrow> yields Q r"
  unfolding yields_def by blast

lemma yields_conj: "yields P r \<Longrightarrow> yields Q r \<Longrightarrow> yields (\<lambda>x. P x \<and> Q x) r"
  unfolding yields_def by blast

lemma yields_rrep: "yields P r \<Longrightarrow> yields (list_all P) (rrep n r)"
proof (induction n)
  case (Suc n)
  show ?case unfolding rrep.simps
    by (rule yields_rbind [OF Suc.prems], rule yields_rbind [OF Suc.IH [OF Suc.prems]], rule yields_rpure) simp
qed (simp add: yields_rpure)

text \<open>What holds of every scalar content of a head.\<close>

definition scalar_ok :: "(content \<Rightarrow> bool) \<Rightarrow> open_content \<Rightarrow> bool" where
  "scalar_ok P c = (case c of OScalar x \<Rightarrow> P x | _ \<Rightarrow> True)"

lemma scalar_ok_simps [simp]: "scalar_ok P ONone" "scalar_ok P (OChildren n)" "scalar_ok P (OScalar x) = P x"
  by (simp_all add: scalar_ok_def)

lemma yields_open_scalar:
  assumes "\<And>b. P (Bytes b)" "P (Nodes [])"
    and str: "\<And>tag. yields (pred_option (\<lambda>s. P (CString s))) (read_value_as_string_from_tag E (read_value_as_string E) tag)"
  shows "yields (\<lambda>h. scalar_ok P (open_content h)) (read_node_open E)"
proof -
  have c: "yields (pred_option P) (read_content_from_tag E rpanic tag)" for tag
  proof -
    have "yields (\<lambda>ns. ns = []) (rrep n rpanic)" for n :: nat
      by (cases n) (auto intro!: yields_rpure yields_rfail)
    then have "yields (pred_option P) (rbind (rrep n rpanic) (\<lambda>x. rpure (Some (Nodes x))))" for n
      by (rule yields_rbind) (simp add: yields_rpure assms)
    moreover have "yields (pred_option P) (rbind (read_value_as_string_from_tag E (read_value_as_string E) tag)
        (\<lambda>s. rpure (map_option CString s)))"
      by (rule yields_rbind [OF str]) (simp add: yields_rpure option.pred_map comp_def)
    ultimately show ?thesis
      unfolding read_content_from_tag_def rmap_def
      by (simp add: yields_rbind [OF yields_True] yields_rpure assms)
  qed
  have content: "yields (scalar_ok P) (if n mod 2 = 0 then
                     rbind read_u8 (\<lambda>content_tag.
                     if content_tag = LIST_EMPTY then rpure ONone
                     else if content_tag = LIST_8 \<or> content_tag = LIST_16 then
                       rmap OChildren (read_list_size content_tag)
                     else
                       rbind (read_content_from_tag E rpanic content_tag) (\<lambda>c.
                       rpure (case c of Some scalar \<Rightarrow> OScalar scalar | None \<Rightarrow> ONone)))
                   else rpure ONone)" for n :: nat
    unfolding rmap_def
    apply (rule yields_if)
     apply (rule yields_rbind [OF yields_True], intro yields_if)
       apply (simp add: yields_rpure)
      apply (rule yields_rbind [OF yields_True], simp add: yields_rpure)
     apply (rule yields_rbind [OF c], rule yields_rpure, force split: option.splits)
    apply (simp add: yields_rpure)
    done
  show ?thesis unfolding read_node_open_def
    apply (rule yields_rbind [OF yields_True], rule yields_rbind [OF yields_True], rule yields_if, rule yields_rfail)
    apply (rule yields_rbind [OF yields_True], rule yields_case_option, rule yields_rfail)
    apply (rule yields_rbind [OF yields_True])
    apply (rule yields_rbind [OF content], rule yields_rpure)
    apply simp
    done
qed

section \<open>Decoded text\<close>

fun utf8_value :: "node_value \<Rightarrow> bool" where
  "utf8_value (VString s) = utf8_valid s"
| "utf8_value (VJid j) = utf8_valid (jid_user j)"

definition utf8_attrs :: "attrs \<Rightarrow> bool" where
  "utf8_attrs as = list_all (\<lambda>(k, v). utf8_valid k \<and> utf8_value v) as"

fun utf8_node :: "node \<Rightarrow> bool" and utf8_content :: "content \<Rightarrow> bool" where
  "utf8_node (Node t as c) = (utf8_valid t \<and> utf8_attrs as \<and> pred_option utf8_content c)"
| "utf8_content (Bytes b) = True"
| "utf8_content (CString s) = utf8_valid s"
| "utf8_content (Nodes ns) = list_all utf8_node ns"

definition utf8_tokens :: "token_tables \<Rightarrow> bool" where
  "utf8_tokens T \<longleftrightarrow> (\<forall>i s. get_single_token T i = Some s \<longrightarrow> utf8_valid s) \<and>
     (\<forall>d i s. get_double_token T d i = Some s \<longrightarrow> utf8_valid s)"

lemma utf8_as_str: "utf8_valid (as_str srv)"
  by (cases srv) (simp_all add: lit_def)

lemma utf8_dec: "utf8_valid (dec n)"
  using dec_digits [of n] is_digit_ascii by (auto intro!: utf8_valid_ascii simp: list_all_iff)

lemma utf8_display: "utf8_valid (jid_user j) \<Longrightarrow> utf8_valid (display j)"
  by (auto simp: jid_text_def lit_def intro!: utf8_valid_append utf8_as_str utf8_dec)

lemma yields_read_string:
  "utf8_exact E \<Longrightarrow> yields utf8_valid (read_string E n)"
  unfolding read_string_def
  by (rule yields_rbind [where Q = "\<lambda>_. True"])
    (auto simp: utf8_exact_def std_from_utf8_def rlift_def intro!: yields_intros)

lemma yields_read_packed: "utf8_exact E \<Longrightarrow> yields utf8_valid (read_packed E tag)"
  unfolding read_packed_def Let_def
  by (intro yields_rbind [where Q = "\<lambda>_. True"] yields_intros)
    (auto simp: utf8_exact_def)

lemma utf8_unwrap: "pred_option utf8_valid x \<Longrightarrow> utf8_valid (unwrap_or [] x)"
  by (cases x) (auto simp: unwrap_or_def)

lemma yields_jid_readers:
  assumes "yields (pred_option utf8_valid) rs"
  shows "yields (\<lambda>j. utf8_valid (jid_user j)) (read_jid_pair rs)"
    and "yields (\<lambda>j. utf8_valid (jid_user j)) (read_ad_jid rs)"
    and "yields (\<lambda>j. utf8_valid (jid_user j)) (read_interop_jid rs)"
    and "yields (\<lambda>j. utf8_valid (jid_user j)) (read_fb_jid rs)"
proof -
  show "yields (\<lambda>j. utf8_valid (jid_user j)) (read_jid_pair rs)"
    unfolding read_jid_pair_def
    by (rule yields_rbind [OF assms], rule yields_rbind [OF yields_True])
       (auto simp: jid_new_def or_default_def intro!: yields_intros utf8_unwrap split: outcome.split)
  show "yields (\<lambda>j. utf8_valid (jid_user j)) (read_ad_jid rs)"
    unfolding read_ad_jid_def
    by (rule yields_rbind [OF yields_True], rule yields_rbind [OF yields_True], rule yields_rbind [OF assms])
       (auto simp: jid_new_def intro!: yields_intros)
  show "yields (\<lambda>j. utf8_valid (jid_user j)) (read_interop_jid rs)"
    unfolding read_interop_jid_def
    by (rule yields_rbind [OF assms], rule yields_case_option, rule yields_rfail, rule yields_rbind [OF yields_True],
        rule yields_rbind [OF yields_True], rule yields_rbind [OF yields_True])
       (auto simp: jid_new_def intro!: yields_intros)
  show "yields (\<lambda>j. utf8_valid (jid_user j)) (read_fb_jid rs)"
    unfolding read_fb_jid_def
    by (rule yields_rbind [OF assms], rule yields_case_option, rule yields_rfail, rule yields_rbind [OF yields_True],
        rule yields_rbind [OF yields_True])
       (auto simp: jid_new_def intro!: yields_intros)
qed

lemma yields_from_tag:
  assumes "utf8_exact E" "utf8_tokens (toks E)" "yields (pred_option utf8_valid) rs"
  shows "yields (pred_option utf8_valid) (read_value_as_string_from_tag E rs tag)"
  unfolding read_value_as_string_from_tag_def jid_ref_to_compact_text
  using assms(2)
  by (intro yields_if yields_rbind [OF yields_True] yields_rmap yields_case_option yields_rfail yields_rpure)
     (auto simp: utf8_tokens_def intro: yields_mono [OF yields_jid_readers(1) [OF assms(3)]]
        yields_mono [OF yields_jid_readers(2) [OF assms(3)]] yields_mono [OF yields_jid_readers(3) [OF assms(3)]]
        yields_mono [OF yields_jid_readers(4) [OF assms(3)]] utf8_display yields_read_string [OF assms(1)]
        yields_read_packed [OF assms(1)])

lemma yields_read_str_n:
  assumes "utf8_exact E" "utf8_tokens (toks E)"
  shows "yields (pred_option utf8_valid) (read_str_n E n)"
  by (induction n) (auto intro!: yields_rfail yields_rbind [OF yields_True] yields_from_tag assms)

lemma yields_read_value_as_string:
  "utf8_exact E \<Longrightarrow> utf8_tokens (toks E) \<Longrightarrow> yields (pred_option utf8_valid) (read_value_as_string E)"
  by (simp add: read_value_as_string_def yields_read_str_n)

lemma yields_read_value:
  assumes "utf8_exact E" "utf8_tokens (toks E)"
  shows "yields (pred_option utf8_value) (read_value E)"
  unfolding read_value_def
  using assms(2)
  by (intro yields_if yields_rbind [OF yields_True] yields_rmap yields_case_option yields_rfail yields_rpure)
     (auto simp: utf8_tokens_def intro: yields_jid_readers yields_read_value_as_string [OF assms]
        yields_read_string [OF assms(1)] yields_read_packed [OF assms(1)])

lemma yields_read_attributes:
  assumes "utf8_exact E" "utf8_tokens (toks E)"
  shows "yields utf8_attrs (read_attributes E n)"
proof -
  have "yields (\<lambda>(k, v). utf8_valid k \<and> utf8_value v) (read_attribute E)"
    unfolding read_attribute_def
    by (rule yields_rbind [OF yields_read_value_as_string [OF assms]], rule yields_case_option, rule yields_rfail,
        rule yields_rbind [OF yields_read_value [OF assms]])
       (auto simp: unwrap_or_def intro!: yields_rpure split: option.splits)
  from yields_rrep [OF this, of n] show ?thesis
    by (auto simp: read_attributes_def utf8_attrs_def [abs_def] intro: yields_rpure)
qed

lemma yields_read_node_open:
  assumes "utf8_exact E" "utf8_tokens (toks E)"
  shows "yields (\<lambda>h. utf8_valid (open_tag h) \<and> utf8_attrs (open_attrs h)) (read_node_open E)"
  unfolding read_node_open_def
  apply (rule yields_rbind [OF yields_True], rule yields_rbind [OF yields_True], rule yields_if, rule yields_rfail)
  apply (rule yields_rbind [OF yields_read_value_as_string [OF assms]], rule yields_case_option, rule yields_rfail)
  apply (rule yields_rbind [OF yields_read_attributes [OF assms]])
  apply (rule yields_rbind [OF yields_True], rule yields_rpure)
  apply simp
  done

lemma yields_read_node_ref_at:
  "utf8_exact E \<Longrightarrow> utf8_tokens (toks E) \<Longrightarrow> yields utf8_node (read_node_ref_at E depth)"
proof (induction E depth rule: skip_node_at.induct)
  case (1 E depth)
  show ?case
  proof (cases "MAX_NODE_DEPTH \<le> depth")
    case True
    then show ?thesis by (simp add: read_node_ref_at.simps [of E depth] yields_rfail)
  next
    case False
    have "yields utf8_node (read_node_ref_at E (depth + 1))" by (rule "1.IH" [OF False "1.prems"])
    then have children: "yields (pred_option utf8_content)
        (rmap (\<lambda>ns. Some (Nodes ns)) (rrep n (read_node_ref_at E (depth + 1))))" for n
      by (intro yields_rmap) (simp add: yields_rrep)
    have scalar: "yields (\<lambda>h. scalar_ok utf8_content (open_content h)) (read_node_open E)"
      using yields_from_tag [OF "1.prems" yields_read_value_as_string [OF "1.prems"]]
      by (intro yields_open_scalar) simp_all
    show ?thesis
      unfolding read_node_ref_at.simps [of E depth] if_not_P [OF False]
    proof (rule yields_rbind [OF yields_conj [OF yields_read_node_open [OF "1.prems"] scalar]])
      fix h assume h: "(utf8_valid (open_tag h) \<and> utf8_attrs (open_attrs h)) \<and> scalar_ok utf8_content (open_content h)"
      have "yields (pred_option utf8_content)
        (case open_content h of ONone \<Rightarrow> rpure None
         | OChildren count \<Rightarrow> rmap (\<lambda>ns. Some (Nodes ns)) (rrep count (read_node_ref_at E (depth + 1)))
         | OScalar scalar \<Rightarrow> rpure (Some scalar))"
        using h children by (cases "open_content h") (simp_all add: yields_rpure)
      then show "yields utf8_node (rbind (case open_content h of ONone \<Rightarrow> rpure None
         | OChildren count \<Rightarrow> rmap (\<lambda>ns. Some (Nodes ns)) (rrep count (read_node_ref_at E (depth + 1)))
         | OScalar scalar \<Rightarrow> rpure (Some scalar))
          (\<lambda>content. rpure (Node (open_tag h) (open_attrs h) content)))"
        using h by (intro yields_rbind [where Q = "pred_option utf8_content"] yields_rpure) simp_all
    qed
  qed
qed

section \<open>Size of decoded trees\<close>

fun node_depth :: "node \<Rightarrow> nat" and content_depth :: "content \<Rightarrow> nat" where
  "node_depth (Node t as c) = Suc (case c of None \<Rightarrow> 0 | Some x \<Rightarrow> content_depth x)"
| "content_depth (Bytes b) = 0"
| "content_depth (CString s) = 0"
| "content_depth (Nodes ns) = foldr max (map node_depth ns) 0"

fun node_count :: "node \<Rightarrow> nat" and content_count :: "content \<Rightarrow> nat" where
  "node_count (Node t as c) = Suc (case c of None \<Rightarrow> 0 | Some x \<Rightarrow> content_count x)"
| "content_count (Bytes b) = 0"
| "content_count (CString s) = 0"
| "content_count (Nodes ns) = sum_list (map node_count ns)"

lemma foldr_max_le: "foldr max xs 0 \<le> (n :: nat) \<longleftrightarrow> (\<forall>x \<in> set xs. x \<le> n)"
  by (induction xs) auto

lemma yields_open_leaf:
  "yields (\<lambda>h. scalar_ok (\<lambda>x. content_depth x = 0 \<and> content_count x = 0) (open_content h)) (read_node_open E)"
  by (rule yields_open_scalar) (simp_all add: pred_option_def)

lemma yields_depth: "yields (\<lambda>n. node_depth n + depth \<le> MAX_NODE_DEPTH) (read_node_ref_at E depth)"
proof (induction E depth rule: skip_node_at.induct)
  case (1 E depth)
  show ?case
  proof (cases "MAX_NODE_DEPTH \<le> depth")
    case True
    then show ?thesis by (simp add: read_node_ref_at.simps [of E depth] yields_rfail)
  next
    case False
    let ?P = "\<lambda>c. (case c of None \<Rightarrow> 0 | Some x \<Rightarrow> content_depth x) + depth < MAX_NODE_DEPTH"
    have "yields (\<lambda>n. node_depth n + (depth + 1) \<le> MAX_NODE_DEPTH) (read_node_ref_at E (depth + 1))"
      by (rule "1.IH" [OF False])
    from yields_rrep [OF this]
    have "yields (\<lambda>ns. ?P (Some (Nodes ns))) (rrep n (read_node_ref_at E (depth + 1)))" for n
    proof (rule yields_mono)
      fix ns assume "list_all (\<lambda>n. node_depth n + (depth + 1) \<le> MAX_NODE_DEPTH) ns"
      then have "foldr max (map node_depth ns) 0 \<le> 127 - depth"
        unfolding foldr_max_le by (auto simp: list_all_iff)
      with False show "?P (Some (Nodes ns))" by simp
    qed
    then have children: "yields ?P (rmap (\<lambda>ns. Some (Nodes ns)) (rrep n (read_node_ref_at E (depth + 1))))" for n
      by (rule yields_rmap)
    show ?thesis
      unfolding read_node_ref_at.simps [of E depth] if_not_P [OF False]
    proof (rule yields_rbind [OF yields_open_leaf])
      fix h assume h: "scalar_ok (\<lambda>x. content_depth x = 0 \<and> content_count x = 0) (open_content h)"
      have "yields ?P (case open_content h of ONone \<Rightarrow> rpure None
         | OChildren count \<Rightarrow> rmap (\<lambda>ns. Some (Nodes ns)) (rrep count (read_node_ref_at E (depth + 1)))
         | OScalar scalar \<Rightarrow> rpure (Some scalar))"
        using h children False by (cases "open_content h") (simp_all add: yields_rpure)
      then show "yields (\<lambda>n. node_depth n + depth \<le> MAX_NODE_DEPTH) (rbind (case open_content h of ONone \<Rightarrow> rpure None
         | OChildren count \<Rightarrow> rmap (\<lambda>ns. Some (Nodes ns)) (rrep count (read_node_ref_at E (depth + 1)))
         | OScalar scalar \<Rightarrow> rpure (Some scalar))
          (\<lambda>content. rpure (Node (open_tag h) (open_attrs h) content)))"
        by (rule yields_rbind) (simp add: yields_rpure)
    qed
  qed
qed

text \<open>A reader takes at least \<open>w x\<close> bytes for the value \<open>x\<close>.\<close>

definition costs :: "('a \<Rightarrow> nat) \<Rightarrow> 'a reader \<Rightarrow> bool" where
  "costs w r \<longleftrightarrow> (\<forall>pre xs x d. r (at pre xs) = Ok (x, d) \<longrightarrow> length pre + w x \<le> dec_position d)"

lemma costs_0: "good_reader r \<Longrightarrow> (\<And>x. w x = 0) \<Longrightarrow> costs w r"
  unfolding costs_def by (metis good_OkE' dec_position_at length_append le_add1 add_0_right)

lemma costs_rbind_yields:
  assumes "good_reader m" "costs v m" "yields P m" "\<And>x. P x \<Longrightarrow> costs (\<lambda>y. w y - v x) (f x)"
  shows "costs w (rbind m f)"
  unfolding costs_def
proof (intro allI impI)
  fix pre xs y d assume "rbind m f (at pre xs) = Ok (y, d)"
  then obtain x d' where x: "m (at pre xs) = Ok (x, d')" "f x d' = Ok (y, d)"
    by (auto simp: rbind_def obind_eq_Ok)
  from good_OkE' [OF assms(1) x(1)] obtain ys zs where d': "xs = ys @ zs" "d' = at (pre @ ys) zs" by metis
  have "length pre + v x \<le> length pre + length ys" using assms(2) x(1) d' unfolding costs_def by fastforce
  moreover have "length (pre @ ys) + (w y - v x) \<le> dec_position d"
    using assms(4) [of x] x d' assms(3) [unfolded yields_def] unfolding costs_def by blast
  ultimately show "length pre + w y \<le> dec_position d" by simp
qed

lemma costs_rbind:
  assumes "good_reader m" "costs v m" "\<And>x. costs (\<lambda>y. w y - v x) (f x)"
  shows "costs w (rbind m f)"
  using assms by (rule costs_rbind_yields [OF _ _ yields_True])

lemma costs_rpure: "w x = 0 \<Longrightarrow> costs w (rpure x)"
  by (auto simp: costs_def rpure_def)

lemma costs_if: "(b \<Longrightarrow> costs w r) \<Longrightarrow> (\<not> b \<Longrightarrow> costs w s) \<Longrightarrow> costs w (if b then r else s)"
  by simp

lemma costs_rfail: "costs w (rfail e)"
  by (simp add: costs_def rfail_def)

lemma costs_mono: "costs v r \<Longrightarrow> (\<And>x. w x \<le> v x) \<Longrightarrow> costs w r"
  unfolding costs_def by (meson add_left_mono order_trans)

lemma costs_read_u8: "costs (\<lambda>_. 1) read_u8"
  by (auto simp: costs_def read_u8_at split: list.splits)

lemma costs_read_list_size: "costs (\<lambda>n. if n = 0 then 0 else 1) (read_list_size tag)"
  by (auto simp: costs_def read_list_size_def rmap_def rbind_def rpure_def rfail_def obind_eq_Ok read_u8_at read_u16_be_at
      split: list.splits if_splits)

lemma costs_read_value_as_string: "costs (\<lambda>_. 1) (read_value_as_string E)"
proof (cases "str_frames E")
  case 0
  then show ?thesis by (simp add: read_value_as_string_def costs_def rpanic_def)
next
  case (Suc n)
  show ?thesis unfolding read_value_as_string_def Suc read_str_n.simps
    by (rule costs_rbind [OF good_read_u8 costs_read_u8]) (auto intro!: costs_0 good_intros)
qed

lemma costs_read_node_open: "costs (\<lambda>_. 3) (read_node_open E)"
  unfolding read_node_open_def
  apply (rule costs_rbind [OF good_read_u8 costs_read_u8])
  apply (rule costs_rbind [OF good_read_list_size costs_read_list_size])
  apply (rule costs_if, rule costs_rfail)
  apply (rule costs_rbind [OF good_read_value_as_string costs_read_value_as_string])
  apply (rule costs_0)
   apply (intro good_intros)
  apply simp
  done

lemma costs_rrep:
  assumes "good_reader r" "costs w r"
  shows "costs (\<lambda>xs. sum_list (map w xs)) (rrep n r)"
proof (induction n)
  case (Suc n)
  show ?case unfolding rrep.simps
    by (rule costs_rbind [OF assms], rule costs_rbind [OF good_rrep [OF assms(1)] Suc], rule costs_rpure) simp
qed (simp add: costs_rpure)

lemma costs_node: "costs (\<lambda>n. 3 * node_count n) (read_node_ref_at E depth)"
proof (induction E depth rule: skip_node_at.induct)
  case (1 E depth)
  show ?case
  proof (cases "MAX_NODE_DEPTH \<le> depth")
    case True
    then show ?thesis by (simp add: read_node_ref_at.simps [of E depth] costs_rfail)
  next
    case False
    let ?w = "\<lambda>c. 3 * (case c of None \<Rightarrow> 0 | Some x \<Rightarrow> content_count x)"
    note IH = "1.IH" [OF False]
    have children: "costs ?w (rmap (\<lambda>ns. Some (Nodes ns)) (rrep n (read_node_ref_at E (depth + 1))))" for n
      unfolding rmap_def
      by (rule costs_rbind [OF good_rrep [OF good_read_node_ref_at] costs_rrep [OF good_read_node_ref_at IH]], rule costs_rpure)
         (simp add: sum_list_const_mult)
    show ?thesis
      unfolding read_node_ref_at.simps [of E depth] if_not_P [OF False]
    proof (rule costs_rbind_yields [OF good_read_node_open costs_read_node_open yields_open_leaf])
      fix h assume h: "scalar_ok (\<lambda>x. content_depth x = 0 \<and> content_count x = 0) (open_content h)"
      let ?c = "case open_content h of ONone \<Rightarrow> rpure None
         | OChildren count \<Rightarrow> rmap (\<lambda>ns. Some (Nodes ns)) (rrep count (read_node_ref_at E (depth + 1)))
         | OScalar scalar \<Rightarrow> rpure (Some scalar)"
      have w: "costs ?w ?c"
        using h children by (cases "open_content h") (simp_all add: costs_rpure)
      have g: "good_reader ?c" by (intro good_intros)
      show "costs (\<lambda>n. 3 * node_count n - 3) (rbind ?c (\<lambda>content. rpure (Node (open_tag h) (open_attrs h) content)))"
        by (rule costs_rbind [OF g w], rule costs_rpure) simp
    qed
  qed
qed

section \<open>Running out of stack\<close>

lemma read_str_n_overflow: "m \<le> n \<Longrightarrow> read_str_n E m (at pre (replicate n JID_PAIR)) = Panic"
proof (induction m arbitrary: n pre)
  case (Suc m)
  then obtain k where "n = Suc k" "m \<le> k" by (cases n) auto
  with Suc.IH [OF this(2), of "pre @ [JID_PAIR]"] show ?case
    by (simp add: read_value_as_string_from_tag_def rmap_def read_jid_pair_def rbind_def read_u8_at)
qed (simp add: rpanic_def)

section \<open>Incremental reading\<close>

text \<open>The decoder with more data behind what it has.\<close>

definition grow :: "u8 list \<Rightarrow> decoder \<Rightarrow> decoder" where
  "grow ys d = d\<lparr>dec_data := dec_data d @ ys\<rparr>"

lemma grow_at [simp]: "grow ys (at pre xs) = at pre (xs @ ys)"
  by (simp add: grow_def at_def)

lemma decoder_at: "dec_position d \<le> length (dec_data d) \<Longrightarrow>
    d = at (take (dec_position d) (dec_data d)) (drop (dec_position d) (dec_data d))"
  by (cases d) (simp add: at_def)

text \<open>The interface the streaming decoder has to the readers.\<close>

locale wire_reader =
  fixes r :: "'a reader"
  assumes good: "good_reader r"
begin

lemma stable:
  assumes "r (at pre xs) \<noteq> Err UnexpectedEof"
  shows "r (at pre (xs @ ys)) = omap (\<lambda>(x, d). (x, grow ys d)) (r (at pre xs))"
proof (cases "r (at pre xs)")
  case (Ok v)
  obtain x d where v: "v = (x, d)" by (cases v)
  from good_OkE [OF good Ok [unfolded v]] obtain us vs where
    "xs = us @ vs" "d = at (pre @ us) vs" "\<And>pre' ys. r (at pre' (us @ ys)) = Ok (x, at (pre' @ us) ys)"
    by metis
  then show ?thesis unfolding Ok v by simp
next
  case (Err e)
  with assms good_Err(2) [OF good Err, of pre ys] show ?thesis by auto
next
  case Panic
  then show ?thesis using good_Panic [OF good Panic, of pre ys] by simp
qed

lemma eof_prefix: "r (at pre (xs @ ys)) = Err UnexpectedEof \<Longrightarrow> r (at pre xs) = Err UnexpectedEof"
  using stable [of pre xs ys] by (cases "r (at pre xs)") auto

lemma stays_inside:
  assumes "dec_position d \<le> length (dec_data d)" "r d = Ok (x, d')"
  shows "dec_position d \<le> dec_position d' \<and> dec_position d' \<le> length (dec_data d') \<and> dec_data d' = dec_data d"
proof -
  note d = decoder_at [OF assms(1)]
  from good_OkE' [OF good, of "take (dec_position d) (dec_data d)" "drop (dec_position d) (dec_data d)" x d']
    assms(2) d obtain ys zs where "drop (dec_position d) (dec_data d) = ys @ zs" "d' = at (take (dec_position d) (dec_data d) @ ys) zs"
    by metis
  moreover from this(1) have "length (dec_data d) - dec_position d = length ys + length zs"
    by (metis length_append length_drop)
  ultimately show ?thesis using assms(1) append_take_drop_id [of "dec_position d" "dec_data d"] by (simp add: at_def)
qed

end

interpretation tree_reader: wire_reader "read_node_ref_at E depth" for E depth
  by unfold_locales (rule good_read_node_ref_at)

interpretation head_reader: wire_reader "read_node_open E" for E
  by unfold_locales (rule good_read_node_open)

interpretation head_walker: wire_reader "skip_node_open E" for E
  by unfold_locales (rule good_skip_node_open)

interpretation tree_walker: wire_reader "skip_node_at E depth" for E depth
  by unfold_locales (rule good_skip_node_at)

section \<open>Main results\<close>

text \<open>A frame for the examples: \<open><iq abcde="v"><x/></iq>\<close>, with one tag and one key from the
  sample dictionary.\<close>

definition sample_env :: codec_env where
  "sample_env = \<lparr>toks = sample_tables, smooth_utf8 = utf8_valid, str_frames = 32\<rparr>"

definition sample_frame :: "u8 list" where
  "sample_frame = [248, 4, 1, 236, 0, 252, 1, 118, 248, 1, 248, 1, 252, 1, 120]"

definition sample_node :: node where
  "sample_node = Node (lit ''iq'') [(lit ''abcde'', VString (lit ''v''))] (Some (Nodes [Node (lit ''x'') [] None]))"

lemma sample_env_exact: "utf8_exact sample_env"
  by (simp add: utf8_exact_def sample_env_def)

lemma sample_utf8_tokens: "utf8_tokens (toks sample_env)"
  by (auto simp: utf8_tokens_def sample_env_def sample_tables_def get_single_token_def get_double_token_def lit_def
      nth_Cons' split: if_splits)

lemma sample_decoded: "read_node_ref sample_env (decoder_new sample_frame) =
    Ok (sample_node, \<lparr>dec_data = sample_frame, dec_position = length sample_frame\<rparr>)"
  by code_simp

text \<open>C13. Measuring mirrors decoding, as long as the stack has room for more nested strings than there are bytes left. From any
  position of any input the walker \<open>skip_node_at\<close> of the streaming decoder then ends exactly where the tree
  reader \<open>read_node_ref_at\<close> ends, and rejects exactly the inputs it rejects, with the same error.\<close>

theorem skip_mirrors_read:
  assumes "utf8_exact E" "dec_position d \<le> length (dec_data d)" "bytes_left d < str_frames E"
  shows "skip_node_at E depth d = omap (\<lambda>(n, d'). ((), d')) (read_node_ref_at E depth d)"
  using agreeD [OF agree_skip_node_at [OF assms(1,3), of depth], of "drop (dec_position d) (dec_data d)"
      "take (dec_position d) (dec_data d)"] assms(2) decoder_at [OF assms(2)]
  by (cases "read_node_ref_at E depth d") (auto simp: bytes_left_def drop_value_def rmap_def rbind_def rpure_def)

theorem skip_mirrors_read_witness:
  "skip_node_at sample_env 0 (decoder_new sample_frame) = Ok ((), \<lparr>dec_data = sample_frame, dec_position = 15\<rparr>)"
proof -
  have "bytes_left (decoder_new sample_frame) < str_frames sample_env"
    by (simp add: bytes_left_def decoder_new_def sample_frame_def sample_env_def)
  from skip_mirrors_read [OF sample_env_exact _ this, of 0] sample_decoded show ?thesis
    by (simp add: read_node_ref_def) (simp add: decoder_new_def sample_frame_def)
qed

text \<open>C14. Decoding arbitrary bytes never panics: no index out of range, no failed conversion
  of an unpacked string, no exhausted stack, as long as the stack has room for as many nested
  strings as the input has bytes. A node that is read lies within the input.\<close>

theorem decode_never_panics:
  assumes "utf8_exact E" "length data < str_frames E"
  shows "case read_node_ref E (decoder_new data) of
      Ok (n, d) \<Rightarrow> dec_data d = data \<and> dec_position d \<le> length data
    | Err e \<Rightarrow> True
    | Panic \<Rightarrow> False"
proof (cases "read_node_ref E (decoder_new data)")
  case (Ok r)
  obtain n d where r: "r = (n, d)" by (cases r)
  from tree_reader.stays_inside [of "decoder_new data" E 0 n d] Ok r show ?thesis
    by (auto simp: read_node_ref_def decoder_new_def)
next
  case Panic
  with safe_read_node_ref_at [OF assms, of 0] show ?thesis
    by (simp add: safe_def read_node_ref_def decoder_new_at)
qed simp

theorem decode_never_panics_witness:
  "read_node_ref sample_env (decoder_new [248, 2, 251, 0x81, 0x1F, 255, 1, 0xC0]) = Err (InvalidToken 12)"
proof -
  let ?r = "read_node_ref sample_env (decoder_new [248, 2, 251, 0x81, 0x1F, 255, 1, 0xC0])"
  have "length [248, 2, 251, 0x81, 0x1F, 255, 1, 0xC0 :: u8] < str_frames sample_env"
    by (simp add: sample_env_def)
  from decode_never_panics [OF sample_env_exact this] have "?r \<noteq> Panic" by (auto split: outcome.splits)
  moreover have "?r \<in> {Panic, Err (InvalidToken 12)}" by code_simp
  ultimately show ?thesis by simp
qed

text \<open>C37. The stack is the only bound on nested JID tokens: whatever room it has, an input two
  bytes longer than that (a list of one, then JID tokens only) exhausts it. The node depth limit
  does not apply, the nesting is inside one string.\<close>

theorem nested_jids_exhaust_stack:
  "read_node_ref E (decoder_new (LIST_8 # 1 # replicate (str_frames E) JID_PAIR)) = Panic"
  using read_str_n_overflow [OF order_refl, of E "str_frames E" "[LIST_8, 1]"]
  by (simp add: read_node_ref_def read_node_ref_at.simps [of E 0] read_node_open_def rbind_def decoder_new_at read_u8_at
      read_list_size_def rmap_def rpure_def read_value_as_string_def)

text \<open>C34. Decoding can be resumed. More data after the input changes no answer that was given:
  a node keeps its value and its end, an error other than the end of the input stays that error.
  Conversely an input that is still too short was too short before.\<close>

theorem decode_incremental:
  "let r = read_node_ref_at E depth; d = \<lparr>dec_data = pre @ xs, dec_position = length pre\<rparr> in
   if r d = Err UnexpectedEof then True
   else r (grow ys d) = omap (\<lambda>(n, d'). (n, grow ys d')) (r d) \<and> r (grow ys d) \<noteq> Err UnexpectedEof"
  using tree_reader.stable [of E depth pre xs ys] unfolding at_def [symmetric] Let_def grow_at
  by (cases "read_node_ref_at E depth (at pre xs)") auto

text \<open>C35. Decoded text is text: in every tree the decoder returns, tags, attribute keys, string
  values, the users of JIDs and string contents are valid UTF-8, however the bytes were encoded
  (raw, packed, dictionary, nested JID).\<close>

theorem decoded_text_utf8:
  assumes "utf8_exact E" "utf8_tokens (toks E)" "read_node_ref E d = Ok (n, d')"
  shows "utf8_node n"
  using yields_read_node_ref_at [OF assms(1,2), of 0] assms(3) unfolding yields_def read_node_ref_def by blast

theorem decoded_text_utf8_witness: "utf8_node sample_node"
  by (rule decoded_text_utf8 [OF sample_env_exact sample_utf8_tokens sample_decoded])

text \<open>C36. The size of a decoded tree is bounded: it is at most 128 levels deep, and each of its
  nodes was paid for with at least three bytes of the input.\<close>

theorem decoded_tree_bounded:
  assumes "read_node_ref E (decoder_new data) = Ok (n, d)"
  shows "node_depth n \<le> MAX_NODE_DEPTH \<and> 3 * node_count n \<le> dec_position d \<and> dec_position d \<le> length data"
proof (intro conjI)
  show "node_depth n \<le> MAX_NODE_DEPTH"
    using yields_depth [of 0 E] assms unfolding yields_def read_node_ref_def by fastforce
  show "3 * node_count n \<le> dec_position d"
    using costs_node [of E 0] assms unfolding costs_def read_node_ref_def decoder_new_at by fastforce
  show "dec_position d \<le> length data"
    using tree_reader.stays_inside [of "decoder_new data" E 0 n d] assms
    by (auto simp: read_node_ref_def decoder_new_def)
qed

theorem decoded_tree_bounded_witness: "3 * node_count sample_node \<le> 15"
  using decoded_tree_bounded [OF sample_decoded] by (simp add: sample_frame_def)

text \<open>C38. The frame format: \<open>unpack\<close> undoes \<open>pack\<close>, and the shape check accepts exactly the
  packed form of at least one byte.\<close>

theorem pack_unpack:
  "unpack zlib (pack node_bytes) = Ok node_bytes \<and>
   (check_plain_payload data = Ok () \<longleftrightarrow> (\<exists>bs. bs \<noteq> [] \<and> data = pack bs))"
  by (auto simp: pack_def unpack_def check_plain_payload_def split: list.splits)

end
