(* ===== verification/Encoder.thy ===== *)
theory Encoder
  imports Decoder_Laws
begin

text \<open>
  The encoder of the binary format: \<open>encoder.rs\<close>.

  An encoder writes through a \<open>ByteWriter\<close>: the function \<open>wr\<close> appends bytes to a writer or
  fails. \<open>vec_write\<close> is the writer over a vector, \<open>io_write\<close> the one over a standard
  \<open>Write\<close>. The encoder carries an optional tape of string classifications a size plan has
  recorded; \<open>write_string\<close> replays the tape and classifies when there is none.

  A JID written as a string contains strings, so \<open>write_string\<close> calls itself; each level takes
  one \<open>@\<close> off a string of at most 48 bytes, and \<open>WRITE_FRAMES\<close> calls are enough for any string
  (\<open>write_string_emits\<close>). Running out of them would be a \<open>Panic\<close>.

  Strings are cut next to ASCII separators only, which are character boundaries of any UTF-8 text:
  of the checks of a string slice the model keeps the one on the length.
\<close>

unbundle bit_operations_syntax

section \<open>Packing tables\<close>

abbreviation (input) PACK_INVALID :: u8 where "PACK_INVALID \<equiv> 0xFF"

definition hex_enc :: "u8 \<Rightarrow> u8" where
  "hex_enc c =
     (if c = 0 then 15
      else if 65 \<le> c \<and> c \<le> 70 then 10 + (c - 65)
      else if 48 \<le> c \<and> c \<le> 57 then c - 48
      else PACK_INVALID)"

definition nibble_enc :: "u8 \<Rightarrow> u8" where
  "nibble_enc c =
     (if c = 0 then 15
      else if c = 46 then 11
      else if c = 45 then 10
      else if 48 \<le> c \<and> c \<le> 57 then c - 48
      else PACK_INVALID)"

section \<open>Classification of strings\<close>

record jid_meta =
  user_end :: u8
  server_start :: u8
  meta_device :: "u8 option"
  meta_server :: "server_name option"

datatype string_hint =
  HEmpty | HSingle u8 | HDouble u8 u8 | HNibble | HHex | HJid jid_meta | HRaw

definition server_to_domain_type :: "server_name \<Rightarrow> u8" where
  "server_to_domain_type srv =
     (case srv of Pn \<Rightarrow> 0 | Lid \<Rightarrow> 1 | Hosted \<Rightarrow> 128 | HostedLid \<Rightarrow> 129 | _ \<Rightarrow> 0)"

definition domain_type :: "jid_meta \<Rightarrow> u8" where
  "domain_type m = (case meta_server m of Some srv \<Rightarrow> server_to_domain_type srv | None \<Rightarrow> 0)"

definition needs_interop_jid :: "server_name \<Rightarrow> u16 \<Rightarrow> bool" where
  "needs_interop_jid srv integ \<longleftrightarrow> srv = Interop \<and> integ \<noteq> 0"

definition server_supports_ad_jid :: "server_name \<Rightarrow> bool" where
  "server_supports_ad_jid srv \<longleftrightarrow> srv \<in> {Pn, Lid, Hosted, HostedLid}"

text \<open>\<open>parse::<u8>()\<close> is \<open>parse_uint 256\<close>.\<close>

definition split_user_device :: "str \<Rightarrow> str \<times> u8 option" where
  "split_user_device user_combined =
     (case str_find 58 user_combined of
        Some colon_idx \<Rightarrow>
          (case parse_uint 256 (drop (colon_idx + 1) user_combined) of
             Some d \<Rightarrow> (take colon_idx user_combined, Some (of_nat d))
           | None \<Rightarrow> (user_combined, None))
      | None \<Rightarrow> (user_combined, None))"

definition find_user_end :: "server_name option \<Rightarrow> str \<Rightarrow> nat" where
  "find_user_end server_kind user_agent =
     (let usr_end =
            (case str_find 95 user_agent of
               Some underscore_idx \<Rightarrow>
                 if parse_uint 256 (drop (underscore_idx + 1) user_agent) \<noteq> None
                 then underscore_idx else length user_agent
             | None \<Rightarrow> length user_agent)
      in
        if server_kind = Some Pn \<or> server_kind = Some Hosted \<or> server_kind = Some HostedLid then
          (case str_rfind 46 (take usr_end user_agent) of
             Some dot_idx \<Rightarrow>
               if parse_uint 256 (slice (dot_idx + 1) usr_end user_agent) \<noteq> None
               then dot_idx else usr_end
           | None \<Rightarrow> usr_end)
        else usr_end)"

definition parse_jid_meta :: "str \<Rightarrow> jid_meta option" where
  "parse_jid_meta input =
     (case str_find 64 input of
        None \<Rightarrow> None
      | Some sep_idx \<Rightarrow>
          (let serv_start = sep_idx + 1;
               server = drop serv_start input;
               (user_agent, device) = split_user_device (take sep_idx input);
               server_kind = parse_known server;
               usr_end = find_user_end server_kind user_agent;
               device =
                 (case server_kind of
                    Some srv \<Rightarrow> if server_supports_ad_jid srv then device else None
                  | None \<Rightarrow> None)
           in
             if usr_end < 256 \<and> serv_start < 256 then
               Some \<lparr>user_end = of_nat usr_end, server_start = of_nat serv_start,
                     meta_device = device, meta_server = server_kind\<rparr>
             else None))"

definition split_jid_from_meta :: "str \<Rightarrow> jid_meta \<Rightarrow> (binary_error, str \<times> str) outcome" where
  "split_jid_from_meta input m =
     (if unat (user_end m) \<le> length input \<and> unat (server_start m) \<le> length input
      then Ok (take (unat (user_end m)) input, drop (unat (server_start m)) input)
      else Panic)"

definition validate_nibble :: "str \<Rightarrow> bool" where
  "validate_nibble value \<longleftrightarrow>
     \<not> PACKED_MAX < length value \<and> list_all (\<lambda>b. is_digit b \<or> b = 45 \<or> b = 46) value"

definition validate_hex :: "str \<Rightarrow> bool" where
  "validate_hex value \<longleftrightarrow>
     \<not> PACKED_MAX < length value \<and> list_all (\<lambda>b. is_digit b \<or> (65 \<le> b \<and> b \<le> 70)) value"

definition classify_string_hint :: "token_tables \<Rightarrow> str \<Rightarrow> string_hint" where
  "classify_string_hint T s =
     (if s = [] then HEmpty
      else
        (let is_likely_jid = (length s \<le> 48) in
         case index_of_token T s of
           Some (Single tok) \<Rightarrow> HSingle tok
         | Some (Double dict tok) \<Rightarrow> HDouble dict tok
         | None \<Rightarrow>
             if validate_nibble s then HNibble
             else if validate_hex s then HHex
             else if is_likely_jid then
               (case parse_jid_meta s of Some m \<Rightarrow> HJid m | None \<Rightarrow> HRaw)
             else HRaw))"

section \<open>The hint tape\<close>

record hint_cache =
  hc_hints :: "string_hint list"
  hc_cursor :: nat

definition hints_default :: hint_cache where
  "hints_default = \<lparr>hc_hints = [], hc_cursor = 0\<rparr>"

text \<open>The classification the plan records and the encoder computes when it has no tape.\<close>

definition hint_of :: "token_tables \<Rightarrow> str \<Rightarrow> string_hint" where
  "hint_of T s = (if PACKED_MAX < length s then HRaw else classify_string_hint T s)"

definition hints_record :: "token_tables \<Rightarrow> hint_cache \<Rightarrow> str \<Rightarrow> string_hint \<times> hint_cache" where
  "hints_record T c s = (let hint = hint_of T s in (hint, c\<lparr>hc_hints := hc_hints c @ [hint]\<rparr>))"

definition hints_next :: "hint_cache \<Rightarrow> string_hint option \<times> hint_cache" where
  "hints_next c =
     (if hc_cursor c < length (hc_hints c)
      then (Some (hc_hints c ! hc_cursor c), c\<lparr>hc_cursor := hc_cursor c + 1\<rparr>)
      else (None, c))"

definition fully_consumed :: "hint_cache \<Rightarrow> bool" where
  "fully_consumed c \<longleftrightarrow> hc_cursor c = length (hc_hints c)"

section \<open>Size plans\<close>

abbreviation (input) WRITE_FRAMES :: nat where "WRITE_FRAMES \<equiv> 50"

type_synonym sizer = "hint_cache \<Rightarrow> (binary_error, nat \<times> hint_cache) outcome"

definition list_start_encoded_size :: "nat \<Rightarrow> nat" where
  "list_start_encoded_size len = (if len = 0 then 1 else if len < 256 then 2 else 3)"

definition binary_len_prefix_size :: "nat \<Rightarrow> nat" where
  "binary_len_prefix_size len = (if len < 256 then 2 else if len < 2 ^ 20 then 4 else 5)"

definition bytes_with_len_encoded_size :: "nat \<Rightarrow> nat" where
  "bytes_with_len_encoded_size len = binary_len_prefix_size len + len"

definition packed_encoded_size :: "nat \<Rightarrow> nat" where
  "packed_encoded_size value_len = 2 + (value_len + 1) div 2"

text \<open>\<open>ss\<close> is \<open>string_encoded_size_with_cache\<close>.\<close>

definition size_plus :: "nat \<Rightarrow> sizer \<Rightarrow> sizer" where
  "size_plus k m c = omap (\<lambda>(k', c). (k + k', c)) (m c)"

definition size_then :: "sizer \<Rightarrow> sizer \<Rightarrow> sizer" where
  "size_then m m' c = obind (m c) (\<lambda>(k, c). size_plus k m' c)"

definition parsed_jid_encoded_size_with_cache :: "(str \<Rightarrow> sizer) \<Rightarrow> str \<Rightarrow> jid_meta \<Rightarrow> sizer" where
  "parsed_jid_encoded_size_with_cache ss jid m c =
     obind (split_jid_from_meta jid m) (\<lambda>(user, raw_server).
       (let server = (case meta_server m of Some srv \<Rightarrow> as_str srv | None \<Rightarrow> raw_server) in
        if meta_device m \<noteq> None then size_plus 3 (ss user) c
        else
          size_plus 1
            (size_then (if user = [] then (\<lambda>c. Ok (1, c)) else ss user) (ss server)) c))"

definition string_encoded_size_from_hint_with_cache :: "(str \<Rightarrow> sizer) \<Rightarrow> str \<Rightarrow> string_hint \<Rightarrow> sizer" where
  "string_encoded_size_from_hint_with_cache ss s hint c =
     (case hint of
        HEmpty \<Rightarrow> Ok (2, c)
      | HSingle _ \<Rightarrow> Ok (1, c)
      | HDouble _ _ \<Rightarrow> Ok (2, c)
      | HNibble \<Rightarrow> Ok (packed_encoded_size (length s), c)
      | HHex \<Rightarrow> Ok (packed_encoded_size (length s), c)
      | HRaw \<Rightarrow> Ok (bytes_with_len_encoded_size (length s), c)
      | HJid m \<Rightarrow> parsed_jid_encoded_size_with_cache ss s m c)"

fun string_size_n :: "token_tables \<Rightarrow> nat \<Rightarrow> str \<Rightarrow> sizer" where
  "string_size_n T 0 s c = Panic"
| "string_size_n T (Suc n) s c =
     (case hints_record T c s of
        (hint, c) \<Rightarrow> string_encoded_size_from_hint_with_cache (string_size_n T n) s hint c)"

definition string_encoded_size_with_cache :: "token_tables \<Rightarrow> str \<Rightarrow> sizer" where
  "string_encoded_size_with_cache T = string_size_n T WRITE_FRAMES"

definition jid_encoded_size_with_cache :: "token_tables \<Rightarrow> str \<Rightarrow> server_name \<Rightarrow> u16 \<Rightarrow> u16 \<Rightarrow> sizer" where
  "jid_encoded_size_with_cache T user srv device integ =
     (if needs_interop_jid srv integ then
        size_then (size_plus 1 (string_encoded_size_with_cache T user)) (\<lambda>c. Ok (2 + 2, c))
      else if 0 < device \<and> server_supports_ad_jid srv then
        size_plus 3 (string_encoded_size_with_cache T user)
      else
        size_plus 1
          (size_then (if user = [] then (\<lambda>c. Ok (1, c)) else string_encoded_size_with_cache T user)
            (string_encoded_size_with_cache T (as_str srv))))"

definition owned_jid_encoded_size_with_cache :: "token_tables \<Rightarrow> jid \<Rightarrow> sizer" where
  "owned_jid_encoded_size_with_cache T j =
     jid_encoded_size_with_cache T (jid_user j) (jid_server j) (jid_device j) (jid_integrator j)"

definition jid_ref_encoded_size_with_cache :: "token_tables \<Rightarrow> jid \<Rightarrow> sizer" where
  "jid_ref_encoded_size_with_cache T j =
     jid_encoded_size_with_cache T (jid_user j) (jid_server j) (jid_device j) (jid_integrator j)"

text \<open>
  The walk over a node. The two walks of the source, over owned and over borrowed nodes, differ in
  the JID sizer \<open>js\<close> they call. Sizes of a sequence of parts add up from left to right.
\<close>

fun size_all :: "sizer list \<Rightarrow> sizer" where
  "size_all [] c = Ok (0, c)"
| "size_all (m # ms) c = size_then m (size_all ms) c"

definition attr_sizes :: "token_tables \<Rightarrow> (jid \<Rightarrow> sizer) \<Rightarrow> attrs \<Rightarrow> sizer list" where
  "attr_sizes T js as = concat (map (\<lambda>(k, v).
     [string_encoded_size_with_cache T k,
      (case v of VString s \<Rightarrow> string_encoded_size_with_cache T s | VJid j \<Rightarrow> js j)]) as)"

definition node_list_len :: "attrs \<Rightarrow> content option \<Rightarrow> nat" where
  "node_list_len as c = 1 + length as * 2 + (if c \<noteq> None then 1 else 0)"

fun node_size_walk :: "token_tables \<Rightarrow> (jid \<Rightarrow> sizer) \<Rightarrow> node \<Rightarrow> sizer"
  and content_size_walk :: "token_tables \<Rightarrow> (jid \<Rightarrow> sizer) \<Rightarrow> content \<Rightarrow> sizer" where
  "node_size_walk T js (Node t as c) =
     size_plus (list_start_encoded_size (node_list_len as c))
       (size_then (string_encoded_size_with_cache T t)
         (size_then (size_all (attr_sizes T js as))
           (case c of None \<Rightarrow> (\<lambda>c. Ok (0, c)) | Some x \<Rightarrow> content_size_walk T js x)))"
| "content_size_walk T js (CString s) = string_encoded_size_with_cache T s"
| "content_size_walk T js (Bytes b) = (\<lambda>c. Ok (bytes_with_len_encoded_size (length b), c))"
| "content_size_walk T js (Nodes ns) =
     size_plus (list_start_encoded_size (length ns)) (size_all (map (node_size_walk T js) ns))"

definition node_encoded_size_with_cache :: "token_tables \<Rightarrow> node \<Rightarrow> sizer" where
  "node_encoded_size_with_cache T = node_size_walk T (owned_jid_encoded_size_with_cache T)"

definition node_ref_encoded_size_with_cache :: "token_tables \<Rightarrow> node \<Rightarrow> sizer" where
  "node_ref_encoded_size_with_cache T = node_size_walk T (jid_ref_encoded_size_with_cache T)"

record size_plan =
  plan_size :: nat
  plan_hints :: hint_cache

definition build_marshaled_node_plan :: "token_tables \<Rightarrow> node \<Rightarrow> (binary_error, size_plan) outcome" where
  "build_marshaled_node_plan T n =
     omap (\<lambda>(k, c). \<lparr>plan_size = 1 + k, plan_hints = c\<rparr>) (node_encoded_size_with_cache T n hints_default)"

definition build_marshaled_node_ref_plan :: "token_tables \<Rightarrow> node \<Rightarrow> (binary_error, size_plan) outcome" where
  "build_marshaled_node_ref_plan T n =
     omap (\<lambda>(k, c). \<lparr>plan_size = 1 + k, plan_hints = c\<rparr>) (node_ref_encoded_size_with_cache T n hints_default)"

section \<open>Writers\<close>

type_synonym 'w writer = "'w \<Rightarrow> u8 list \<Rightarrow> (binary_error, 'w) outcome"

definition vec_write :: "u8 list writer" where
  "vec_write buffer bs = Ok (buffer @ bs)"

definition io_write :: "('w \<Rightarrow> u8 list \<Rightarrow> (str, 'w) outcome) \<Rightarrow> 'w writer" where
  "io_write write_all w bs =
     (case write_all w bs of Ok w \<Rightarrow> Ok w | Err msg \<Rightarrow> Err (Io msg) | Panic \<Rightarrow> Panic)"

text \<open>\<open>write_all\<close> of the standard library's writer over a byte slice: what was written, and the
  room that is left. It fails when the bytes do not fit.\<close>

definition slice_write_all :: "u8 list \<times> nat \<Rightarrow> u8 list \<Rightarrow> (str, u8 list \<times> nat) outcome" where
  "slice_write_all w bs =
     (if length bs \<le> snd w then Ok (fst w @ bs, snd w - length bs)
      else Err (lit ''failed to write whole buffer''))"

section \<open>Encoder\<close>

record 'w encoder =
  enc_writer :: 'w
  enc_hints :: "hint_cache option"

type_synonym 'w enc = "'w encoder \<Rightarrow> (binary_error, 'w encoder) outcome"

text \<open>Statements in sequence, each behind \<open>?\<close>.\<close>

fun eseq :: "'w enc list \<Rightarrow> 'w enc" where
  "eseq [] e = Ok e"
| "eseq (m # ms) e = obind (m e) (eseq ms)"

definition write_raw_bytes :: "'w writer \<Rightarrow> u8 list \<Rightarrow> 'w enc" where
  "write_raw_bytes wr bs e = omap (\<lambda>w. e\<lparr>enc_writer := w\<rparr>) (wr (enc_writer e) bs)"

definition write_u8 :: "'w writer \<Rightarrow> u8 \<Rightarrow> 'w enc" where
  "write_u8 wr v = write_raw_bytes wr [v]"

definition write_u16_be :: "'w writer \<Rightarrow> u16 \<Rightarrow> 'w enc" where
  "write_u16_be wr v = write_raw_bytes wr (be_bytes 2 (unat v))"

definition write_u32_be :: "'w writer \<Rightarrow> u32 \<Rightarrow> 'w enc" where
  "write_u32_be wr v = write_raw_bytes wr (be_bytes 4 (unat v))"

definition write_u20_be :: "'w writer \<Rightarrow> u32 \<Rightarrow> 'w enc" where
  "write_u20_be wr v = write_raw_bytes wr
     [ucast (drop_bit 16 v AND 0x0F), ucast (drop_bit 8 v AND 0xFF), ucast (v AND 0xFF)]"

definition write_bytes_with_len :: "'w writer \<Rightarrow> u8 list \<Rightarrow> 'w enc" where
  "write_bytes_with_len wr bs =
     (let len = length bs in
      eseq
       ((if len < 256 then [write_u8 wr BINARY_8, write_u8 wr (of_nat len)]
         else if len < 2 ^ 20 then [write_u8 wr BINARY_20, write_u20_be wr (of_nat len)]
         else [write_u8 wr BINARY_32, write_u32_be wr (of_nat len)]) @
        [write_raw_bytes wr bs]))"

text \<open>The loop over whole pairs: the OR of all table entries, the packed bytes and the odd
  character that is left.\<close>

fun pack_pairs :: "(u8 \<Rightarrow> u8) \<Rightarrow> u8 \<Rightarrow> u8 list \<Rightarrow> u8 \<times> u8 list \<times> u8 list" where
  "pack_pairs table seen (a # b # rest) =
     (let hi = table a; lo = table b in
      case pack_pairs table (seen OR (hi OR lo)) rest of
        (seen, packed, tail) \<Rightarrow> (seen, (push_bit 4 hi OR lo) # packed, tail))"
| "pack_pairs table seen tail = (seen, [], tail)"

definition write_packed_bytes :: "'w writer \<Rightarrow> str \<Rightarrow> u8 \<Rightarrow> 'w enc" where
  "write_packed_bytes wr value data_type =
     (if PACKED_MAX < length value then (\<lambda>_. Panic)
      else
        (let rounded_len = of_nat ((length value + 1) div 2);
             rounded_len = (if length value mod 2 \<noteq> 0 then rounded_len OR 0x80 else rounded_len);
             table = (if data_type = NIBBLE_8 then nibble_enc else hex_enc);
             (seen, packed, tail) = pack_pairs table 0 value;
             (seen, odd_byte) =
               (case tail of
                  [ch] \<Rightarrow> (seen OR (table ch OR table 0), Some (push_bit 4 (table ch) OR table 0))
                | _ \<Rightarrow> (seen, None))
         in
           eseq
             [write_u8 wr data_type,
              write_u8 wr rounded_len,
              (\<lambda>e. if seen AND 0xF0 = 0 then Ok e else Panic),
              write_raw_bytes wr packed,
              (case odd_byte of Some b \<Rightarrow> write_u8 wr b | None \<Rightarrow> Ok)]))"

text \<open>\<open>ws\<close> is \<open>write_string\<close>.\<close>

definition write_jid_from_meta :: "'w writer \<Rightarrow> (str \<Rightarrow> 'w enc) \<Rightarrow> str \<Rightarrow> jid_meta \<Rightarrow> 'w enc" where
  "write_jid_from_meta wr ws jid m e =
     obind (split_jid_from_meta jid m) (\<lambda>(user, raw_server).
       (let server = (case meta_server m of Some srv \<Rightarrow> as_str srv | None \<Rightarrow> raw_server) in
        (case meta_device m of
           Some device \<Rightarrow>
             eseq [write_u8 wr AD_JID, write_u8 wr (domain_type m), write_u8 wr device, ws user] e
         | None \<Rightarrow>
             eseq
               [write_u8 wr JID_PAIR,
                (if user = [] then write_u8 wr LIST_EMPTY else ws user),
                ws server] e)))"

definition write_string_with_hint :: "'w writer \<Rightarrow> (str \<Rightarrow> 'w enc) \<Rightarrow> str \<Rightarrow> string_hint \<Rightarrow> 'w enc" where
  "write_string_with_hint wr ws s hint =
     (case hint of
        HEmpty \<Rightarrow> eseq [write_u8 wr BINARY_8, write_u8 wr 0]
      | HSingle tok \<Rightarrow> write_u8 wr tok
      | HDouble dict tok \<Rightarrow> eseq [write_u8 wr (DICTIONARY_0 + dict), write_u8 wr tok]
      | HNibble \<Rightarrow> write_packed_bytes wr s NIBBLE_8
      | HHex \<Rightarrow> write_packed_bytes wr s HEX_8
      | HJid m \<Rightarrow> write_jid_from_meta wr ws s m
      | HRaw \<Rightarrow> write_bytes_with_len wr s)"

definition write_string_uncached :: "'w writer \<Rightarrow> (str \<Rightarrow> 'w enc) \<Rightarrow> token_tables \<Rightarrow> str \<Rightarrow> 'w enc" where
  "write_string_uncached wr ws T s =
     (if PACKED_MAX < length s then write_bytes_with_len wr s
      else write_string_with_hint wr ws s (classify_string_hint T s))"

fun write_str_n :: "'w writer \<Rightarrow> token_tables \<Rightarrow> nat \<Rightarrow> str \<Rightarrow> 'w enc" where
  "write_str_n wr T 0 s e = Panic"
| "write_str_n wr T (Suc n) s e =
     (case enc_hints e of
        Some c \<Rightarrow>
          (case hints_next c of
             (Some hint, c) \<Rightarrow> write_string_with_hint wr (write_str_n wr T n) s hint (e\<lparr>enc_hints := Some c\<rparr>)
           | (None, _) \<Rightarrow> write_string_uncached wr (write_str_n wr T n) T s e)
      | None \<Rightarrow> write_string_uncached wr (write_str_n wr T n) T s e)"

definition write_string :: "'w writer \<Rightarrow> token_tables \<Rightarrow> str \<Rightarrow> 'w enc" where
  "write_string wr T = write_str_n wr T WRITE_FRAMES"

definition write_interop_jid :: "'w writer \<Rightarrow> token_tables \<Rightarrow> str \<Rightarrow> u16 \<Rightarrow> u16 \<Rightarrow> 'w enc" where
  "write_interop_jid wr T user device integ =
     eseq [write_u8 wr INTEROP_JID, write_string wr T user, write_u16_be wr device, write_u16_be wr integ]"

definition write_jid_ref :: "'w writer \<Rightarrow> token_tables \<Rightarrow> jid \<Rightarrow> 'w enc" where
  "write_jid_ref wr T j =
     (if needs_interop_jid (jid_server j) (jid_integrator j)
      then write_interop_jid wr T (jid_user j) (jid_device j) (jid_integrator j)
      else if 0 < jid_device j \<and> server_supports_ad_jid (jid_server j) then
        (if unat (jid_device j) < 256 then
           eseq
             [write_u8 wr AD_JID, write_u8 wr (server_to_domain_type (jid_server j)),
              write_u8 wr (ucast (jid_device j)), write_string wr T (jid_user j)]
         else (\<lambda>_. Err (AttrParse (lit ''AD_JID device id out of range: '' @ dec (unat (jid_device j))))))
      else
        eseq
          [write_u8 wr JID_PAIR,
           (if jid_user j = [] then write_u8 wr LIST_EMPTY else write_string wr T (jid_user j)),
           write_string wr T (as_str (jid_server j))])"

definition write_jid_owned :: "'w writer \<Rightarrow> token_tables \<Rightarrow> jid \<Rightarrow> 'w enc" where
  "write_jid_owned wr T j =
     (if needs_interop_jid (jid_server j) (jid_integrator j)
      then write_interop_jid wr T (jid_user j) (jid_device j) (jid_integrator j)
      else if 0 < jid_device j \<and> server_supports_ad_jid (jid_server j) then
        (if unat (jid_device j) < 256 then
           eseq
             [write_u8 wr AD_JID, write_u8 wr (server_to_domain_type (jid_server j)),
              write_u8 wr (ucast (jid_device j)), write_string wr T (jid_user j)]
         else (\<lambda>_. Err (AttrParse (lit ''AD_JID device id out of range: '' @ dec (unat (jid_device j))))))
      else
        eseq
          [write_u8 wr JID_PAIR,
           (if jid_user j = [] then write_u8 wr LIST_EMPTY else write_string wr T (jid_user j)),
           write_string wr T (as_str (jid_server j))])"

definition write_list_start :: "'w writer \<Rightarrow> nat \<Rightarrow> 'w enc" where
  "write_list_start wr len =
     (if len = 0 then write_u8 wr LIST_EMPTY
      else if len < 256 then eseq [write_u8 wr 248, write_u8 wr (of_nat len)]
      else if len \<le> 65535 then eseq [write_u8 wr 249, write_u16_be wr (of_nat len)]
      else (\<lambda>_. Err InvalidNode))"

text \<open>
  \<open>EncodeNode\<close>: the two implementations, for owned and for borrowed nodes, differ in the JID
  writer \<open>wj\<close> they call.
\<close>

definition encode_attrs :: "'w writer \<Rightarrow> token_tables \<Rightarrow> (jid \<Rightarrow> 'w enc) \<Rightarrow> attrs \<Rightarrow> 'w enc list" where
  "encode_attrs wr T wj as = concat (map (\<lambda>(k, v).
     [write_string wr T k, (case v of VString s \<Rightarrow> write_string wr T s | VJid j \<Rightarrow> wj j)]) as)"

fun write_node :: "'w writer \<Rightarrow> token_tables \<Rightarrow> (jid \<Rightarrow> 'w enc) \<Rightarrow> node \<Rightarrow> 'w enc"
  and encode_content :: "'w writer \<Rightarrow> token_tables \<Rightarrow> (jid \<Rightarrow> 'w enc) \<Rightarrow> content \<Rightarrow> 'w enc" where
  "write_node wr T wj (Node t as c) =
     eseq
       [write_list_start wr (node_list_len as c),
        write_string wr T t,
        eseq (encode_attrs wr T wj as),
        (case c of None \<Rightarrow> Ok | Some x \<Rightarrow> encode_content wr T wj x)]"
| "encode_content wr T wj (CString s) = write_string wr T s"
| "encode_content wr T wj (Bytes b) = write_bytes_with_len wr b"
| "encode_content wr T wj (Nodes ns) =
     eseq (write_list_start wr (length ns) # map (write_node wr T wj) ns)"

definition write_node_owned :: "'w writer \<Rightarrow> token_tables \<Rightarrow> node \<Rightarrow> 'w enc" where
  "write_node_owned wr T = write_node wr T (write_jid_owned wr T)"

definition write_node_ref :: "'w writer \<Rightarrow> token_tables \<Rightarrow> node \<Rightarrow> 'w enc" where
  "write_node_ref wr T = write_node wr T (write_jid_ref wr T)"

definition encoder_new :: "'w writer \<Rightarrow> 'w \<Rightarrow> (binary_error, 'w encoder) outcome" where
  "encoder_new wr w = write_u8 wr FORMAT_PLAIN \<lparr>enc_writer = w, enc_hints = None\<rparr>"

definition new_vec_with_hints :: "u8 list \<Rightarrow> hint_cache option \<Rightarrow> (binary_error, u8 list encoder) outcome" where
  "new_vec_with_hints buffer string_hints =
     write_u8 vec_write FORMAT_PLAIN \<lparr>enc_writer = [], enc_hints = string_hints\<rparr>"

definition new_vec :: "u8 list \<Rightarrow> (binary_error, u8 list encoder) outcome" where
  "new_vec buffer = new_vec_with_hints buffer None"

end
