(* ===== verification/Encoder_Laws.thy ===== *)
theory Encoder_Laws
  imports Encoder
begin

text \<open>
  What the encoder writes. \<open>enc_str\<close>, \<open>enc_jid\<close> and \<open>enc_node\<close> say which bytes a string, a JID
  and a node are encoded to, without writer, tape or stack; the size plan predicts their length and
  records their hints (\<open>plan_node\<close>), and the encoder writes them on any writer, with or without
  the tape of that plan (\<open>emits_node\<close> in the locale \<open>byte_writer\<close>).
\<close>

unbundle bit_operations_syntax

section \<open>What a string is encoded to\<close>

text \<open>The parts of a JID string: the user and the server as they are written.\<close>

definition meta_user :: "str \<Rightarrow> jid_meta \<Rightarrow> str" where
  "meta_user s m = take (unat (user_end m)) s"

definition meta_serv :: "str \<Rightarrow> jid_meta \<Rightarrow> str" where
  "meta_serv s m = (case meta_server m of Some srv \<Rightarrow> as_str srv | None \<Rightarrow> drop (unat (server_start m)) s)"

lemma str_find_le: "str_find c s = Some i \<Longrightarrow> i < length s"
  by (erule str_find_SomeE) simp

lemma str_rfind_le: "str_rfind c s = Some i \<Longrightarrow> i < length s"
  by (erule str_rfind_SomeE) simp

lemma split_user_device_prefix: "\<exists>k. fst (split_user_device u) = take k u"
  by (auto simp: split_user_device_def split: option.splits intro: exI [of _ "length u"])

lemma find_user_end_le: "find_user_end k u \<le> length u"
  unfolding find_user_end_def Let_def
  by (auto split: option.splits dest!: str_find_le str_rfind_le)

text \<open>What classification as a JID says about a string.\<close>

lemma parse_jid_meta_parts:
  assumes "parse_jid_meta s = Some m"
  obtains u r where "s = u @ 64 # r" "64 \<notin> set u" "unat (user_end m) \<le> length u"
    "unat (server_start m) = length u + 1" "meta_server m = parse_known r"
    "meta_device m \<noteq> None \<Longrightarrow> \<exists>srv. meta_server m = Some srv \<and> server_supports_ad_jid srv"
proof -
  from assms obtain i where i: "str_find 64 s = Some i" by (auto simp: parse_jid_meta_def split: option.splits)
  from str_find_SomeE [OF this] obtain u r where u: "s = u @ 64 # r" "64 \<notin> set u" "i = length u" by metis
  obtain ua d where ud: "split_user_device u = (ua, d)" by (cases "split_user_device u")
  then have "length ua \<le> length u" using split_user_device_prefix [of u] by auto
  with find_user_end_le [of "parse_known r" ua] have le: "find_user_end (parse_known r) ua \<le> length u" by simp
  from assms i u ud have m: "find_user_end (parse_known r) ua < 256" "length u + 1 < 256"
    "m = \<lparr>user_end = of_nat (find_user_end (parse_known r) ua), server_start = of_nat (length u + 1),
       meta_device = (case parse_known r of Some srv \<Rightarrow> if server_supports_ad_jid srv then d else None | None \<Rightarrow> None),
       meta_server = parse_known r\<rparr>"
    by (auto simp: parse_jid_meta_def Let_def split: if_splits)
  have "unat (server_start m) = length u + 1" unfolding m(3) jid_meta.simps using m(2) by (simp only: unat_u8_of_nat mod_less)
  then show ?thesis
    by (intro that [OF u(1,2)])
       (use m le in \<open>auto simp: unat_u8_of_nat unat_of_nat split: option.splits if_splits\<close>)
qed

lemma hint_of_HJid: "hint_of T s = HJid m \<Longrightarrow> length s \<le> 48 \<and> parse_jid_meta s = Some m"
  by (auto simp: hint_of_def classify_string_hint_def Let_def split: if_splits option.splits token_kind.splits)

lemma meta_user_count: "hint_of T s = HJid m \<Longrightarrow> 64 \<notin> set (meta_user s m)"
  using parse_jid_meta_parts [of s m] hint_of_HJid [of T s m] unfolding meta_user_def
  by (metis in_set_takeD take_append[of _ _ "64 # _"] diff_is_0_eq' append_Nil2 take_0)

lemma meta_serv_count:
  assumes "hint_of T s = HJid m"
  shows "count_list (meta_serv s m) 64 < count_list s 64"
proof -
  from hint_of_HJid [OF assms] obtain u r where "s = u @ 64 # r" "unat (server_start m) = length u + 1"
    by (metis parse_jid_meta_parts)
  then show ?thesis
    using as_str_no_at by (auto simp: meta_serv_def split: option.splits)
qed

lemma meta_user_meta_serv_less:
  assumes "hint_of T s = HJid m"
  shows "count_list (meta_user s m) 64 < count_list s 64" "count_list (meta_serv s m) 64 < count_list s 64"
  using meta_serv_count [OF assms] meta_user_count [OF assms] by (simp_all add: count_notin)

text \<open>Bytes behind a length.\<close>

definition u20_bytes :: "nat \<Rightarrow> u8 list" where
  "u20_bytes n = (let v = of_nat n :: u32 in
     [ucast (drop_bit 16 v AND 0x0F), ucast (drop_bit 8 v AND 0xFF), ucast (v AND 0xFF)])"

definition enc_bytes :: "u8 list \<Rightarrow> u8 list" where
  "enc_bytes bs =
     (if length bs < 256 then [BINARY_8, of_nat (length bs)]
      else if length bs < 2 ^ 20 then BINARY_20 # u20_bytes (length bs)
      else BINARY_32 # be_bytes 4 (unat (of_nat (length bs) :: u32))) @ bs"

text \<open>Two characters per byte, the odd one padded.\<close>

fun pack_chars :: "(u8 \<Rightarrow> u8) \<Rightarrow> str \<Rightarrow> u8 list" where
  "pack_chars t (a # b # s) = (push_bit 4 (t a) OR t b) # pack_chars t s"
| "pack_chars t [a] = [push_bit 4 (t a) OR t 0]"
| "pack_chars t [] = []"

definition enc_packed :: "u8 \<Rightarrow> str \<Rightarrow> u8 list" where
  "enc_packed tag s =
     tag # (of_nat ((length s + 1) div 2) OR (if length s mod 2 \<noteq> 0 then 0x80 else 0)) #
     pack_chars (if tag = NIBBLE_8 then nibble_enc else hex_enc) s"

function enc_str :: "token_tables \<Rightarrow> str \<Rightarrow> u8 list" where
  "enc_str T s =
     (case hint_of T s of
        HEmpty \<Rightarrow> [BINARY_8, 0]
      | HSingle tok \<Rightarrow> [tok]
      | HDouble dict tok \<Rightarrow> [DICTIONARY_0 + dict, tok]
      | HNibble \<Rightarrow> enc_packed NIBBLE_8 s
      | HHex \<Rightarrow> enc_packed HEX_8 s
      | HRaw \<Rightarrow> enc_bytes s
      | HJid m \<Rightarrow>
          (case meta_device m of
             Some device \<Rightarrow> [AD_JID, domain_type m, device] @ enc_str T (meta_user s m)
           | None \<Rightarrow>
               JID_PAIR # (if meta_user s m = [] then [LIST_EMPTY] else enc_str T (meta_user s m)) @
               enc_str T (meta_serv s m)))"
  by pat_completeness auto
termination
  by (relation "measure (\<lambda>(T, s). count_list s 64)") (auto simp: meta_user_meta_serv_less)

declare enc_str.simps [simp del]

text \<open>The hints a string takes from the tape.\<close>

function str_hints :: "token_tables \<Rightarrow> str \<Rightarrow> string_hint list" where
  "str_hints T s =
     hint_of T s #
     (case hint_of T s of
        HJid m \<Rightarrow>
          (if meta_device m \<noteq> None then str_hints T (meta_user s m)
           else (if meta_user s m = [] then [] else str_hints T (meta_user s m)) @ str_hints T (meta_serv s m))
      | _ \<Rightarrow> [])"
  by pat_completeness auto
termination
  by (relation "measure (\<lambda>(T, s). count_list s 64)") (auto simp: meta_user_meta_serv_less)

declare str_hints.simps [simp del]

lemma str_hints_plain: "\<nexists>m. hint_of T s = HJid m \<Longrightarrow> str_hints T s = [hint_of T s]"
  by (cases "hint_of T s") (auto simp: str_hints.simps [of T s])

lemma length_pack_chars: "length (pack_chars t s) = (length s + 1) div 2"
  by (induction t s rule: pack_chars.induct) auto

lemma length_enc_bytes: "length (enc_bytes bs) = bytes_with_len_encoded_size (length bs)"
  by (simp add: enc_bytes_def bytes_with_len_encoded_size_def binary_len_prefix_size_def u20_bytes_def Let_def length_be_bytes)

lemma length_enc_packed: "length (enc_packed tag s) = packed_encoded_size (length s)"
  by (simp add: enc_packed_def packed_encoded_size_def length_pack_chars)

lemma split_jid_ok:
  assumes "hint_of T s = HJid m"
  shows "split_jid_from_meta s m = Ok (meta_user s m, drop (unat (server_start m)) s)"
proof -
  from hint_of_HJid [OF assms] obtain u r where "s = u @ 64 # r" "unat (server_start m) = length u + 1"
    "unat (user_end m) \<le> length u" by (metis parse_jid_meta_parts)
  then show ?thesis by (simp add: split_jid_from_meta_def meta_user_def)
qed

definition plan_adds :: "nat \<Rightarrow> string_hint list \<Rightarrow> sizer \<Rightarrow> bool" where
  "plan_adds k hs m \<longleftrightarrow> (\<forall>c. m c = Ok (k, c\<lparr>hc_hints := hc_hints c @ hs\<rparr>))"

lemma plan_adds_pure: "plan_adds k [] (\<lambda>c. Ok (k, c))"
  by (simp add: plan_adds_def)

lemma plan_adds_plus: "plan_adds k hs m \<Longrightarrow> plan_adds (j + k) hs (size_plus j m)"
  by (simp add: plan_adds_def size_plus_def)

lemma plan_adds_then: "plan_adds j hs m \<Longrightarrow> plan_adds k hs' m' \<Longrightarrow> plan_adds (j + k) (hs @ hs') (size_then m m')"
  by (simp add: plan_adds_def size_then_def size_plus_def)

lemma plan_string_plain:
  assumes "\<nexists>m. hint_of T s = HJid m"
  shows "plan_adds (length (enc_str T s)) (str_hints T s) (string_size_n T (Suc n) s)"
  using assms
  by (cases "hint_of T s")
     (auto simp: plan_adds_def hints_record_def Let_def string_encoded_size_from_hint_with_cache_def enc_str.simps [of T s]
       str_hints.simps [of T s] length_enc_packed length_enc_bytes)

lemma plan_string_n: "count_list s 64 < n \<Longrightarrow> plan_adds (length (enc_str T s)) (str_hints T s) (string_size_n T n s)"
proof (induction n arbitrary: s)
  case (Suc n)
  show ?case
  proof (cases "hint_of T s")
    case (HJid m)
    note less = meta_user_meta_serv_less [OF HJid]
    have u: "plan_adds (length (enc_str T (meta_user s m))) (str_hints T (meta_user s m)) (string_size_n T n (meta_user s m))"
      by (rule Suc.IH) (use less Suc.prems in simp)
    have v: "plan_adds (length (enc_str T (meta_serv s m))) (str_hints T (meta_serv s m)) (string_size_n T n (meta_serv s m))"
      by (rule Suc.IH) (use less Suc.prems in simp)
    have w: "plan_adds (if meta_user s m = [] then 1 else length (enc_str T (meta_user s m)))
        (if meta_user s m = [] then [] else str_hints T (meta_user s m))
        (if meta_user s m = [] then (\<lambda>c. Ok (1, c)) else string_size_n T n (meta_user s m))"
      using u by (simp add: plan_adds_pure)
    note jid = plan_adds_plus [OF plan_adds_then [OF w v], of 1] and ad = plan_adds_plus [OF u, of 3]
    have "plan_adds (length (enc_str T s) ) (tl (str_hints T s)) (parsed_jid_encoded_size_with_cache (string_size_n T n) s m)"
      using jid ad
      by (cases "meta_device m")
         (simp_all add: plan_adds_def Let_def parsed_jid_encoded_size_with_cache_def split_jid_ok [OF HJid] meta_serv_def [symmetric]
           enc_str.simps [of T s] str_hints.simps [of T s] HJid)
    then show ?thesis
      by (simp add: plan_adds_def hints_record_def Let_def string_encoded_size_from_hint_with_cache_def str_hints.simps [of T s] HJid)
  qed (rule plan_string_plain, simp)+
qed simp

lemma count_list_le: "count_list xs x \<le> length xs"
  by (induction xs) auto

lemma plan_string: "plan_adds (length (enc_str T s)) (str_hints T s) (string_encoded_size_with_cache T s)"
proof (cases "\<exists>m. hint_of T s = HJid m")
  case True
  then have "count_list s 64 < WRITE_FRAMES"
    using hint_of_HJid [of T s] count_list_le [of s 64] by (auto dest: order_trans)
  then show ?thesis unfolding string_encoded_size_with_cache_def by (rule plan_string_n)
next
  case False
  then show ?thesis
    using plan_string_plain [of T s 49] by (simp add: string_encoded_size_with_cache_def eval_nat_numeral)
qed

section \<open>What a node is encoded to\<close>

definition join :: "('e, 'a list) outcome \<Rightarrow> ('e, 'a list) outcome \<Rightarrow> ('e, 'a list) outcome" where
  "join a b = obind a (\<lambda>x. omap (\<lambda>y. x @ y) b)"

definition enc_all :: "('e, 'a list) outcome list \<Rightarrow> ('e, 'a list) outcome" where
  "enc_all xs = foldr join xs (Ok [])"

definition enc_list :: "nat \<Rightarrow> (binary_error, u8 list) outcome" where
  "enc_list len =
     (if len = 0 then Ok [LIST_EMPTY]
      else if len < 256 then Ok [LIST_8, of_nat len]
      else if len \<le> 65535 then Ok (LIST_16 # be_bytes 2 len)
      else Err InvalidNode)"

definition enc_jid :: "token_tables \<Rightarrow> jid \<Rightarrow> (binary_error, u8 list) outcome" where
  "enc_jid T j =
     (if needs_interop_jid (jid_server j) (jid_integrator j) then
        Ok (INTEROP_JID # enc_str T (jid_user j) @ be_bytes 2 (unat (jid_device j)) @ be_bytes 2 (unat (jid_integrator j)))
      else if 0 < jid_device j \<and> server_supports_ad_jid (jid_server j) then
        (if unat (jid_device j) < 256 then
           Ok ([AD_JID, server_to_domain_type (jid_server j), ucast (jid_device j)] @ enc_str T (jid_user j))
         else Err (AttrParse (lit ''AD_JID device id out of range: '' @ dec (unat (jid_device j)))))
      else
        Ok (JID_PAIR # (if jid_user j = [] then [LIST_EMPTY] else enc_str T (jid_user j)) @
          enc_str T (as_str (jid_server j))))"

definition jid_hints :: "token_tables \<Rightarrow> jid \<Rightarrow> string_hint list" where
  "jid_hints T j =
     (if needs_interop_jid (jid_server j) (jid_integrator j) \<or>
         0 < jid_device j \<and> server_supports_ad_jid (jid_server j)
      then str_hints T (jid_user j)
      else (if jid_user j = [] then [] else str_hints T (jid_user j)) @ str_hints T (as_str (jid_server j)))"

definition jid_size :: "token_tables \<Rightarrow> jid \<Rightarrow> nat" where
  "jid_size T j =
     (if needs_interop_jid (jid_server j) (jid_integrator j) then 5 + length (enc_str T (jid_user j))
      else if 0 < jid_device j \<and> server_supports_ad_jid (jid_server j) then 3 + length (enc_str T (jid_user j))
      else 1 + (if jid_user j = [] then 1 else length (enc_str T (jid_user j))) + length (enc_str T (as_str (jid_server j))))"

definition attr_encs :: "token_tables \<Rightarrow> attrs \<Rightarrow> (binary_error, u8 list) outcome list" where
  "attr_encs T as = concat (map (\<lambda>(k, v).
     [Ok (enc_str T k), (case v of VString s \<Rightarrow> Ok (enc_str T s) | VJid j \<Rightarrow> enc_jid T j)]) as)"

definition attr_hints :: "token_tables \<Rightarrow> attrs \<Rightarrow> string_hint list" where
  "attr_hints T as = concat (map (\<lambda>(k, v).
     str_hints T k @ (case v of VString s \<Rightarrow> str_hints T s | VJid j \<Rightarrow> jid_hints T j)) as)"

definition attrs_size :: "token_tables \<Rightarrow> attrs \<Rightarrow> nat" where
  "attrs_size T as = sum_list (map (\<lambda>(k, v).
     length (enc_str T k) + (case v of VString s \<Rightarrow> length (enc_str T s) | VJid j \<Rightarrow> jid_size T j)) as)"

fun enc_node :: "token_tables \<Rightarrow> node \<Rightarrow> (binary_error, u8 list) outcome"
  and enc_content :: "token_tables \<Rightarrow> content \<Rightarrow> (binary_error, u8 list) outcome" where
  "enc_node T (Node t as c) =
     enc_all [enc_list (node_list_len as c), Ok (enc_str T t), enc_all (attr_encs T as),
       (case c of None \<Rightarrow> Ok [] | Some x \<Rightarrow> enc_content T x)]"
| "enc_content T (CString s) = Ok (enc_str T s)"
| "enc_content T (Bytes b) = Ok (enc_bytes b)"
| "enc_content T (Nodes ns) = enc_all (enc_list (length ns) # map (enc_node T) ns)"

fun node_hints :: "token_tables \<Rightarrow> node \<Rightarrow> string_hint list"
  and content_hints :: "token_tables \<Rightarrow> content \<Rightarrow> string_hint list" where
  "node_hints T (Node t as c) =
     str_hints T t @ attr_hints T as @ (case c of None \<Rightarrow> [] | Some x \<Rightarrow> content_hints T x)"
| "content_hints T (CString s) = str_hints T s"
| "content_hints T (Bytes b) = []"
| "content_hints T (Nodes ns) = concat (map (node_hints T) ns)"

fun node_bytes :: "token_tables \<Rightarrow> node \<Rightarrow> nat" and content_size :: "token_tables \<Rightarrow> content \<Rightarrow> nat" where
  "node_bytes T (Node t as c) =
     list_start_encoded_size (node_list_len as c) + (length (enc_str T t) + (attrs_size T as +
       (case c of None \<Rightarrow> 0 | Some x \<Rightarrow> content_size T x)))"
| "content_size T (CString s) = length (enc_str T s)"
| "content_size T (Bytes b) = bytes_with_len_encoded_size (length b)"
| "content_size T (Nodes ns) = list_start_encoded_size (length ns) + sum_list (map (node_bytes T) ns)"

lemma size_all_fun: "size_all [] = (\<lambda>c. Ok (0, c))" "size_all (m # ms) = size_then m (size_all ms)"
  by (auto simp: fun_eq_iff)

lemma plan_adds_size_all:
  "list_all2 (\<lambda>(k, hs) m. plan_adds k hs m) khs ms \<Longrightarrow>
   plan_adds (sum_list (map fst khs)) (concat (map snd khs)) (size_all ms)"
proof (induction rule: list_all2_induct)
  case Nil
  then show ?case by (simp add: plan_adds_def)
next
  case (Cons kh khs m ms)
  obtain k hs where kh: "kh = (k, hs)" by (cases kh)
  from plan_adds_then [of k hs m, OF _ Cons(3)] Cons(1) show ?case
    by (simp add: kh plan_adds_def)
qed

lemma plan_jid: "plan_adds (jid_size T j) (jid_hints T j)
    (jid_encoded_size_with_cache T (jid_user j) (jid_server j) (jid_device j) (jid_integrator j))"
proof -
  note u = plan_string [of T "jid_user j"] and v = plan_string [of T "as_str (jid_server j)"]
  have w: "plan_adds (if jid_user j = [] then 1 else length (enc_str T (jid_user j)))
      (if jid_user j = [] then [] else str_hints T (jid_user j))
      (if jid_user j = [] then (\<lambda>c. Ok (1, c)) else string_encoded_size_with_cache T (jid_user j))"
    using u by (simp add: plan_adds_pure)
  show ?thesis
    using plan_adds_then [OF plan_adds_plus [OF u, of 1] plan_adds_pure [of 4]] plan_adds_plus [OF u, of 3]
      plan_adds_plus [OF plan_adds_then [OF w v], of 1]
    by (auto simp: jid_size_def jid_hints_def jid_encoded_size_with_cache_def numeral_eq_Suc)
qed

lemma plan_attrs:
  assumes "\<And>j. plan_adds (jid_size T j) (jid_hints T j) (js j)"
  shows "plan_adds (attrs_size T as) (attr_hints T as) (size_all (attr_sizes T js as))"
proof (induction as)
  case Nil
  then show ?case by (simp add: plan_adds_def attrs_size_def attr_hints_def attr_sizes_def)
next
  case (Cons a as)
  obtain k v where a: "a = (k, v)" by (cases a)
  let ?k = "case v of VString s \<Rightarrow> length (enc_str T s) | VJid j \<Rightarrow> jid_size T j"
  let ?h = "case v of VString s \<Rightarrow> str_hints T s | VJid j \<Rightarrow> jid_hints T j"
  have "plan_adds ?k ?h (case v of VString s \<Rightarrow> string_encoded_size_with_cache T s | VJid j \<Rightarrow> js j)"
    using assms plan_string by (cases v) simp_all
  from plan_adds_then [OF plan_string [of T k] plan_adds_then [OF this Cons]]
  show ?case by (simp add: a attrs_size_def attr_hints_def attr_sizes_def size_all_fun add.assoc)
qed

lemma plan_node:
  assumes js: "\<And>j. plan_adds (jid_size T j) (jid_hints T j) (js j)"
  shows "plan_adds (node_bytes T n) (node_hints T n) (node_size_walk T js n)"
    and "plan_adds (content_size T c) (content_hints T c) (content_size_walk T js c)"
proof (induction n and c)
  case (Node t as c)
  have "plan_adds (case c of None \<Rightarrow> 0 | Some x \<Rightarrow> content_size T x) (case c of None \<Rightarrow> [] | Some x \<Rightarrow> content_hints T x)
      (case c of None \<Rightarrow> (\<lambda>c. Ok (0, c)) | Some x \<Rightarrow> content_size_walk T js x)"
    using Node by (cases c) (simp_all add: plan_adds_pure)
  from plan_adds_plus [OF plan_adds_then [OF plan_string plan_adds_then [OF plan_attrs [OF js] this]]]
  show ?case by simp
next
  case (Nodes ns)
  then have "list_all2 (\<lambda>(k, hs) m. plan_adds k hs m) (map (\<lambda>n. (node_bytes T n, node_hints T n)) ns) (map (node_size_walk T js) ns)"
    by (simp add: list_all2_conv_all_nth)
  from plan_adds_plus [OF plan_adds_size_all [OF this]] show ?case by (simp add: comp_def)
qed (simp_all add: plan_adds_pure plan_string)

lemma length_join: "join a b = Ok c \<longleftrightarrow> (\<exists>x y. a = Ok x \<and> b = Ok y \<and> c = x @ y)"
  by (auto simp: join_def obind_eq_Ok omap_eq_Ok)

lemma enc_all_simps [simp]: "enc_all [] = Ok []" "enc_all (x # xs) = join x (enc_all xs)"
  by (simp_all add: enc_all_def)

lemma join_Ok [simp]: "join (Ok x) (Ok y) = Ok (x @ y)" "join (Err e) b = Err e"
  by (simp_all add: join_def)

lemma join_Nil [simp]: "join a (Ok []) = a"
  by (cases a) (simp_all add: join_def)

lemma enc_list_length: "enc_list n = Ok bs \<Longrightarrow> length bs = list_start_encoded_size n"
  by (auto simp: enc_list_def list_start_encoded_size_def length_be_bytes split: if_splits)

lemma enc_jid_length: "enc_jid T j = Ok bs \<Longrightarrow> length bs = jid_size T j"
  by (auto simp: enc_jid_def jid_size_def length_be_bytes split: if_splits)

lemma enc_attrs_length: "enc_all (attr_encs T as) = Ok bs \<Longrightarrow> length bs = attrs_size T as"
proof (induction as arbitrary: bs)
  case (Cons a as)
  obtain k v where a: "a = (k, v)" by (cases a)
  from Cons.prems obtain x y where "(case v of VString s \<Rightarrow> Ok (enc_str T s) | VJid j \<Rightarrow> enc_jid T j) = Ok x"
    "enc_all (attr_encs T as) = Ok y" "bs = enc_str T k @ x @ y"
    by (auto simp: attr_encs_def a length_join)
  with Cons.IH [of y] show ?case by (cases v) (auto simp: a attrs_size_def enc_jid_length)
qed (simp add: attr_encs_def attrs_size_def)

lemma enc_all_map_length:
  "(\<And>x bs. x \<in> set xs \<Longrightarrow> f x = Ok bs \<Longrightarrow> length bs = g x) \<Longrightarrow> enc_all (map f xs) = Ok bs \<Longrightarrow>
   length bs = sum_list (map g xs)"
  by (induction xs arbitrary: bs) (auto simp: length_join)

lemma enc_node_length: "enc_node T n = Ok bs \<Longrightarrow> length bs = node_bytes T n"
    and enc_content_length: "enc_content T c = Ok bs \<Longrightarrow> length bs = content_size T c"
proof (induction n and c arbitrary: bs and bs)
  case (Node t as c)
  then show ?case
    by (cases c) (auto simp: length_join dest!: enc_list_length enc_attrs_length)
next
  case (Nodes ns)
  then show ?case using enc_all_map_length [of ns "enc_node T" "node_bytes T"]
    by (auto simp: length_join dest!: enc_list_length)
qed (auto simp: length_enc_bytes)

section \<open>Writing\<close>

text \<open>The next hints on the tape, if there is one.\<close>

definition expects :: "'w encoder \<Rightarrow> string_hint list \<Rightarrow> bool" where
  "expects e hs \<longleftrightarrow> (case enc_hints e of None \<Rightarrow> True | Some c \<Rightarrow> take (length hs) (drop (hc_cursor c) (hc_hints c)) = hs)"

definition bump :: "nat \<Rightarrow> hint_cache option \<Rightarrow> hint_cache option" where
  "bump k = map_option (\<lambda>c. c\<lparr>hc_cursor := hc_cursor c + k\<rparr>)"

text \<open>
  \<open>emits wr contents hs r m\<close>: on a tape that has the hints \<open>hs\<close> next (or without tape) the
  statement \<open>m\<close> consumes them and writes the bytes of \<open>r\<close>, or fails as \<open>r\<close> does, or fails
  because the writer does. It never panics.
\<close>

definition emits :: "'w writer \<Rightarrow> ('w \<Rightarrow> u8 list) \<Rightarrow> string_hint list \<Rightarrow> (binary_error, u8 list) outcome \<Rightarrow> 'w enc \<Rightarrow> bool" where
  "emits wr contents hs r m \<longleftrightarrow> (\<forall>e. expects e hs \<longrightarrow>
     (case m e of
        Ok e' \<Rightarrow> (\<exists>bs. r = Ok bs \<and> contents (enc_writer e') = contents (enc_writer e) @ bs) \<and>
          enc_hints e' = bump (length hs) (enc_hints e)
      | Err x \<Rightarrow> r = Err x \<or> (\<exists>w bs. wr w bs = Err x)
      | Panic \<Rightarrow> False))"

lemma take_append_split:
  assumes "take (length (xs @ ys)) zs = xs @ ys"
  shows "take (length xs) zs = xs" "take (length ys) (drop (length xs) zs) = ys"
proof -
  have "take (length xs) (take (length (xs @ ys)) zs) = xs" unfolding assms by simp
  then show "take (length xs) zs = xs" by simp
  have "drop (length xs) (take (length (xs @ ys)) zs) = ys" unfolding assms by simp
  then show "take (length ys) (drop (length xs) zs) = ys" by (simp add: drop_take)
qed

lemma expects_append:
  assumes "expects e (hs @ hs')"
  shows "expects e hs" and "enc_hints e' = bump (length hs) (enc_hints e) \<Longrightarrow> expects e' hs'"
proof -
  show "expects e hs"
    using assms take_append_split(1) [of hs hs'] by (auto simp: expects_def split: option.splits)
  assume h: "enc_hints e' = bump (length hs) (enc_hints e)"
  show "expects e' hs'"
  proof (cases "enc_hints e")
    case (Some c)
    with assms h take_append_split(2) [of hs hs' "drop (hc_cursor c) (hc_hints c)"]
    show ?thesis by (simp add: expects_def bump_def add.commute)
  qed (use h in \<open>simp add: expects_def bump_def\<close>)
qed

lemma bump_simps [simp]: "bump 0 c = c" "bump i (bump j c) = bump (j + i) c"
  by (cases c; simp add: bump_def add.assoc)+

lemma small_nibble: "(x :: u8) < 16 \<longleftrightarrow> x AND 0xF0 = 0"
  by (rule u8_all [of "\<lambda>x. x < 16 \<longleftrightarrow> x AND 0xF0 = 0"]) code_simp

lemma or_small: "(x :: u8) < 16 \<Longrightarrow> y < 16 \<Longrightarrow> x OR y < 16"
  by (simp add: small_nibble bit.conj_disj_distrib2)

lemma pack_pairs_seen:
  assumes "list_all (\<lambda>c. table c < 16) s" "seen < 16"
  shows "case pack_pairs table seen s of (seen', packed, tail) \<Rightarrow>
    seen' < 16 \<and> length tail = length s mod 2 \<and> list_all (\<lambda>c. table c < 16) tail \<and>
    pack_chars table s = packed @ (case tail of [c] \<Rightarrow> [push_bit 4 (table c) OR table 0] | _ \<Rightarrow> [])"
  using assms
proof (induction table seen s rule: pack_pairs.induct)
  case (1 table seen a b rest)
  then have "seen OR (table a OR table b) < 16" by (simp add: or_small)
  with 1 show ?case by (auto simp: Let_def split: prod.splits list.splits)
qed auto

lemma nibble_enc_small: "is_digit c \<or> c = 45 \<or> c = 46 \<Longrightarrow> nibble_enc c < 16"
  by (rule u8_all [of "\<lambda>c. (is_digit c \<or> c = 45 \<or> c = 46) \<longrightarrow> nibble_enc c < 16", THEN mp]) (code_simp, assumption)

lemma hex_enc_small: "is_digit c \<or> 65 \<le> c \<and> c \<le> 70 \<Longrightarrow> hex_enc c < 16"
  by (rule u8_all [of "\<lambda>c. (is_digit c \<or> 65 \<le> c \<and> c \<le> 70) \<longrightarrow> hex_enc c < 16", THEN mp]) (code_simp, assumption)

lemma hint_of_packed:
  "hint_of T s = HNibble \<Longrightarrow> length s \<le> PACKED_MAX \<and> validate_nibble s \<and> list_all (\<lambda>c. nibble_enc c < 16) s"
  "hint_of T s = HHex \<Longrightarrow> length s \<le> PACKED_MAX \<and> validate_hex s \<and> list_all (\<lambda>c. hex_enc c < 16) s"
  using nibble_enc_small hex_enc_small
  by (auto simp: hint_of_def classify_string_hint_def Let_def validate_nibble_def validate_hex_def list_all_iff
      split: if_splits option.splits token_kind.splits)

text \<open>The interface of a \<open>ByteWriter\<close>: writing appends or fails.\<close>

locale byte_writer =
  fixes wr :: "'w writer"
    and contents :: "'w \<Rightarrow> u8 list"
  assumes appends: "wr w bs = Ok w' \<Longrightarrow> contents w' = contents w @ bs"
    and no_panic: "wr w bs \<noteq> Panic"
begin

lemma emits_raw: "emits wr contents [] (Ok bs) (write_raw_bytes wr bs)"
  unfolding emits_def
proof (intro allI impI)
  fix e :: "'w encoder"
  show "case write_raw_bytes wr bs e of
        Ok e' \<Rightarrow> (\<exists>xs. Ok bs = Ok xs \<and> contents (enc_writer e') = contents (enc_writer e) @ xs) \<and>
          enc_hints e' = bump (length []) (enc_hints e)
      | Err x \<Rightarrow> Ok bs = Err x \<or> (\<exists>w bs. wr w bs = Err x)
      | Panic \<Rightarrow> False"
    using appends [of "enc_writer e" bs] no_panic [of "enc_writer e" bs]
    by (cases "wr (enc_writer e) bs") (auto simp: write_raw_bytes_def)
qed

lemma emits_u8: "emits wr contents [] (Ok [v]) (write_u8 wr v)"
  unfolding write_u8_def by (rule emits_raw)

lemma emits_u16: "emits wr contents [] (Ok (be_bytes 2 (unat v))) (write_u16_be wr v)"
  unfolding write_u16_be_def by (rule emits_raw)

lemma emits_u32: "emits wr contents [] (Ok (be_bytes 4 (unat v))) (write_u32_be wr v)"
  unfolding write_u32_be_def by (rule emits_raw)

lemma emits_u20: "emits wr contents [] (Ok (u20_bytes n)) (write_u20_be wr (of_nat n))"
  unfolding write_u20_be_def u20_bytes_def Let_def by (rule emits_raw)

lemma emits_skip: "emits wr contents [] (Ok []) Ok"
  by (simp add: emits_def)

lemma emits_fail: "emits wr contents hs (Err x) (\<lambda>_. Err x)"
  by (simp add: emits_def)

lemma emits_Nil: "emits wr contents [] (Ok []) (eseq [])"
  by (simp add: emits_def)

lemma emits_Cons:
  assumes "emits wr contents hs r m" "emits wr contents hs' r' (eseq ms)"
  shows "emits wr contents (hs @ hs') (join r r') (eseq (m # ms))"
  unfolding emits_def
proof (intro allI impI)
  fix e :: "'w encoder" assume e: "expects e (hs @ hs')"
  note m = assms(1) [unfolded emits_def, THEN spec, THEN mp, OF expects_append(1) [OF e]]
  show "case eseq (m # ms) e of
        Ok e' \<Rightarrow> (\<exists>xs. join r r' = Ok xs \<and> contents (enc_writer e') = contents (enc_writer e) @ xs) \<and>
          enc_hints e' = bump (length (hs @ hs')) (enc_hints e)
      | Err x \<Rightarrow> join r r' = Err x \<or> (\<exists>w bs. wr w bs = Err x)
      | Panic \<Rightarrow> False"
  proof (cases "m e")
    case (Ok e')
    from m Ok obtain bs where r: "r = Ok bs" "contents (enc_writer e') = contents (enc_writer e) @ bs"
      "enc_hints e' = bump (length hs) (enc_hints e)" by auto
    note n = assms(2) [unfolded emits_def, THEN spec, THEN mp, OF expects_append(2) [OF e r(3)]]
    show ?thesis using n Ok r by (cases "eseq ms e'") (auto simp: join_def add.commute)
  next
    case (Err x)
    then show ?thesis using m by (auto simp: join_def)
  next
    case Panic
    then show ?thesis using m by simp
  qed
qed

lemma emits_eseq:
  "list_all2 (\<lambda>(hs, r) m. emits wr contents hs r m) hrs ms \<Longrightarrow>
   emits wr contents (concat (map fst hrs)) (enc_all (map snd hrs)) (eseq ms)"
  by (induction rule: list_all2_induct) (auto intro: emits_Nil emits_Cons simp del: eseq.simps)

lemma emits_bytes_with_len: "emits wr contents [] (Ok (enc_bytes bs)) (write_bytes_with_len wr bs)"
proof -
  note 1 = emits_Cons [OF emits_u8 emits_Cons [OF emits_u8 emits_Cons [OF emits_raw emits_Nil]]]
    and 2 = emits_Cons [OF emits_u8 emits_Cons [OF emits_u20 emits_Cons [OF emits_raw emits_Nil]]]
    and 3 = emits_Cons [OF emits_u8 emits_Cons [OF emits_u32 emits_Cons [OF emits_raw emits_Nil]]]
  show ?thesis
    using 1 [of BINARY_8 "of_nat (length bs)" bs] 2 [of BINARY_20 "length bs" bs] 3 [of BINARY_32 "of_nat (length bs)" bs]
    by (simp add: write_bytes_with_len_def enc_bytes_def Let_def del: eseq.simps)
qed

lemma emits_assert: "b \<Longrightarrow> emits wr contents [] (Ok []) (\<lambda>e. if b then Ok e else Panic)"
  by (simp add: emits_def)

lemma emits_packed:
  assumes "list_all (\<lambda>c. (if tag = NIBBLE_8 then nibble_enc else hex_enc) c < 16) s" "length s \<le> PACKED_MAX"
  shows "emits wr contents [] (Ok (enc_packed tag s)) (write_packed_bytes wr s tag)"
proof -
  let ?t = "if tag = NIBBLE_8 then nibble_enc else hex_enc"
  obtain seen packed tail where p: "pack_pairs ?t 0 s = (seen, packed, tail)" by (cases "pack_pairs ?t 0 s") auto
  have t0: "?t 0 < 16" by (simp add: nibble_enc_def hex_enc_def)
  from pack_pairs_seen [of ?t s 0] assms(1) p have q: "seen < 16" "length tail = length s mod 2" "list_all (\<lambda>c. ?t c < 16) tail"
    "pack_chars ?t s = packed @ (case tail of [c] \<Rightarrow> [push_bit 4 (?t c) OR ?t 0] | _ \<Rightarrow> [])" by auto
  have len: "\<not> PACKED_MAX < length s" using assms(2) by simp
  let ?len = "of_nat ((length s + 1) div 2) OR (if length s mod 2 \<noteq> 0 then 0x80 else 0) :: u8"
  note seq = emits_Cons [OF emits_u8 [of tag] emits_Cons [OF emits_u8 [of ?len] emits_Cons [OF emits_assert
    emits_Cons [OF emits_raw [of packed] emits_Cons [OF _ emits_Nil]]]]]
  have "length tail = 0 \<or> length tail = Suc 0" unfolding q(2) by presburger
  then consider "tail = []" | c where "tail = [c]" by (auto simp: length_Suc_conv)
  then show ?thesis
  proof cases
    case 1
    have "seen AND 0xF0 = 0" using q(1) by (simp add: small_nibble)
    note e = seq [OF this emits_skip]
    have w: "write_packed_bytes wr s tag = eseq [write_u8 wr tag, write_u8 wr ?len,
        (\<lambda>e. if seen AND 0xF0 = 0 then Ok e else Panic), write_raw_bytes wr packed, Ok]"
      using q(2) unfolding write_packed_bytes_def if_not_P [OF len] Let_def p 1 prod.case list.case option.case by simp
    have "pack_chars ?t s = packed" using q(4) 1 by simp
    then show ?thesis using e unfolding w enc_packed_def by (simp only: join_Ok append.simps append_Nil2)
  next
    case (2 c)
    have "(seen OR (?t c OR ?t 0)) AND 0xF0 = 0"
      unfolding small_nibble [symmetric] by (rule or_small [OF q(1) or_small [OF _ t0]]) (use q(3) 2 in simp)
    note e = seq [OF this emits_u8 [of "push_bit 4 (?t c) OR ?t 0"]]
    have w: "write_packed_bytes wr s tag = eseq [write_u8 wr tag, write_u8 wr ?len,
        (\<lambda>e. if (seen OR (?t c OR ?t 0)) AND 0xF0 = 0 then Ok e else Panic), write_raw_bytes wr packed,
        write_u8 wr (push_bit 4 (?t c) OR ?t 0)]"
      using q(2) unfolding write_packed_bytes_def if_not_P [OF len] Let_def p 2 prod.case list.case option.case by simp
    have "pack_chars ?t s = packed @ [push_bit 4 (?t c) OR ?t 0]" using q(4) 2 by simp
    then show ?thesis using e unfolding w enc_packed_def by (simp only: join_Ok append.simps append_Nil2)
  qed
qed

lemma emits_hint:
  assumes "emits wr contents hs r (write_string_with_hint wr (write_str_n wr T n) s (hint_of T s))"
  shows "emits wr contents (hint_of T s # hs) r (write_str_n wr T (Suc n) s)"
  unfolding emits_def
proof (intro allI impI)
  fix e :: "'w encoder" assume e: "expects e (hint_of T s # hs)"
  note m = assms [unfolded emits_def, THEN spec, THEN mp]
  show "case write_str_n wr T (Suc n) s e of
        Ok e' \<Rightarrow> (\<exists>xs. r = Ok xs \<and> contents (enc_writer e') = contents (enc_writer e) @ xs) \<and>
          enc_hints e' = bump (length (hint_of T s # hs)) (enc_hints e)
      | Err x \<Rightarrow> r = Err x \<or> (\<exists>w bs. wr w bs = Err x)
      | Panic \<Rightarrow> False"
  proof (cases "enc_hints e")
    case None
    have w: "write_str_n wr T (Suc n) s e = write_string_with_hint wr (write_str_n wr T n) s (hint_of T s) e"
      using None by (simp add: write_string_uncached_def hint_of_def write_string_with_hint_def)
    from None have "expects e hs" by (simp add: expects_def)
    from m [OF this] show ?thesis unfolding w
      by (simp add: None bump_def split: outcome.splits)
  next
    case (Some c)
    let ?e = "e\<lparr>enc_hints := Some (c\<lparr>hc_cursor := hc_cursor c + 1\<rparr>)\<rparr>"
    from e Some have t: "take (Suc (length hs)) (drop (hc_cursor c) (hc_hints c)) = hint_of T s # hs"
      by (simp add: expects_def)
    then have l: "hc_cursor c < length (hc_hints c)" by (metis drop_all list.distinct(1) not_less take_Nil)
    with t have "hc_hints c ! hc_cursor c = hint_of T s" by (simp add: Cons_nth_drop_Suc [symmetric])
    with l Some have w: "write_str_n wr T (Suc n) s e = write_string_with_hint wr (write_str_n wr T n) s (hint_of T s) ?e"
      by (simp add: hints_next_def)
    have "expects ?e hs"
      using expects_append(2) [of e "[hint_of T s]" hs ?e] e Some by (simp add: bump_def)
    from m [OF this] show ?thesis unfolding w
      by (simp add: Some bump_def split: outcome.splits)
  qed
qed

lemma emits_plain:
  assumes "\<nexists>m. hint_of T s = HJid m"
  shows "emits wr contents [] (Ok (enc_str T s)) (write_string_with_hint wr ws s (hint_of T s))"
proof (cases "hint_of T s")
  case HEmpty
  then show ?thesis using emits_Cons [OF emits_u8 emits_Cons [OF emits_u8 emits_Nil], of BINARY_8 0]
    by (simp add: write_string_with_hint_def enc_str.simps [of T s] del: eseq.simps)
next
  case (HDouble d t)
  then show ?thesis using emits_Cons [OF emits_u8 emits_Cons [OF emits_u8 emits_Nil], of "DICTIONARY_0 + d" t]
    by (simp add: write_string_with_hint_def enc_str.simps [of T s] del: eseq.simps)
qed (use assms hint_of_packed [of T s] in
  \<open>auto simp: write_string_with_hint_def enc_str.simps [of T s] intro!: emits_u8 emits_packed emits_bytes_with_len\<close>)

lemma emits_str_n:
  "count_list s 64 < n \<Longrightarrow> emits wr contents (str_hints T s) (Ok (enc_str T s)) (write_str_n wr T n s)"
proof (induction n arbitrary: s)
  case (Suc n)
  show ?case
  proof (cases "\<exists>m. hint_of T s = HJid m")
    case False
    from emits_hint [OF emits_plain [OF this]] show ?thesis unfolding str_hints_plain [OF False] .
  next
    case True
    then obtain m where m: "hint_of T s = HJid m" by blast
    note less = meta_user_meta_serv_less [OF m]
    have u: "emits wr contents (str_hints T (meta_user s m)) (Ok (enc_str T (meta_user s m))) (write_str_n wr T n (meta_user s m))"
      by (rule Suc.IH) (use less Suc.prems in simp)
    have v: "emits wr contents (str_hints T (meta_serv s m)) (Ok (enc_str T (meta_serv s m))) (write_str_n wr T n (meta_serv s m))"
      by (rule Suc.IH) (use less Suc.prems in simp)
    have w: "emits wr contents (if meta_user s m = [] then [] else str_hints T (meta_user s m))
        (Ok (if meta_user s m = [] then [LIST_EMPTY] else enc_str T (meta_user s m)))
        (if meta_user s m = [] then write_u8 wr LIST_EMPTY else write_str_n wr T n (meta_user s m))"
      using u by (simp add: emits_u8)
    note pair = emits_Cons [OF emits_u8 [of JID_PAIR] emits_Cons [OF w emits_Cons [OF v emits_Nil]]]
      and ad = emits_Cons [OF emits_u8 [of AD_JID] emits_Cons [OF emits_u8 [of "domain_type m"]
        emits_Cons [OF emits_u8 emits_Cons [OF u emits_Nil]]]]
    have "emits wr contents (tl (str_hints T s)) (Ok (enc_str T s)) (write_jid_from_meta wr (write_str_n wr T n) s m)"
      using pair ad
      by (cases "meta_device m")
         (simp_all add: write_jid_from_meta_def [abs_def] Let_def split_jid_ok [OF m] meta_serv_def [symmetric]
           enc_str.simps [of T s] str_hints.simps [of T s] m del: eseq.simps)
    then have "emits wr contents (tl (str_hints T s)) (Ok (enc_str T s)) (write_string_with_hint wr (write_str_n wr T n) s (hint_of T s))"
      by (simp add: write_string_with_hint_def m)
    from emits_hint [OF this] show ?thesis by (simp add: str_hints.simps [of T s] del: write_str_n.simps)
  qed
qed simp

lemma emits_string: "emits wr contents (str_hints T s) (Ok (enc_str T s)) (write_string wr T s)"
proof (cases "\<exists>m. hint_of T s = HJid m")
  case True
  then have "count_list s 64 < WRITE_FRAMES"
    using hint_of_HJid [of T s] count_list_le [of s 64] by (auto dest: order_trans)
  then show ?thesis unfolding write_string_def by (rule emits_str_n)
next
  case False
  have "write_string wr T = write_str_n wr T (Suc 49)" by (simp add: write_string_def eval_nat_numeral)
  with emits_hint [OF emits_plain [OF False], of 49] show ?thesis unfolding str_hints_plain [OF False] by simp
qed

lemma emits_user:
  "emits wr contents (if u = [] then [] else str_hints T u) (Ok (if u = [] then [LIST_EMPTY] else enc_str T u))
     (if u = [] then write_u8 wr LIST_EMPTY else write_string wr T u)"
  by (simp add: emits_u8 emits_string)

lemma emits_jid: "emits wr contents (jid_hints T j) (enc_jid T j) (write_jid_owned wr T j)"
proof -
  consider (interop) "needs_interop_jid (jid_server j) (jid_integrator j)"
    | (bad) "\<not> needs_interop_jid (jid_server j) (jid_integrator j)" "0 < jid_device j \<and> server_supports_ad_jid (jid_server j)"
        "\<not> unat (jid_device j) < 256"
    | (ad) "\<not> needs_interop_jid (jid_server j) (jid_integrator j)" "0 < jid_device j \<and> server_supports_ad_jid (jid_server j)"
        "unat (jid_device j) < 256"
    | (pair) "\<not> needs_interop_jid (jid_server j) (jid_integrator j)" "\<not> (0 < jid_device j \<and> server_supports_ad_jid (jid_server j))"
    by blast
  then show ?thesis
  proof cases
    case interop
    then show ?thesis
      using emits_Cons [OF emits_u8 [of INTEROP_JID] emits_Cons [OF emits_string [of T "jid_user j"]
          emits_Cons [OF emits_u16 [of "jid_device j"] emits_Cons [OF emits_u16 [of "jid_integrator j"] emits_Nil]]]]
      by (simp add: write_jid_owned_def enc_jid_def jid_hints_def write_interop_jid_def del: eseq.simps)
  next
    case bad
    show ?thesis
      unfolding write_jid_owned_def enc_jid_def jid_hints_def if_not_P [OF bad(1)] if_P [OF bad(2)] if_not_P [OF bad(3)]
      by (rule emits_fail)
  next
    case ad
    then show ?thesis
      using emits_Cons [OF emits_u8 [of AD_JID] emits_Cons [OF emits_u8 [of "server_to_domain_type (jid_server j)"]
          emits_Cons [OF emits_u8 [of "ucast (jid_device j)"] emits_Cons [OF emits_string [of T "jid_user j"] emits_Nil]]]]
      by (simp add: write_jid_owned_def enc_jid_def jid_hints_def del: eseq.simps)
  next
    case pair
    then show ?thesis
      using emits_Cons [OF emits_u8 [of JID_PAIR] emits_Cons [OF emits_user [of "jid_user j" T]
          emits_Cons [OF emits_string [of T "as_str (jid_server j)"] emits_Nil]]]
      unfolding write_jid_owned_def enc_jid_def jid_hints_def if_not_P [OF pair(1)] if_not_P [OF pair(2)]
      by (simp add: pair del: eseq.simps)
  qed
qed

lemma emits_attrs:
  assumes "\<And>j. emits wr contents (jid_hints T j) (enc_jid T j) (wj j)"
  shows "emits wr contents (attr_hints T as) (enc_all (attr_encs T as)) (eseq (encode_attrs wr T wj as))"
proof (induction as)
  case Nil
  show ?case using emits_Nil by (simp add: attr_hints_def attr_encs_def encode_attrs_def del: eseq.simps)
next
  case (Cons a as)
  obtain k v where a: "a = (k, v)" by (cases a)
  have "emits wr contents (case v of VString s \<Rightarrow> str_hints T s | VJid j \<Rightarrow> jid_hints T j)
      (case v of VString s \<Rightarrow> Ok (enc_str T s) | VJid j \<Rightarrow> enc_jid T j)
      (case v of VString s \<Rightarrow> write_string wr T s | VJid j \<Rightarrow> wj j)"
    using assms emits_string by (cases v) simp_all
  from emits_Cons [OF emits_string [of T k] emits_Cons [OF this Cons]] show ?case
    by (simp add: a attr_hints_def attr_encs_def encode_attrs_def del: eseq.simps)
qed

lemma emits_list_start: "emits wr contents [] (enc_list n) (write_list_start wr n)"
  using emits_Cons [OF emits_u8 [of LIST_8] emits_Cons [OF emits_u8 [of "of_nat n"] emits_Nil]]
    emits_Cons [OF emits_u8 [of LIST_16] emits_Cons [OF emits_u16 [of "of_nat n"] emits_Nil]]
  by (auto simp: enc_list_def write_list_start_def emits_u8 emits_fail unat_u16_of_nat simp del: eseq.simps)

lemma emits_node:
  assumes "\<And>j. emits wr contents (jid_hints T j) (enc_jid T j) (wj j)"
  shows "emits wr contents (node_hints T n) (enc_node T n) (write_node wr T wj n)"
    and "emits wr contents (content_hints T c) (enc_content T c) (encode_content wr T wj c)"
proof (induction n and c)
  case (Node t as c)
  have "emits wr contents (case c of None \<Rightarrow> [] | Some x \<Rightarrow> content_hints T x)
      (case c of None \<Rightarrow> Ok [] | Some x \<Rightarrow> enc_content T x)
      (case c of None \<Rightarrow> Ok | Some x \<Rightarrow> encode_content wr T wj x)"
    using Node by (cases c) (simp_all add: emits_skip)
  from emits_Cons [OF emits_list_start emits_Cons [OF emits_string emits_Cons [OF emits_attrs [OF assms]
        emits_Cons [OF this emits_Nil]]]]
  show ?case by (simp del: eseq.simps)
next
  case (Nodes ns)
  then have "list_all2 (\<lambda>(hs, r) m. emits wr contents hs r m) (map (\<lambda>n. (node_hints T n, enc_node T n)) ns)
      (map (write_node wr T wj) ns)"
    by (simp add: list_all2_conv_all_nth)
  from emits_Cons [OF emits_list_start emits_eseq [OF this]] show ?case
    by (simp add: comp_def del: eseq.simps)
qed (simp_all add: emits_string emits_bytes_with_len)

end

interpretation vec_writer: byte_writer vec_write "\<lambda>w. w"
  by unfold_locales (simp_all add: vec_write_def)

interpretation slice_writer: byte_writer "io_write slice_write_all" fst
  by unfold_locales (auto simp: io_write_def slice_write_all_def split: if_splits)

lemma write_jid_ref_owned: "write_jid_ref = write_jid_owned"
  by (intro ext) (simp add: write_jid_ref_def write_jid_owned_def)

text \<open>On a vector nothing else can fail.\<close>

lemma emits_vec:
  assumes "emits vec_write (\<lambda>w. w) hs r m" "expects e hs"
  shows "m e = omap (\<lambda>bs. e\<lparr>enc_writer := enc_writer e @ bs, enc_hints := bump (length hs) (enc_hints e)\<rparr>) r"
  using assms(1) [unfolded emits_def, THEN spec, THEN mp, OF assms(2)]
  by (cases "m e") (auto simp: vec_write_def)

end
