(* ===== verification/Read_Back.thy ===== *)
theory Read_Back
  imports Encoder_Laws
begin

text \<open>
  Decoding what the encoder writes. \<open>reads r bs x\<close> says that the reader \<open>r\<close> takes exactly the
  bytes \<open>bs\<close> from the input, whatever follows, and returns \<open>x\<close>; the lemmas go up from lengths
  and packed characters over strings and JIDs to nodes (\<open>reads_node\<close>).
\<close>

unbundle bit_operations_syntax

section \<open>Reading back what was written\<close>

definition reads :: "'a reader \<Rightarrow> u8 list \<Rightarrow> 'a \<Rightarrow> bool" where
  "reads r bs x \<longleftrightarrow> (\<forall>pre ys. r (at pre (bs @ ys)) = Ok (x, at (pre @ bs) ys))"

lemma reads_rpure: "reads (rpure x) [] x"
  by (simp add: reads_def rpure_def)

lemma reads_rbind: "reads m as x \<Longrightarrow> reads (f x) bs y \<Longrightarrow> reads (rbind m f) (as @ bs) y"
  by (simp add: reads_def rbind_def)

lemma reads_rmap: "reads m bs x \<Longrightarrow> reads (rmap f m) bs (f x)"
  by (simp add: reads_def rmap_def rbind_def rpure_def)

lemma reads_u8: "reads read_u8 [b] b"
  by (simp add: reads_def read_u8_at)

lemma reads_u8_bind: "reads (f b) bs y \<Longrightarrow> reads (rbind read_u8 f) (b # bs) y"
  using reads_rbind [OF reads_u8, of f b bs y] by simp

lemma reads_bytes: "reads (read_bytes (length bs)) bs bs"
  by (simp add: reads_def read_bytes_at)

lemma reads_u16: "n < 65536 \<Longrightarrow> reads read_u16_be (be_bytes 2 n) (of_nat n)"
  by (simp add: reads_def read_u16_be_at length_be_bytes be_nat_be_bytes_id del: be_bytes.simps be_nat.simps)

lemma reads_u32: "n < 2 ^ 32 \<Longrightarrow> reads read_u32_be (be_bytes 4 n) (of_nat n)"
  by (simp add: reads_def read_u32_be_at length_be_bytes be_nat_be_bytes_id del: be_bytes.simps be_nat.simps)

lemma u20_roundtrip:
  assumes "v < 2 ^ 20"
  shows "push_bit 16 (ucast (ucast (drop_bit 16 v AND 0x0F) :: u8) AND 0x0F) OR
     push_bit 8 (ucast (ucast (drop_bit 8 v AND 0xFF) :: u8)) OR ucast (ucast (v AND 0xFF) :: u8) = (v :: u32)"
proof -
  have m: "x AND 0x0F = take_bit 4 x" "x AND 0xFF = take_bit 8 x" for x :: u32
    by (simp_all add: take_bit_eq_mask mask_eq_exp_minus_1)
  have "uint v < 2 ^ 20" using assms by (simp add: word_less_def)
  then have v: "take_bit 20 v = v" by (intro word_uint_eqI) (simp add: unsigned_take_bit_eq take_bit_int_eq_self)
  have b: "bit v n \<Longrightarrow> n < 20" for n using v by (metis bit_take_bit_iff)
  show ?thesis unfolding m
  proof (rule bit_word_eqI)
    fix n assume n: "n < LENGTH(32)"
    consider "n < 8" | "8 \<le> n \<and> n < 16" | "16 \<le> n \<and> n < 20" | "20 \<le> n" by linarith
    then show "bit ((push_bit 16 (take_bit 4 (ucast (ucast (take_bit 4 (drop_bit 16 v)) :: u8))) OR
     push_bit 8 (ucast (ucast (take_bit 8 (drop_bit 8 v)) :: u8)) OR ucast (ucast (take_bit 8 v) :: u8)) :: u32) n = bit v n"
      using n b [of n] by cases (auto simp: bit_simps)
  qed
qed
lemma reads_u20:
  assumes "n < 2 ^ 20"
  shows "reads read_u20_be (u20_bytes n) (of_nat n)"
proof -
  have "(of_nat n :: u32) < 2 ^ 20" using assms by (simp add: word_less_nat_alt unat_of_nat)
  from u20_roundtrip [OF this] have "u20_of (u20_bytes n) = of_nat n"
    by (simp add: u20_of_def u20_bytes_def Let_def or.assoc)
  moreover have "length (u20_bytes n) = 3" by (simp add: u20_bytes_def Let_def)
  ultimately show ?thesis by (simp add: reads_def read_u20_be_at)
qed

text \<open>Packed strings come back: the tables of the decoder invert those of the encoder.\<close>

lemma u8_range:
  assumes "list_all P (map word_of_int [lo..hi])" "lo \<le> uint (b :: u8)" "uint b \<le> hi"
  shows "P b"
proof -
  have "uint b \<in> set [lo..hi]" using assms by simp
  then have "(word_of_int (uint b) :: u8) \<in> word_of_int ` set [lo..hi]" by (rule imageI)
  then have "b \<in> set (map word_of_int [lo..hi])" by (simp only: word_of_int_uint set_map)
  with assms(1) show ?thesis unfolding list_all_iff by (rule bspec)
qed

lemma small_bit: "(x :: u8) < 16 \<Longrightarrow> bit x n \<Longrightarrow> n < 4"
proof -
  assume "x < 16"
  then have "uint x < 2 ^ 4" by (simp add: word_less_def)
  then have "take_bit 4 x = x" by (intro word_uint_eqI) (simp add: unsigned_take_bit_eq take_bit_int_eq_self)
  moreover assume "bit x n"
  ultimately show "n < 4" by (metis bit_take_bit_iff)
qed

lemma pair_enc:
  assumes "(h :: u8) < 16" "l < 16"
  shows "nibble_pair (push_bit 4 h OR l) = [glyph h, glyph l] \<and> hex_pair (push_bit 4 h OR l) = [hex_glyph h, hex_glyph l]"
proof -
  have "drop_bit 4 (push_bit 4 h OR l) = h"
    by (rule bit_word_eqI) (auto simp: bit_simps dest: small_bit [OF assms(1)] small_bit [OF assms(2)])
  moreover have "take_bit 4 (push_bit 4 h OR l) = l"
    by (rule bit_word_eqI) (auto simp: bit_simps dest: small_bit [OF assms(2)])
  then have "(push_bit 4 h OR l) AND 0x0F = l" by (simp add: take_bit_eq_mask mask_eq_exp_minus_1)
  ultimately show ?thesis by (simp add: nibble_pair_def hex_pair_def)
qed

lemma glyph_enc:
  assumes "is_digit c \<or> c = 45 \<or> c = 46"
  shows "glyph (nibble_enc c) = c \<and> c \<noteq> 0xFF"
proof -
  let ?P = "\<lambda>c :: u8. glyph (nibble_enc c) = c \<and> c \<noteq> 0xFF"
  have d: "list_all ?P (map word_of_int [48..57])" and p: "?P 45" "?P 46" by code_simp+
  show ?thesis
  proof (cases "is_digit c")
    case True
    then show ?thesis by (intro u8_range [OF d]) (simp_all add: is_digit_def word_le_def)
  qed (use assms p in auto)
qed

lemma hex_glyph_enc:
  assumes "is_digit c \<or> 65 \<le> c \<and> c \<le> 70"
  shows "hex_glyph (hex_enc c) = c"
proof -
  let ?P = "\<lambda>c :: u8. hex_glyph (hex_enc c) = c"
  have d: "list_all ?P (map word_of_int [48..57])" and x: "list_all ?P (map word_of_int [65..70])" by code_simp+
  show ?thesis
  proof (cases "is_digit c")
    case True
    then show ?thesis by (intro u8_range [OF d]) (simp_all add: is_digit_def word_le_def)
  next
    case False
    with assms show ?thesis by (intro u8_range [OF x]) (simp_all add: word_le_def)
  qed
qed

lemma unpack_chars:
  assumes "t 0 = 15"
    and pair: "\<And>h l. h < 16 \<Longrightarrow> l < 16 \<Longrightarrow> pair (push_bit 4 h OR l) = [g h, g l]"
  shows "list_all (\<lambda>c. t c < 16 \<and> g (t c) = c) s \<Longrightarrow>
    concat (map pair (pack_chars t s)) = s @ (if length s mod 2 = 0 then [] else [g 15])"
  by (induction s rule: induct_list012) (simp_all add: assms)

lemma decode_pack_nibble:
  assumes "validate_nibble s"
  shows "decode_packed_nibble (pack_chars nibble_enc s) = Ok (s @ (if length s mod 2 = 0 then [] else [0]))"
proof -
  have c: "concat (map nibble_pair (pack_chars nibble_enc s)) = s @ (if length s mod 2 = 0 then [] else [glyph 15])"
    by (rule unpack_chars) (use assms pair_enc glyph_enc nibble_enc_small in \<open>auto simp: nibble_enc_def validate_nibble_def list_all_iff\<close>)
  have g: "glyph 15 = 0" by (simp add: glyph_def)
  have "0xFF \<notin> set (concat (map nibble_pair (pack_chars nibble_enc s)))"
    unfolding c g using assms glyph_enc by (auto simp: validate_nibble_def list_all_iff)
  then have "find (\<lambda>b. 0xFF \<in> set (nibble_pair b)) (pack_chars nibble_enc s) = None"
    by (auto simp: find_None_iff)
  moreover have "length (pack_chars nibble_enc s) * 2 \<le> 254"
  proof -
    have "length s \<le> 127" using assms by (simp add: validate_nibble_def)
    then show ?thesis unfolding length_pack_chars by presburger
  qed
  ultimately show ?thesis by (simp add: decode_packed_nibble_def nibble_loop_find c g)
qed

lemma decode_pack_hex:
  assumes "validate_hex s"
  shows "decode_packed_hex (pack_chars hex_enc s) = Ok (s @ (if length s mod 2 = 0 then [] else [hex_glyph 15]))"
proof -
  have "concat (map hex_pair (pack_chars hex_enc s)) = s @ (if length s mod 2 = 0 then [] else [hex_glyph 15])"
    by (rule unpack_chars) (use assms pair_enc hex_glyph_enc hex_enc_small in \<open>auto simp: hex_enc_def validate_hex_def list_all_iff\<close>)
  moreover have "length (pack_chars hex_enc s) * 2 \<le> 254"
  proof -
    have "length s \<le> 127" using assms by (simp add: validate_hex_def)
    then show ?thesis unfolding length_pack_chars by presburger
  qed
  ultimately show ?thesis by (simp add: decode_packed_hex_def)
qed

text \<open>The length byte of a packed string.\<close>

lemma packed_len_byte:
  assumes "length s \<le> 127" "b = (of_nat ((length s + 1) div 2) OR (if length s mod 2 \<noteq> 0 then 0x80 else 0) :: u8)"
  shows "unat (b AND 0x7F) = (length s + 1) div 2" "b AND 0x80 \<noteq> 0 \<longleftrightarrow> length s mod 2 \<noteq> 0"
proof -
  let ?k = "(length s + 1) div 2"
  have k: "?k \<le> 64" using assms(1) by presburger
  let ?P = "\<lambda>w :: u8. (w OR 0x80) AND 0x7F = w \<and> w AND 0x7F = w \<and> (w OR 0x80) AND 0x80 \<noteq> 0 \<and> w AND 0x80 = 0"
  have "list_all ?P (map word_of_int [0..64])" by code_simp
  moreover have "unat (of_nat ?k :: u8) = ?k" using k by (simp add: unat_u8_of_nat)
  moreover have "uint (of_nat ?k :: u8) \<le> 64" using k calculation(2) by (simp only: uint_nat)
  ultimately have "?P (of_nat ?k)" "unat (of_nat ?k :: u8) = ?k"
    using u8_range [of ?P 0 64 "of_nat ?k"] by simp_all
  then show "unat (b AND 0x7F) = ?k" "b AND 0x80 \<noteq> 0 \<longleftrightarrow> length s mod 2 \<noteq> 0"
    by (auto simp: assms(2))
qed

lemma reads_packed:
  assumes "utf8_exact E" "tag = NIBBLE_8 \<and> validate_nibble s \<or> tag = HEX_8 \<and> validate_hex s" "s \<noteq> []"
  shows "reads (read_packed E tag) (tl (enc_packed tag s)) s"
proof -
  let ?b = "of_nat ((length s + 1) div 2) OR (if length s mod 2 \<noteq> 0 then 0x80 else 0) :: u8"
  let ?t = "if tag = NIBBLE_8 then nibble_enc else hex_enc"
  let ?pad = "if tag = HEX_8 then hex_glyph 15 else 0"
  have l: "length s \<le> 127" using assms(2) by (auto simp: validate_nibble_def validate_hex_def)
  note b = packed_len_byte [OF l refl]
  have dec: "(if tag = HEX_8 then rlift (decode_packed_hex (pack_chars ?t s))
      else if tag = NIBBLE_8 then rlift (decode_packed_nibble (pack_chars ?t s)) else rfail (InvalidToken tag)) =
      rpure (s @ (if length s mod 2 = 0 then [] else [?pad]))"
    using assms(2) decode_pack_nibble [of s] decode_pack_hex [of s] by (auto simp: rlift_def)
  have "list_all (\<lambda>c. c < 128) s"
    using assms(2) is_digit_ascii le_less_trans [of _ 70 "128 :: u8"]
    by (auto simp: validate_nibble_def validate_hex_def list_all_iff)
  then have ok: "smooth_utf8 E s" using assms(1) by (simp add: utf8_exact_def utf8_valid_ascii)
  have ne: "(length s + 1) div 2 \<noteq> 0" using assms(3) by (cases s) auto
  have fin: "rbind (rpure (s @ (if length s mod 2 = 0 then [] else [?pad]))) (\<lambda>buf.
        (let out = (if ?b AND 0x80 \<noteq> 0 \<and> 0 < length buf then take (length buf - 1) buf else buf) in
         if smooth_utf8 E out then rpure out else rpanic)) = rpure s"
    using b(2) ok assms(3) by (auto simp: Let_def)
  have "reads (read_bytes ((length s + 1) div 2)) (pack_chars ?t s) (pack_chars ?t s)"
    using reads_bytes [of "pack_chars ?t s"] by (simp add: length_pack_chars)
  note pieces = this
  show ?thesis unfolding read_packed_def enc_packed_def list.sel
  proof (rule reads_u8_bind)
    show "reads (let half = (?b AND 0x80 \<noteq> 0); len = unat (?b AND 0x7F) in
      if len = 0 then rpure []
      else rbind (read_bytes len) (\<lambda>packed.
        rbind (if tag = HEX_8 then rlift (decode_packed_hex packed)
               else if tag = NIBBLE_8 then rlift (decode_packed_nibble packed)
               else rfail (InvalidToken tag)) (\<lambda>buf.
        (let out = (if half \<and> 0 < length buf then take (length buf - 1) buf else buf) in
         if smooth_utf8 E out then rpure out else rpanic)))) (pack_chars ?t s) s"
      unfolding Let_def [of "?b AND 0x80 \<noteq> 0"] b(1) Let_def [of "(length s + 1) div 2"] if_not_P [OF ne]
      using reads_rbind [OF pieces, of "\<lambda>packed.
        rbind (if tag = HEX_8 then rlift (decode_packed_hex packed)
               else if tag = NIBBLE_8 then rlift (decode_packed_nibble packed)
               else rfail (InvalidToken tag)) (\<lambda>buf.
        (let out = (if ?b AND 0x80 \<noteq> 0 \<and> 0 < length buf then take (length buf - 1) buf else buf) in
         if smooth_utf8 E out then rpure out else rpanic))" "[]" s]
      unfolding dec fin append_Nil2 by (simp only: reads_rpure)
  qed
qed

section \<open>Reading strings back\<close>

lemma rmap_rmap: "rmap f (rmap g m) = rmap (\<lambda>x. f (g x)) m"
  by (simp add: rmap_def rbind_assoc)

lemma rmap_rbind: "rmap f (rbind m g) = rbind m (\<lambda>x. rmap f (g x))"
  by (simp add: rmap_def rbind_assoc)

lemma rmap_simps [simp]: "rmap f (rpure x) = rpure (f x)" "rmap f (rfail e) = rfail e"
  by (simp_all add: rmap_def)

lemma reads_string:
  assumes "utf8_exact E" "utf8_valid s"
  shows "reads (read_string E (length s)) s s"
  unfolding read_string_def
  using reads_rbind [OF reads_bytes [of s], of "\<lambda>bytes. if smooth_utf8 E bytes then rpure bytes else rlift (std_from_utf8 bytes)" "[]" s]
    assms by (simp add: utf8_exact_def reads_rpure)

text \<open>The bytes of a string that is not a JID: a tag the value readers know, and what they read
  behind it.\<close>

definition plain_tag :: "u8 \<Rightarrow> bool" where
  "plain_tag t \<longleftrightarrow> t \<notin> {LIST_EMPTY, LIST_8, LIST_16, JID_PAIR, AD_JID, INTEROP_JID, FB_JID}"

lemma tag_between:
  assumes "unat (d :: u8) < 4"
  shows "DICTIONARY_0 \<le> DICTIONARY_0 + d \<and> DICTIONARY_0 + d \<le> DICTIONARY_3"
proof (rule u8_range [of "\<lambda>d. DICTIONARY_0 \<le> DICTIONARY_0 + d \<and> DICTIONARY_0 + d \<le> DICTIONARY_3" 0 3 d])
  show "uint d \<le> 3" using assms unfolding uint_nat by linarith
  show "list_all (\<lambda>d :: u8. DICTIONARY_0 \<le> DICTIONARY_0 + d \<and> DICTIONARY_0 + d \<le> DICTIONARY_3) (map word_of_int [0..3])"
    by code_simp
qed simp

lemma hint_of_cases:
  "hint_of T s = HEmpty \<Longrightarrow> s = []"
  "hint_of T s = HSingle t \<Longrightarrow> s \<noteq> [] \<and> index_of_token T s = Some (Single t)"
  "hint_of T s = HDouble d t \<Longrightarrow> s \<noteq> [] \<and> index_of_token T s = Some (Double d t)"
  "hint_of T s = HNibble \<Longrightarrow> s \<noteq> [] \<and> validate_nibble s"
  "hint_of T s = HHex \<Longrightarrow> s \<noteq> [] \<and> validate_hex s"
  by (auto simp: hint_of_def classify_string_hint_def Let_def split: if_splits option.splits token_kind.splits)

lemma reads_raw:
  assumes "length s < 2 ^ 32"
  obtains t bs where "enc_bytes s = t # bs" "t \<in> {BINARY_8, BINARY_20, BINARY_32}"
    "\<And>rs. utf8_exact E \<Longrightarrow> utf8_valid s \<Longrightarrow> reads (read_value_as_string_from_tag E rs t) bs (Some s)"
    "\<And>child. reads (read_content_from_tag E child t) bs (Some (Bytes s))"
proof -
  let ?n = "length s"
  have str: "reads (rmap Some (read_string E ?n)) s (Some s)" if "utf8_exact E" "utf8_valid s"
    by (rule reads_rmap [OF reads_string [OF that]])
  have raw: "reads (rmap (\<lambda>b. Some (Bytes b)) (read_bytes ?n)) s (Some (Bytes s))"
    by (rule reads_rmap [OF reads_bytes])
  consider "?n < 256" | "\<not> ?n < 256" "?n < 2 ^ 20" | "\<not> ?n < 256" "\<not> ?n < 2 ^ 20" by blast
  then show ?thesis
  proof cases
    case 1
    then have u: "unat (of_nat ?n :: u8) = ?n" by (simp add: unat_u8_of_nat)
    have e: "enc_bytes s = BINARY_8 # of_nat ?n # s" using 1 by (simp add: enc_bytes_def)
    show ?thesis
      by (rule that [OF e]) (simp_all add: read_value_as_string_from_tag_def read_content_from_tag_def reads_u8_bind u str raw)
  next
    case 2
    then have u: "unat (of_nat ?n :: u32) = ?n" by (simp add: unat_of_nat)
    have e: "enc_bytes s = BINARY_20 # u20_bytes ?n @ s" using 2 by (simp add: enc_bytes_def)
    show ?thesis
      by (rule that [OF e])
        (simp_all add: read_value_as_string_from_tag_def read_content_from_tag_def reads_rbind [OF reads_u20 [OF 2(2)]] u str raw)
  next
    case 3
    then have u: "unat (of_nat ?n :: u32) = ?n" using assms by (simp add: unat_of_nat)
    have e: "enc_bytes s = BINARY_32 # be_bytes 4 ?n @ s" using 3 by (simp add: enc_bytes_def u del: be_bytes.simps)
    show ?thesis
      by (rule that [OF e])
        (simp_all add: read_value_as_string_from_tag_def read_content_from_tag_def reads_rbind [OF reads_u32 [OF assms]] u str raw
          del: be_bytes.simps)
  qed
qed

lemma reads_plain:
  assumes "utf8_exact E" "tables_ok (toks E)" "utf8_valid s" "length s < 2 ^ 32" "\<nexists>m. hint_of (toks E) s = HJid m"
  obtains t bs where "enc_str (toks E) s = t # bs" "plain_tag t"
    "\<And>rs. reads (read_value_as_string_from_tag E rs t) bs (Some s)"
    "t \<in> {BINARY_8, BINARY_20, BINARY_32} \<longleftrightarrow> hint_of (toks E) s \<in> {HEmpty, HRaw}"
proof (cases "hint_of (toks E) s")
  case HEmpty
  then have s: "s = []" by (rule hint_of_cases)
  have e: "enc_str (toks E) s = BINARY_8 # [0]" using HEmpty by (simp add: enc_str.simps [of "toks E" s])
  have "reads (rmap Some (read_string E 0)) [] (Some s)"
    using reads_rmap [OF reads_string [OF assms(1,3)], of Some] s by simp
  then show ?thesis
    by (intro that [OF e]) (simp_all add: plain_tag_def read_value_as_string_from_tag_def reads_u8_bind HEmpty)
next
  case (HSingle t)
  note h = hint_of_cases(2) [OF HSingle]
  note g = tables_ok_single [OF assms(2) h [THEN conjunct2]]
  have "t < 236" using g(2) by (simp add: word_less_nat_alt)
  then have lt: "\<not> 236 \<le> t" "t \<noteq> 245" "t \<noteq> 246" "t \<noteq> 247" "t \<noteq> 248" "t \<noteq> 249" "t \<noteq> 250" "t \<noteq> 251" "t \<noteq> 252" "t \<noteq> 253"
    "t \<noteq> 254" "t \<noteq> 255" by auto
  have e: "enc_str (toks E) s = t # []" using HSingle by (simp add: enc_str.simps [of "toks E" s])
  show ?thesis
    by (rule that [OF e]) (use lt g h in \<open>simp_all add: plain_tag_def read_value_as_string_from_tag_def reads_rpure HSingle\<close>)
next
  case (HDouble d t)
  note h = hint_of_cases(3) [OF HDouble]
  note g = tables_ok_double [OF assms(2) h [THEN conjunct2]]
  note b = tag_between [OF g(2)]
  then have ne: "236 + d \<noteq> 0" "236 + d \<noteq> 245" "236 + d \<noteq> 246" "236 + d \<noteq> 247" "236 + d \<noteq> 248" "236 + d \<noteq> 249" "236 + d \<noteq> 250"
    "236 + d \<noteq> 251" "236 + d \<noteq> 252" "236 + d \<noteq> 253" "236 + d \<noteq> 254" "236 + d \<noteq> 255" by auto
  have e: "enc_str (toks E) s = (236 + d) # [t]" using HDouble by (simp add: enc_str.simps [of "toks E" s])
  show ?thesis
    by (rule that [OF e]) (use ne g b in \<open>simp_all add: plain_tag_def read_value_as_string_from_tag_def reads_u8_bind reads_rpure HDouble\<close>)
next
  case HNibble
  note h = hint_of_cases(4) [OF HNibble]
  have e: "enc_str (toks E) s = NIBBLE_8 # tl (enc_packed NIBBLE_8 s)" using HNibble by (simp add: enc_str.simps [of "toks E" s] enc_packed_def)
  show ?thesis
    by (rule that [OF e]) (use h in \<open>simp_all add: plain_tag_def read_value_as_string_from_tag_def reads_rmap reads_packed assms(1) HNibble\<close>)
next
  case HHex
  note h = hint_of_cases(5) [OF HHex]
  have e: "enc_str (toks E) s = HEX_8 # tl (enc_packed HEX_8 s)" using HHex by (simp add: enc_str.simps [of "toks E" s] enc_packed_def)
  show ?thesis
    by (rule that [OF e]) (use h in \<open>simp_all add: plain_tag_def read_value_as_string_from_tag_def reads_rmap reads_packed assms(1) HHex\<close>)
next
  case HRaw
  obtain t bs where r: "enc_bytes s = t # bs" "t \<in> {BINARY_8, BINARY_20, BINARY_32}"
    "\<And>rs. reads (read_value_as_string_from_tag E rs t) bs (Some s)"
    using reads_raw [OF assms(4), of E] assms(1,3) by metis
  have e: "enc_str (toks E) s = t # bs" using HRaw r(1) by (simp add: enc_str.simps [of "toks E" s])
  show ?thesis by (rule that [OF e _ r(3)]) (use r(2) HRaw in \<open>auto simp: plain_tag_def\<close>)
qed (use assms(5) in blast)

section \<open>Reading JIDs back\<close>

text \<open>A piece of a text that ends at an ASCII character (or at the end) is a text.\<close>

definition ascii_prefix :: "str \<Rightarrow> str \<Rightarrow> bool" where
  "ascii_prefix x y \<longleftrightarrow> x = y \<or> (\<exists>c z. c < 128 \<and> y = x @ c # z)"

lemma ascii_prefix_refl: "ascii_prefix x x"
  by (simp add: ascii_prefix_def)

lemma ascii_prefix_trans: "ascii_prefix x y \<Longrightarrow> ascii_prefix y z \<Longrightarrow> ascii_prefix x z"
  by (auto simp: ascii_prefix_def)

lemma ascii_prefix_valid: "ascii_prefix x y \<Longrightarrow> utf8_valid y \<Longrightarrow> utf8_valid x"
  by (auto simp: ascii_prefix_def utf8_valid_cut)

lemma ascii_prefix_find: "str_find c s = Some i \<Longrightarrow> c < 128 \<Longrightarrow> ascii_prefix (take i s) s"
  by (erule str_find_SomeE) (auto simp: ascii_prefix_def)

lemma ascii_prefix_rfind: "str_rfind c s = Some i \<Longrightarrow> c < 128 \<Longrightarrow> ascii_prefix (take i s) s"
  by (erule str_rfind_SomeE) (auto simp: ascii_prefix_def)

lemma ascii_prefix_user_device: "ascii_prefix (fst (split_user_device u)) u"
  by (auto simp: split_user_device_def ascii_prefix_refl ascii_prefix_find split: option.splits)

lemma ascii_prefix_user_end: "ascii_prefix (take (find_user_end k u) u) u"
proof -
  define e where "e = (case str_find 95 u of
               Some underscore_idx \<Rightarrow>
                 if parse_uint 256 (drop (underscore_idx + 1) u) \<noteq> None
                 then underscore_idx else length u
             | None \<Rightarrow> length u)"
  have 1: "ascii_prefix (take e u) u"
    by (auto simp: e_def ascii_prefix_refl ascii_prefix_find split: option.splits)
  have 2: "ascii_prefix (take i u) (take e u)" if "str_rfind 46 (take e u) = Some i" for i
    using ascii_prefix_rfind [OF that] str_rfind_le [OF that] by simp
  show ?thesis
    unfolding find_user_end_def Let_def e_def [symmetric]
    by (auto simp: 1 ascii_prefix_trans [OF 2 1] split: option.splits)
qed

lemma meta_user_valid:
  assumes "parse_jid_meta s = Some m" "utf8_valid s"
  shows "utf8_valid (meta_user s m)"
proof -
  from assms(1) obtain i where i: "str_find 64 s = Some i" by (auto simp: parse_jid_meta_def split: option.splits)
  let ?u = "take i s"
  obtain ua d where ud: "split_user_device ?u = (ua, d)" by (cases "split_user_device ?u")
  let ?k = "parse_known (drop (i + 1) s)"
  from assms(1) i ud have m: "find_user_end ?k ua < 256" "user_end m = of_nat (find_user_end ?k ua)"
    by (auto simp: parse_jid_meta_def Let_def split: if_splits)
  have "unat (user_end m) = find_user_end ?k ua" using m by (simp add: unat_u8_of_nat)
  moreover have "ascii_prefix ua ?u" using ascii_prefix_user_device [of ?u] ud by simp
  moreover from this obtain z where "take i s = ua @ z" by (auto simp: ascii_prefix_def)
  then have "s = ua @ z @ drop i s" by (metis append_assoc append_take_drop_id)
  then have "take (find_user_end ?k ua) s = take (find_user_end ?k ua) ua"
    using find_user_end_le [of ?k ua] by (metis append_Nil2 diff_is_0_eq' take_0 take_append)
  ultimately have "ascii_prefix (meta_user s m) s"
    using ascii_prefix_trans [OF ascii_prefix_user_end ascii_prefix_trans [OF _ ascii_prefix_find [OF i]]]
    by (simp add: meta_user_def)
  then show ?thesis using assms(2) by (rule ascii_prefix_valid)
qed

text \<open>What is left of a text when it is written and read back: a JID is spelled canonically.\<close>

definition meta_jid :: "str \<Rightarrow> jid_meta \<Rightarrow> server_name \<Rightarrow> jid" where
  "meta_jid s m srv = (jid_new (meta_user s m) srv)\<lparr>jid_device := (case meta_device m of Some d \<Rightarrow> ucast d | None \<Rightarrow> 0)\<rparr>"

definition reread_text :: "token_tables \<Rightarrow> str \<Rightarrow> str" where
  "reread_text T s =
     (case hint_of T s of
        HJid m \<Rightarrow> (case meta_server m of Some srv \<Rightarrow> display (meta_jid s m srv) | None \<Rightarrow> s)
      | _ \<Rightarrow> s)"

definition reread_value :: "token_tables \<Rightarrow> str \<Rightarrow> node_value" where
  "reread_value T s =
     (case hint_of T s of
        HJid m \<Rightarrow> (case meta_server m of Some srv \<Rightarrow> VJid (meta_jid s m srv) | None \<Rightarrow> VString s)
      | _ \<Rightarrow> VString s)"

text \<open>The strings that can be read back: texts of a length the format can carry, in which an \<open>@\<close>
  is followed by a known server if the encoder takes them for a JID.\<close>

definition wire_str :: "token_tables \<Rightarrow> str \<Rightarrow> bool" where
  "wire_str T s \<longleftrightarrow> utf8_valid s \<and> length s < 2 ^ 32 \<and>
     (case hint_of T s of HJid m \<Rightarrow> meta_server m \<noteq> None | _ \<Rightarrow> True)"

lemma no_at_plain: "64 \<notin> set s \<Longrightarrow> \<nexists>m. hint_of T s = HJid m"
  using hint_of_HJid [of T s] parse_jid_meta_parts [of s] by (metis in_set_conv_decomp)

lemma domain_server_inverse: "server_supports_ad_jid srv \<Longrightarrow> domain_server (server_to_domain_type srv) = Some srv"
  by (auto simp: server_supports_ad_jid_def server_to_domain_type_def domain_server_def)

lemma reads_plain_str:
  assumes "utf8_exact E" "tables_ok (toks E)" "utf8_valid s" "length s < 2 ^ 32" "\<nexists>m. hint_of (toks E) s = HJid m"
  shows "reads (read_str_n E (Suc n)) (enc_str (toks E) s) (Some s)"
proof -
  from reads_plain [OF assms] obtain t bs where "enc_str (toks E) s = t # bs"
    "\<And>rs. reads (read_value_as_string_from_tag E rs t) bs (Some s)" by metis
  then show ?thesis by (simp add: reads_u8_bind)
qed

lemma reads_server:
  assumes "utf8_exact E" "tables_ok (toks E)"
  shows "reads (read_str_n E (Suc n)) (enc_str (toks E) (as_str srv)) (Some (as_str srv))"
proof (rule reads_plain_str [OF assms])
  show "utf8_valid (as_str srv)" by (rule utf8_as_str)
  show "length (as_str srv) < 2 ^ 32" by (cases srv) (simp_all add: lit_def)
  show "\<nexists>m. hint_of (toks E) (as_str srv) = HJid m" by (rule no_at_plain) simp
qed

lemma server_try_from_as_str: "server_try_from (as_str srv) = Ok srv"
  by (simp add: server_try_from_def parse_known_as_str)

text \<open>Reading the two JID forms, given readers of the user.\<close>

lemma reads_ad_jid:
  assumes "reads rs ub (Some u)" "server_supports_ad_jid srv"
  shows "reads (read_ad_jid rs) (server_to_domain_type srv # dev # ub) ((jid_new u srv)\<lparr>jid_device := ucast dev\<rparr>)"
proof -
  have "reads (rbind rs (\<lambda>user. case user of None \<Rightarrow> rfail InvalidNode
      | Some u \<Rightarrow> (case domain_server (server_to_domain_type srv) of Some srv \<Rightarrow> rpure ((jid_new u srv)\<lparr>jid_device := ucast dev\<rparr>)
          | None \<Rightarrow> rfail (AttrParse (lit ''read_ad_jid - Invalid domain type encoding '' @ dec (unat (server_to_domain_type srv)))))))
      (ub @ []) ((jid_new u srv)\<lparr>jid_device := ucast dev\<rparr>)"
    by (rule reads_rbind [OF assms(1)]) (simp add: domain_server_inverse [OF assms(2)] reads_rpure)
  then show ?thesis unfolding read_ad_jid_def by (intro reads_u8_bind) simp
qed

lemma reads_jid_pair:
  assumes "reads rs ub user" "reads rs sb (Some (as_str srv))"
  shows "reads (read_jid_pair rs) (ub @ sb) (jid_new (or_default user) srv)"
proof -
  have "reads (read_jid_pair rs) (ub @ sb @ []) (jid_new (or_default user) srv)"
    unfolding read_jid_pair_def
    by (rule reads_rbind [OF assms(1)], rule reads_rbind [OF assms(2)])
       (simp add: or_default_def unwrap_or_def server_try_from_as_str reads_rpure)
  then show ?thesis by simp
qed

lemma reads_empty: "reads (read_str_n E (Suc n)) [LIST_EMPTY] None"
  by (simp add: reads_u8_bind read_value_as_string_from_tag_def reads_rpure)

text \<open>A JID token: its tag, and the JID read behind it with \<open>rs\<close> for the strings inside.\<close>

definition jid_token :: "str option reader \<Rightarrow> u8 list \<Rightarrow> jid \<Rightarrow> bool" where
  "jid_token rs bs j \<longleftrightarrow>
     (\<exists>xs. bs = AD_JID # xs \<and> reads (read_ad_jid rs) xs j) \<or> (\<exists>xs. bs = JID_PAIR # xs \<and> reads (read_jid_pair rs) xs j)"

lemma jid_token_text:
  assumes "jid_token rs bs j"
  obtains t xs where "bs = t # xs" "t \<in> {AD_JID, JID_PAIR}" "reads (read_value_as_string_from_tag E rs t) xs (Some (display j))"
proof -
  have "reads (read_value_as_string_from_tag E rs AD_JID) xs (Some (display j))" if "reads (read_ad_jid rs) xs j" for xs
    using reads_rmap [OF that, of "\<lambda>j. Some (jid_ref_to_compact j)"]
    by (simp add: read_value_as_string_from_tag_def jid_ref_to_compact_text)
  moreover have "reads (read_value_as_string_from_tag E rs JID_PAIR) xs (Some (display j))" if "reads (read_jid_pair rs) xs j" for xs
    using reads_rmap [OF that, of "\<lambda>j. Some (jid_ref_to_compact j)"]
    by (simp add: read_value_as_string_from_tag_def jid_ref_to_compact_text)
  ultimately show thesis using assms that [of AD_JID] that [of JID_PAIR] by (auto simp: jid_token_def)
qed

lemma jid_token_value:
  assumes "jid_token (read_value_as_string E) bs j"
  shows "reads (read_value E) bs (Some (VJid j))"
  using assms unfolding jid_token_def read_value_def
  by (elim disjE exE conjE) (auto intro!: reads_u8_bind reads_rmap)

lemma jid_str_token:
  assumes "utf8_exact E" "tables_ok (toks E)" "utf8_valid s" "hint_of (toks E) s = HJid m" "meta_server m = Some srv"
  shows "jid_token (read_str_n E (Suc n)) (enc_str (toks E) s) (meta_jid s m srv)"
proof -
  note p = hint_of_HJid [OF assms(4)]
  let ?u = "meta_user s m"
  have "length ?u < 2 ^ 32" using p by (simp add: meta_user_def min.strict_coboundedI1)
  with assms p have u: "reads (read_str_n E (Suc n)) (enc_str (toks E) ?u) (Some ?u)"
    by (intro reads_plain_str meta_user_valid no_at_plain meta_user_count) auto
  have sv: "meta_serv s m = as_str srv" by (simp add: meta_serv_def assms(5))
  show ?thesis
  proof (cases "meta_device m")
    case (Some d)
    then have ad: "server_supports_ad_jid srv" using p assms(5) by (metis option.distinct(1) option.inject parse_jid_meta_parts)
    have "enc_str (toks E) s = AD_JID # server_to_domain_type srv # d # enc_str (toks E) ?u"
      by (simp add: enc_str.simps [of "toks E" s] assms(4) Some domain_type_def assms(5))
    with reads_ad_jid [OF u ad, of d] show ?thesis by (auto simp: jid_token_def meta_jid_def Some)
  next
    case None
    have e: "enc_str (toks E) s = JID_PAIR # (if ?u = [] then [LIST_EMPTY] else enc_str (toks E) ?u) @ enc_str (toks E) (as_str srv)"
      by (simp add: enc_str.simps [of "toks E" s] assms(4) None sv)
    have "reads (read_str_n E (Suc n)) (if ?u = [] then [LIST_EMPTY] else enc_str (toks E) ?u) (if ?u = [] then None else Some ?u)"
      using u reads_empty by auto
    from reads_jid_pair [OF this reads_server [OF assms(1,2)], of srv] e show ?thesis
      by (auto simp: jid_token_def meta_jid_def None or_default_def unwrap_or_def jid_new_def)
  qed
qed

lemma reads_text_tag:
  assumes "utf8_exact E" "tables_ok (toks E)" "wire_str (toks E) s"
  obtains t xs where "enc_str (toks E) s = t # xs" "t \<notin> {LIST_EMPTY, LIST_8, LIST_16}"
    "t \<in> {BINARY_8, BINARY_20, BINARY_32} \<longleftrightarrow> hint_of (toks E) s \<in> {HEmpty, HRaw}"
    "reads (read_value_as_string_from_tag E (read_str_n E (Suc n)) t) xs (Some (reread_text (toks E) s))"
proof (cases "\<exists>m. hint_of (toks E) s = HJid m")
  case True
  then obtain m srv where m: "hint_of (toks E) s = HJid m" "meta_server m = Some srv"
    using assms(3) by (auto simp: wire_str_def)
  have "utf8_valid s" using assms(3) by (simp add: wire_str_def)
  from jid_token_text [OF jid_str_token [OF assms(1,2) this m]] obtain t xs where "enc_str (toks E) s = t # xs"
    "t \<in> {AD_JID, JID_PAIR}" "reads (read_value_as_string_from_tag E (read_str_n E (Suc n)) t) xs (Some (display (meta_jid s m srv)))"
    by metis
  then show thesis using m by (intro that [of t xs]) (auto simp: reread_text_def)
next
  case False
  then have r: "reread_text (toks E) s = s" by (auto simp: reread_text_def split: string_hint.splits)
  have "utf8_valid s" "length s < 2 ^ 32" using assms(3) by (simp_all add: wire_str_def)
  from reads_plain [OF assms(1,2) this False] obtain t bs where "enc_str (toks E) s = t # bs" "plain_tag t"
    "t \<in> {BINARY_8, BINARY_20, BINARY_32} \<longleftrightarrow> hint_of (toks E) s \<in> {HEmpty, HRaw}"
    "\<And>rs. reads (read_value_as_string_from_tag E rs t) bs (Some s)" by metis
  then show thesis by (intro that [of t bs]) (auto simp: plain_tag_def r)
qed

lemma reads_text:
  assumes "utf8_exact E" "tables_ok (toks E)" "wire_str (toks E) s"
  shows "reads (read_str_n E (Suc (Suc n))) (enc_str (toks E) s) (Some (reread_text (toks E) s))"
proof -
  from reads_text_tag [OF assms, of n] obtain t xs where "enc_str (toks E) s = t # xs"
    "reads (read_value_as_string_from_tag E (read_str_n E (Suc n)) t) xs (Some (reread_text (toks E) s))" by metis
  then show ?thesis by (subst read_str_n.simps) (simp add: reads_u8_bind del: read_str_n.simps)
qed

text \<open>Outside the JID tags a value is the string behind its tag.\<close>

lemma read_value_plain:
  assumes "plain_tag t" "reads (read_value_as_string_from_tag E rs t) bs (Some s)"
  shows "reads (read_value E) (t # bs) (Some (VString s))"
proof -
  have "(if t = LIST_EMPTY then rpure None
      else if t = BINARY_8 then rbind read_u8 (\<lambda>n. rmap (\<lambda>s. Some (VString s)) (read_string E (unat n)))
      else if t = BINARY_20 then rbind read_u20_be (\<lambda>n. rmap (\<lambda>s. Some (VString s)) (read_string E (unat n)))
      else if t = BINARY_32 then rbind read_u32_be (\<lambda>n. rmap (\<lambda>s. Some (VString s)) (read_string E (unat n)))
      else if t = JID_PAIR then rmap (\<lambda>j. Some (VJid j)) (read_jid_pair (read_value_as_string E))
      else if t = AD_JID then rmap (\<lambda>j. Some (VJid j)) (read_ad_jid (read_value_as_string E))
      else if t = INTEROP_JID then rmap (\<lambda>j. Some (VJid j)) (read_interop_jid (read_value_as_string E))
      else if t = FB_JID then rmap (\<lambda>j. Some (VJid j)) (read_fb_jid (read_value_as_string E))
      else if t = NIBBLE_8 \<or> t = HEX_8 then rmap (\<lambda>s. Some (VString s)) (read_packed E t)
      else if DICTIONARY_0 \<le> t \<and> t \<le> DICTIONARY_3 then
        rbind read_u8 (\<lambda>index.
        (case get_double_token (toks E) (t - DICTIONARY_0) index of
           Some s \<Rightarrow> rpure (Some (VString s)) | None \<Rightarrow> rfail (InvalidToken t)))
      else
        (case get_single_token (toks E) t of
           Some s \<Rightarrow> rpure (Some (VString s)) | None \<Rightarrow> rfail (InvalidToken t))) =
    rmap (map_option VString) (read_value_as_string_from_tag E rs t)"
    using assms(1) unfolding plain_tag_def read_value_as_string_from_tag_def
    by (auto simp: rmap_rbind rmap_rmap split: option.split intro!: arg_cong2 [where f = rbind])
  with reads_rmap [OF assms(2), of "map_option VString"] show ?thesis
    unfolding read_value_def by (intro reads_u8_bind) simp
qed

lemma reads_str_value:
  assumes "utf8_exact E" "tables_ok (toks E)" "wire_str (toks E) s" "0 < str_frames E"
  shows "reads (read_value E) (enc_str (toks E) s) (Some (reread_value (toks E) s))"
proof (cases "\<exists>m. hint_of (toks E) s = HJid m")
  case True
  then obtain m srv where m: "hint_of (toks E) s = HJid m" "meta_server m = Some srv"
    using assms(3) by (auto simp: wire_str_def)
  obtain n where n: "str_frames E = Suc n" using assms(4) by (cases "str_frames E") auto
  have "utf8_valid s" using assms(3) by (simp add: wire_str_def)
  from jid_str_token [OF assms(1,2) this m, of n] n
  have "jid_token (read_value_as_string E) (enc_str (toks E) s) (meta_jid s m srv)" by (simp add: read_value_as_string_def)
  from jid_token_value [OF this] m show ?thesis by (simp add: reread_value_def)
next
  case False
  then have v: "reread_value (toks E) s = VString s" by (auto simp: reread_value_def split: string_hint.splits)
  have "utf8_valid s" "length s < 2 ^ 32" using assms(3) by (simp_all add: wire_str_def)
  from reads_plain [OF assms(1,2) this False] obtain t bs where t: "enc_str (toks E) s = t # bs" "plain_tag t"
    "\<And>rs. reads (read_value_as_string_from_tag E rs t) bs (Some s)" by metis
  from read_value_plain [OF t(2) t(3)] show ?thesis by (simp add: v t(1))
qed

definition wire_jid :: "token_tables \<Rightarrow> jid \<Rightarrow> bool" where
  "wire_jid T j \<longleftrightarrow> wire_str T (jid_user j) \<and> \<not> needs_interop_jid (jid_server j) (jid_integrator j)"

definition reread_jid :: "token_tables \<Rightarrow> jid \<Rightarrow> jid" where
  "reread_jid T j = (jid_new (reread_text T (jid_user j)) (jid_server j))
     \<lparr>jid_device := (if server_supports_ad_jid (jid_server j) then jid_device j else 0)\<rparr>"

lemma reread_text_Nil: "reread_text T [] = []"
  by (simp add: reread_text_def hint_of_def classify_string_hint_def)

lemma reads_jid_value:
  assumes "utf8_exact E" "tables_ok (toks E)" "wire_jid (toks E) j" "2 \<le> str_frames E" "enc_jid (toks E) j = Ok bs"
  shows "reads (read_value E) bs (Some (VJid (reread_jid (toks E) j)))"
proof -
  obtain n where n: "str_frames E = Suc (Suc n)" using assms(4) by (metis add_2_eq_Suc le_Suc_ex)
  let ?u = "jid_user j" and ?T = "toks E"
  have ni: "\<not> needs_interop_jid (jid_server j) (jid_integrator j)" using assms(3) by (simp add: wire_jid_def)
  have u: "reads (read_value_as_string E) (enc_str ?T ?u) (Some (reread_text ?T ?u))"
    using reads_text [OF assms(1,2), of ?u n] assms(3) by (simp add: wire_jid_def read_value_as_string_def n)
  show ?thesis
  proof (rule jid_token_value, cases "0 < jid_device j \<and> server_supports_ad_jid (jid_server j)")
    case True
    with assms(5) ni have d: "unat (jid_device j) < 256"
      and bs: "bs = AD_JID # server_to_domain_type (jid_server j) # ucast (jid_device j) # enc_str ?T ?u"
      by (auto simp: enc_jid_def split: if_splits)
    have "unat (take_bit 8 (jid_device j)) = unat (jid_device j)"
      unfolding unsigned_take_bit_eq using d by (intro take_bit_nat_eq_self) simp
    then have "ucast (ucast (jid_device j) :: u8) = jid_device j"
      by (intro word_unat_eq_iff [THEN iffD2]) (simp add: unsigned_ucast_eq)
    with reads_ad_jid [OF u conjunct2 [OF True], of "ucast (jid_device j)"] bs True
    show "jid_token (read_value_as_string E) bs (reread_jid ?T j)"
      by (auto simp: jid_token_def reread_jid_def)
  next
    case False
    with assms(5) ni have bs: "bs = JID_PAIR # (if ?u = [] then [LIST_EMPTY] else enc_str ?T ?u) @ enc_str ?T (as_str (jid_server j))"
      by (auto simp: enc_jid_def split: if_splits)
    have "reads (read_value_as_string E) (if ?u = [] then [LIST_EMPTY] else enc_str ?T ?u) (if ?u = [] then None else Some (reread_text ?T ?u))"
      using u reads_empty [of E "Suc n"] by (auto simp: read_value_as_string_def n simp del: read_str_n.simps)
    moreover have "(if server_supports_ad_jid (jid_server j) then jid_device j else 0) = 0"
      using False word_gt_0 [of "jid_device j"] by auto
    moreover note reads_jid_pair [OF calculation(1)] reads_server [OF assms(1,2), of "Suc n" "jid_server j"] bs
    ultimately
    show "jid_token (read_value_as_string E) bs (reread_jid ?T j)"
      by (auto simp: jid_token_def reread_jid_def or_default_def unwrap_or_def jid_new_def read_value_as_string_def n reread_text_Nil
          simp del: read_str_n.simps)
  qed
qed

section \<open>Reading nodes back\<close>

lemma reads_then: "reads m bs x \<Longrightarrow> f x = rpure y \<Longrightarrow> reads (rbind m f) bs y"
  using reads_rbind [of m bs x f "[]" y] by (simp add: reads_rpure)

text \<open>Lists of anything: a repeated reader takes the concatenation.\<close>

lemma reads_rrep:
  "list_all2 (\<lambda>bs x. reads r bs x) bss xs \<Longrightarrow> reads (rrep (length xs) r) (concat bss) xs"
proof (induction bss xs rule: list_all2_induct)
  case (Cons bs bss x xs)
  from reads_rbind [OF Cons(3) reads_rpure] have "reads (rbind (rrep (length xs) r) (\<lambda>xs. rpure (x # xs))) (concat bss) (x # xs)"
    by simp
  then show ?case by (simp add: reads_rbind [OF Cons(1)])
qed (simp add: reads_rpure)

lemma enc_all_OkE:
  assumes "enc_all (map f xs) = Ok bs"
  obtains bss where "bs = concat bss" "list_all2 (\<lambda>b x. f x = Ok b) bss xs"
proof -
  have "\<exists>bss. bs = concat bss \<and> list_all2 (\<lambda>b x. f x = Ok b) bss xs"
    using assms
  proof (induction xs arbitrary: bs)
    case (Cons x xs)
    then obtain b bs' where b: "f x = Ok b" "enc_all (map f xs) = Ok bs'" "bs = b @ bs'" by (auto simp: length_join)
    from Cons.IH [OF b(2)] obtain bss where "bs' = concat bss" "list_all2 (\<lambda>b x. f x = Ok b) bss xs" by blast
    then show ?case using b by (intro exI [of _ "b # bss"]) simp
  qed simp
  then show thesis using that by blast
qed

text \<open>The list heads.\<close>

lemma reads_list:
  assumes "enc_list n = Ok bs"
  obtains t xs where "bs = t # xs" "t = LIST_EMPTY \<longleftrightarrow> n = 0" "t \<in> {LIST_EMPTY, LIST_8, LIST_16}"
    "reads (read_list_size t) xs n"
proof -
  consider "n = 0" | "n \<noteq> 0" "n < 256" | "\<not> n < 256" "n \<le> 65535"
    using assms by (auto simp: enc_list_def split: if_splits)
  then show thesis
  proof cases
    case 1
    then show ?thesis using assms by (intro that [of LIST_EMPTY "[]"]) (auto simp: enc_list_def read_list_size_def reads_rpure)
  next
    case 2
    then show ?thesis using assms reads_rmap [OF reads_u8, of unat "of_nat n"]
      by (intro that [of LIST_8 "[of_nat n]"]) (auto simp: enc_list_def read_list_size_def unat_u8_of_nat)
  next
    case 3
    then have "unat (of_nat n :: u16) = n" by (simp add: unat_u16_of_nat)
    then show ?thesis using 3 assms reads_rmap [OF reads_u16, of n unat]
      by (intro that [of LIST_16 "be_bytes 2 n"]) (auto simp: enc_list_def read_list_size_def simp del: be_bytes.simps)
  qed
qed

text \<open>What comes back of a node: strings that look like JIDs are rewritten in the canonical form,
  as values they become JIDs; a text that was not compressed comes back as bytes and an empty list
  of children as no content.\<close>

definition reread_attr :: "token_tables \<Rightarrow> str \<times> node_value \<Rightarrow> str \<times> node_value" where
  "reread_attr T a = (reread_text T (fst a),
     (case snd a of VString s \<Rightarrow> reread_value T s | VJid j \<Rightarrow> VJid (reread_jid T j)))"

fun reread_node :: "token_tables \<Rightarrow> node \<Rightarrow> node" and reread_content :: "token_tables \<Rightarrow> content \<Rightarrow> content option" where
  "reread_node T (Node t as c) =
     Node (reread_text T t) (map (reread_attr T) as) (case c of None \<Rightarrow> None | Some x \<Rightarrow> reread_content T x)"
| "reread_content T (CString s) =
     Some (if hint_of T s \<in> {HEmpty, HRaw} then Bytes s else CString (reread_text T s))"
| "reread_content T (Bytes b) = Some (Bytes b)"
| "reread_content T (Nodes ns) = (if ns = [] then None else Some (Nodes (map (reread_node T) ns)))"

definition wire_value :: "token_tables \<Rightarrow> node_value \<Rightarrow> bool" where
  "wire_value T v = (case v of VString s \<Rightarrow> wire_str T s | VJid j \<Rightarrow> wire_jid T j)"

fun wire_node :: "token_tables \<Rightarrow> node \<Rightarrow> bool" and wire_content :: "token_tables \<Rightarrow> content \<Rightarrow> bool" where
  "wire_node T (Node t as c) \<longleftrightarrow> wire_str T t \<and> list_all (\<lambda>(k, v). wire_str T k \<and> wire_value T v) as \<and>
     (case c of None \<Rightarrow> True | Some x \<Rightarrow> wire_content T x)"
| "wire_content T (CString s) \<longleftrightarrow> wire_str T s"
| "wire_content T (Bytes b) \<longleftrightarrow> length b < 2 ^ 32"
| "wire_content T (Nodes ns) \<longleftrightarrow> list_all (wire_node T) ns"

lemma reads_attribute:
  assumes "utf8_exact E" "tables_ok (toks E)" "2 \<le> str_frames E" "wire_str (toks E) k" "wire_value (toks E) v"
    and "(case v of VString s \<Rightarrow> Ok (enc_str (toks E) s) | VJid j \<Rightarrow> enc_jid (toks E) j) = Ok vb"
  shows "reads (read_attribute E) (enc_str (toks E) k @ vb) (reread_attr (toks E) (k, v))"
proof -
  obtain n where n: "str_frames E = Suc (Suc n)" using assms(3) by (metis add_2_eq_Suc le_Suc_ex)
  have k: "reads (read_value_as_string E) (enc_str (toks E) k) (Some (reread_text (toks E) k))"
    unfolding read_value_as_string_def n by (rule reads_text [OF assms(1,2,4)])
  have "reads (read_value E) vb (Some (snd (reread_attr (toks E) (k, v))))"
    using assms reads_str_value [OF assms(1,2)] reads_jid_value [OF assms(1,2)]
    by (cases v) (auto simp: reread_attr_def wire_value_def)
  then have "reads (rbind (read_value E) (\<lambda>v. rpure (reread_text (toks E) k, unwrap_or (VString []) v))) vb (reread_attr (toks E) (k, v))"
    by (rule reads_then) (simp add: unwrap_or_def reread_attr_def)
  then show ?thesis unfolding read_attribute_def by (intro reads_rbind [OF k]) simp
qed

lemma reads_attributes:
  assumes "utf8_exact E" "tables_ok (toks E)" "2 \<le> str_frames E"
    and "list_all (\<lambda>(k, v). wire_str (toks E) k \<and> wire_value (toks E) v) as" "enc_all (attr_encs (toks E) as) = Ok bs"
  shows "reads (read_attributes E (length as)) bs (map (reread_attr (toks E)) as)"
proof -
  let ?v = "\<lambda>v. case v of VString s \<Rightarrow> Ok (enc_str (toks E) s) | VJid j \<Rightarrow> enc_jid (toks E) j"
  have e: "enc_all (attr_encs (toks E) as) = enc_all (map (\<lambda>a. join (Ok (enc_str (toks E) (fst a))) (?v (snd a))) as)" for as
  proof (induction as)
    case (Cons a as)
    then show ?case by (cases a; cases "?v (snd a)"; cases "enc_all (attr_encs (toks E) as)") (auto simp: attr_encs_def join_def)
  qed (simp add: attr_encs_def)
  from assms(5) [unfolded e] obtain bss where bss: "bs = concat bss"
    "list_all2 (\<lambda>b a. join (Ok (enc_str (toks E) (fst a))) (?v (snd a)) = Ok b) bss as" by (rule enc_all_OkE)
  from this(2) assms(4) have "list_all2 (\<lambda>b x. reads (read_attribute E) b x) bss (map (reread_attr (toks E)) as)"
  proof (induction bss as rule: list_all2_induct)
    case (Cons b bss a as)
    obtain k v where a: "a = (k, v)" by (cases a)
    with Cons(1) obtain vb where "?v v = Ok vb" "b = enc_str (toks E) k @ vb" by (auto simp: length_join)
    with Cons reads_attribute [OF assms(1-3), of k v vb] show ?case by (simp add: a)
  qed simp
  from reads_rrep [OF this] show ?thesis by (cases as) (simp_all add: bss(1) read_attributes_def)
qed

text \<open>Content is read in two parts: its tag and what follows it in the head, then the children.\<close>

definition head_content :: "codec_env \<Rightarrow> u8 \<Rightarrow> open_content reader" where
  "head_content E t =
     (if t = LIST_EMPTY then rpure ONone
      else if t = LIST_8 \<or> t = LIST_16 then rmap OChildren (read_list_size t)
      else rbind (read_content_from_tag E rpanic t) (\<lambda>c.
        rpure (case c of Some scalar \<Rightarrow> OScalar scalar | None \<Rightarrow> ONone)))"

definition tail_content :: "codec_env \<Rightarrow> nat \<Rightarrow> open_content \<Rightarrow> content option reader" where
  "tail_content E depth oc =
     (case oc of
        ONone \<Rightarrow> rpure None
      | OScalar scalar \<Rightarrow> rpure (Some scalar)
      | OChildren count \<Rightarrow> rmap (\<lambda>ns. Some (Nodes ns)) (rrep count (read_node_ref_at E (depth + 1))))"

definition content_reads :: "codec_env \<Rightarrow> nat \<Rightarrow> u8 list \<Rightarrow> content option \<Rightarrow> bool" where
  "content_reads E depth bs c \<longleftrightarrow>
     (\<exists>t xs ys oc. bs = t # xs @ ys \<and> reads (head_content E t) xs oc \<and> reads (tail_content E depth oc) ys c)"

lemma reads_node_shape:
  assumes "enc_list n = Ok lb" "0 < n" "reads (read_value_as_string E) tb (Some t)"
    and "reads (read_attributes E ((n - 1) div 2)) ab as"
    and "if even n then content_reads E depth cb c else cb = [] \<and> c = None" "depth < 128"
  shows "reads (read_node_ref_at E depth) (lb @ tb @ ab @ cb) (Node t as c)"
proof -
  obtain l ls where l: "lb = l # ls" "reads (read_list_size l) ls n" using reads_list [OF assms(1)] by metis
  obtain hs ys oc where h: "cb = hs @ ys" "reads (tail_content E depth oc) ys c"
    "reads (if n mod 2 = 0 then rbind read_u8 (head_content E) else rpure ONone) hs oc"
  proof (cases "even n")
    case True
    with assms(5) obtain t xs ys oc where "cb = t # xs @ ys" "reads (head_content E t) xs oc" "reads (tail_content E depth oc) ys c"
      by (auto simp: content_reads_def)
    with True show thesis by (intro that [of "t # xs" ys oc]) (auto simp: even_iff_mod_2_eq_zero intro: reads_u8_bind)
  next
    case False
    with assms(5) show thesis
      by (intro that [of "[]" "[]" ONone]) (auto simp: even_iff_mod_2_eq_zero tail_content_def reads_rpure)
  qed
  let ?h = "\<lparr>open_tag = t, open_attrs = as, open_content = oc\<rparr>"
  have "reads (rbind (if n mod 2 = 0 then rbind read_u8 (head_content E) else rpure ONone)
      (\<lambda>content. rpure \<lparr>open_tag = t, open_attrs = as, open_content = content\<rparr>)) hs ?h"
    by (rule reads_then [OF h(3)]) simp
  note r = reads_rbind [OF assms(4), of "\<lambda>as. rbind (if n mod 2 = 0 then rbind read_u8 (head_content E) else rpure ONone)
      (\<lambda>content. rpure \<lparr>open_tag = t, open_attrs = as, open_content = content\<rparr>)", OF this]
  have nz: "n \<noteq> 0" using assms(2) by simp
  have "reads (read_node_open E) (l # ls @ tb @ ab @ hs) ?h"
    unfolding read_node_open_def
    by (rule reads_u8_bind, rule reads_rbind [OF l(2)], subst if_not_P [OF nz], rule reads_rbind [OF assms(3)],
      unfold option.case, rule r [unfolded head_content_def [abs_def]])
  moreover have "reads (rbind (tail_content E depth oc) (\<lambda>content. rpure (Node t as content))) ys (Node t as c)"
    by (rule reads_then [OF h(2)]) simp
  ultimately have "reads (rbind (read_node_open E) (\<lambda>head. rbind (tail_content E depth (open_content head))
      (\<lambda>content. rpure (Node (open_tag head) (open_attrs head) content)))) ((l # ls @ tb @ ab @ hs) @ ys) (Node t as c)"
    by (intro reads_rbind) auto
  then show ?thesis
    using assms(6) by (subst read_node_ref_at.simps) (simp add: tail_content_def l(1) h(1))
qed

lemma content_reads_scalar:
  assumes "bs = t # xs" "t \<notin> {LIST_EMPTY, LIST_8, LIST_16}" "reads (read_content_from_tag E rpanic t) xs (Some c)"
  shows "content_reads E depth bs (Some c)"
proof -
  have "reads (head_content E t) xs (OScalar c)"
    using assms(2) unfolding head_content_def by simp (intro reads_then [OF assms(3)], simp)
  moreover have "reads (tail_content E depth (OScalar c)) [] (Some c)" by (simp add: tail_content_def reads_rpure)
  ultimately show ?thesis using assms(1) unfolding content_reads_def
    by (intro exI [of _ t] exI [of _ xs] exI [of _ "[]"] exI [of _ "OScalar c"]) simp
qed

lemma content_reads_text:
  assumes "utf8_exact E" "tables_ok (toks E)" "0 < str_frames E" "wire_str (toks E) s"
  shows "content_reads E depth (enc_str (toks E) s) (reread_content (toks E) (CString s))"
proof (cases "hint_of (toks E) s \<in> {HEmpty, HRaw}")
  case True
  then have "enc_str (toks E) s = enc_bytes s"
    by (cases "hint_of (toks E) s") (auto simp: enc_str.simps [of "toks E" s] enc_bytes_def dest!: hint_of_cases(1))
  moreover have "length s < 2 ^ 32" using assms(4) by (simp add: wire_str_def)
  from reads_raw [OF this, of E] obtain t bs where "enc_bytes s = t # bs" "t \<in> {BINARY_8, BINARY_20, BINARY_32}"
    "\<And>child. reads (read_content_from_tag E child t) bs (Some (Bytes s))" by metis
  ultimately show ?thesis using True by (auto intro!: content_reads_scalar)
next
  case False
  obtain n where n: "str_frames E = Suc n" using assms(3) by (cases "str_frames E") auto
  obtain t xs where t: "enc_str (toks E) s = t # xs" "t \<notin> {LIST_EMPTY, LIST_8, LIST_16}" "t \<notin> {BINARY_8, BINARY_20, BINARY_32}"
    and r: "reads (read_value_as_string_from_tag E (read_value_as_string E) t) xs (Some (reread_text (toks E) s))"
    using reads_text_tag [OF assms(1,2,4), of n] False unfolding read_value_as_string_def n by metis
  have "reads (read_content_from_tag E rpanic t) xs (Some (CString (reread_text (toks E) s)))"
    using t(2,3) unfolding read_content_from_tag_def by simp (intro reads_then [OF r], simp)
  with content_reads_scalar [OF t(1), of E "CString (reread_text (toks E) s)" depth] t(2) False show ?thesis by auto
qed

lemma content_reads_nodes:
  assumes "list_all2 (\<lambda>b n. reads (read_node_ref_at E (depth + 1)) b n) bss ns" "enc_list (length ns) = Ok lb"
  shows "content_reads E depth (lb @ concat bss) (if ns = [] then None else Some (Nodes ns))"
proof -
  from reads_list [OF assms(2)] obtain t xs where t: "lb = t # xs" "t = LIST_EMPTY \<longleftrightarrow> length ns = 0"
    "t \<in> {LIST_EMPTY, LIST_8, LIST_16}" "reads (read_list_size t) xs (length ns)" by metis
  show ?thesis
  proof (cases "ns = []")
    case True
    with assms(1) t(2,4) have "bss = []" "t = LIST_EMPTY" "reads (read_list_size LIST_EMPTY) xs 0" by auto
    moreover from this(3) have "xs = []"
      by (simp add: read_list_size_def reads_def rpure_def at_def)
    ultimately show ?thesis using True t(1) unfolding content_reads_def
      by (intro exI [of _ LIST_EMPTY] exI [of _ "[]"] exI [of _ "[]"] exI [of _ ONone])
        (simp add: head_content_def tail_content_def reads_rpure)
  next
    case False
    with t have "reads (head_content E t) xs (OChildren (length ns))"
      by (auto simp: head_content_def intro: reads_rmap)
    moreover have "reads (tail_content E depth (OChildren (length ns))) (concat bss) (Some (Nodes ns))"
      unfolding tail_content_def using reads_rmap [OF reads_rrep [OF assms(1)]] by simp
    ultimately show ?thesis using False t(1) unfolding content_reads_def
      by (intro exI [of _ t] exI [of _ xs] exI [of _ "concat bss"] exI [of _ "OChildren (length ns)"]) simp
  qed
qed

lemma child_depth: "n \<in> set ns \<Longrightarrow> node_depth n \<le> content_depth (Nodes ns)"
  by (induction ns) auto

lemma reads_node:
  assumes "utf8_exact E" "tables_ok (toks E)" "2 \<le> str_frames E"
  shows "wire_node (toks E) n \<Longrightarrow> enc_node (toks E) n = Ok bs \<Longrightarrow> depth + node_depth n \<le> MAX_NODE_DEPTH \<Longrightarrow>
      reads (read_node_ref_at E depth) bs (reread_node (toks E) n)"
    and "wire_content (toks E) c \<Longrightarrow> enc_content (toks E) c = Ok bs \<Longrightarrow> depth + 1 + content_depth c \<le> MAX_NODE_DEPTH \<Longrightarrow>
      content_reads E depth bs (reread_content (toks E) c)"
proof (induction n and c arbitrary: bs depth and bs depth)
  case (Node t as c)
  let ?T = "toks E"
  obtain n where n: "str_frames E = Suc (Suc n)" using assms(3) by (metis add_2_eq_Suc le_Suc_ex)
  from Node(3) obtain lb ab cb where e: "enc_list (node_list_len as c) = Ok lb" "enc_all (attr_encs ?T as) = Ok ab"
    "(case c of None \<Rightarrow> Ok [] | Some x \<Rightarrow> enc_content ?T x) = Ok cb" "bs = lb @ enc_str ?T t @ ab @ cb"
    by (auto simp: length_join)
  have "reads (read_value_as_string E) (enc_str ?T t) (Some (reread_text ?T t))"
    unfolding read_value_as_string_def n using Node(2) by (intro reads_text [OF assms(1,2)]) simp
  moreover have "reads (read_attributes E ((node_list_len as c - 1) div 2)) ab (map (reread_attr ?T) as)"
    using reads_attributes [OF assms, of as ab] Node(2) e(2) by (cases c) (simp_all add: node_list_len_def)
  moreover have "if even (node_list_len as c) then content_reads E depth cb (case c of None \<Rightarrow> None | Some x \<Rightarrow> reread_content ?T x)
      else cb = [] \<and> (case c of None \<Rightarrow> None | Some x \<Rightarrow> reread_content ?T x) = None"
    using Node(1) Node(2,4) e(3) by (cases c) (auto simp: node_list_len_def)
  ultimately show ?case using reads_node_shape [OF e(1)] Node(4) e(4) by (simp add: node_list_len_def)
next
  case (CString s)
  then have "bs = enc_str (toks E) s" "wire_str (toks E) s" by simp_all
  then show ?case using content_reads_text [OF assms(1,2), of s depth] assms(3) by (simp del: reread_content.simps)
next
  case (Bytes b)
  then have "length b < 2 ^ 32" by simp
  from reads_raw [OF this, of E] obtain t xs where "enc_bytes b = t # xs" "t \<in> {BINARY_8, BINARY_20, BINARY_32}"
    "\<And>child. reads (read_content_from_tag E child t) xs (Some (Bytes b))" by metis
  then show ?case using Bytes(2) by (auto intro!: content_reads_scalar)
next
  case (Nodes ns)
  from Nodes(3) obtain lb cb where e: "enc_list (length ns) = Ok lb" "enc_all (map (enc_node (toks E)) ns) = Ok cb" "bs = lb @ cb"
    by (auto simp: length_join)
  from enc_all_OkE [OF e(2)] obtain bss where bss: "cb = concat bss" "list_all2 (\<lambda>b n. enc_node (toks E) n = Ok b) bss ns" by metis
  have "reads (read_node_ref_at E (depth + 1)) b (reread_node (toks E) n)" if "enc_node (toks E) n = Ok b" "n \<in> set ns" for b n
    using Nodes(1) [OF that(2) _ that(1), of "depth + 1"] Nodes(2,4) child_depth [OF that(2)] that(2) by (simp add: list_all_iff)
  with bss(2) have "list_all2 (\<lambda>b n. reads (read_node_ref_at E (depth + 1)) b n) bss (map (reread_node (toks E)) ns)"
    unfolding list_all2_conv_all_nth by simp
  from content_reads_nodes [OF this] e(1) show ?case by (simp add: e(3) bss(1))
qed

end
