(* ===== verification/Marshal.thy ===== *)
theory Marshal
  imports Read_Back
begin

text \<open>
  Marshalling: \<open>marshal.rs\<close>. A payload is the format byte and the bytes of one node.

  The strategies differ in the buffer they reserve and in whether they plan the size first; the
  theorems say that all of them write the same payload. A vector is the list of its bytes:
  \<open>with_capacity\<close> keeps of a reservation only that it panics above \<open>isize::MAX\<close> bytes. Borrowed
  nodes are the same data as owned ones.
\<close>

abbreviation (input) DEFAULT_MARSHAL_CAPACITY :: nat where "DEFAULT_MARSHAL_CAPACITY \<equiv> 1024"
abbreviation (input) AUTO_RESERVE_ATTRS_THRESHOLD :: nat where "AUTO_RESERVE_ATTRS_THRESHOLD \<equiv> 24"
abbreviation (input) AUTO_RESERVE_CHILDREN_THRESHOLD :: nat where "AUTO_RESERVE_CHILDREN_THRESHOLD \<equiv> 64"
abbreviation (input) AUTO_RESERVE_SCALAR_THRESHOLD :: nat where "AUTO_RESERVE_SCALAR_THRESHOLD \<equiv> 8 * 1024"
abbreviation (input) AUTO_CHILD_SAMPLE_LIMIT :: nat where "AUTO_CHILD_SAMPLE_LIMIT \<equiv> 32"
abbreviation (input) AUTO_MAX_HINT_CAPACITY :: nat where "AUTO_MAX_HINT_CAPACITY \<equiv> 512 * 1024"
abbreviation (input) AUTO_ATTR_ESTIMATE :: nat where "AUTO_ATTR_ESTIMATE \<equiv> 24"
abbreviation (input) AUTO_CHILD_ESTIMATE :: nat where "AUTO_CHILD_ESTIMATE \<equiv> 96"
abbreviation (input) AUTO_GRANDCHILD_ESTIMATE :: nat where "AUTO_GRANDCHILD_ESTIMATE \<equiv> 40"
abbreviation (input) SHALLOW_NODE_OVERHEAD :: nat where "SHALLOW_NODE_OVERHEAD \<equiv> 4"
abbreviation (input) SHALLOW_JID_OVERHEAD :: nat where "SHALLOW_JID_OVERHEAD \<equiv> 12"
abbreviation (input) SHALLOW_CHILD_SAMPLE :: nat where "SHALLOW_CHILD_SAMPLE \<equiv> 32"
abbreviation (input) SHALLOW_MAX_CAPACITY :: nat where "SHALLOW_MAX_CAPACITY \<equiv> 4 * 1024 * 1024"

section \<open>Unmarshalling\<close>

definition unmarshal_ref :: "codec_env \<Rightarrow> u8 list \<Rightarrow> (binary_error, node) outcome" where
  "unmarshal_ref E data =
     obind (read_node_ref E (decoder_new data)) (\<lambda>(n, d).
       if is_finished d then Ok n else Err (LeftoverData (bytes_left d)))"

definition unmarshal_packed_ref :: "codec_env \<Rightarrow> u8 list \<Rightarrow> (binary_error, node) outcome" where
  "unmarshal_packed_ref E data =
     obind (check_plain_payload data) (\<lambda>_. if data = [] then Panic else unmarshal_ref E (drop 1 data))"

section \<open>Capacity estimates\<close>

definition shallow_string_estimate :: "nat \<Rightarrow> nat" where
  "shallow_string_estimate len =
     (let header = (if len < 256 then 2 else if len < 2 ^ 20 then 4 else 5) in len + header)"

definition shallow_value_estimate :: "node_value \<Rightarrow> nat" where
  "shallow_value_estimate v =
     (case v of
        VString text \<Rightarrow> shallow_string_estimate (length text)
      | VJid jid \<Rightarrow> length (jid_user jid) + SHALLOW_JID_OVERHEAD)"

definition div_ceil :: "nat \<Rightarrow> nat \<Rightarrow> nat" where
  "div_ceil a b = (a + b - 1) div b"

lemma size_sampled: "n \<in> set (take k ns) \<Longrightarrow> size n \<le> size_list size ns"
  by (rule size_list_estimation' [OF in_set_takeD order_refl])

function accumulate_shallow_estimate :: "node \<Rightarrow> nat \<Rightarrow> nat" where
  "accumulate_shallow_estimate (Node t as c) estimate =
     (let estimate = estimate + (SHALLOW_NODE_OVERHEAD + shallow_string_estimate (length t));
          estimate = foldl (\<lambda>est (key, val). est + (shallow_string_estimate (length key) + shallow_value_estimate val)) estimate as
      in
        case c of
          Some (Bytes bytes) \<Rightarrow> estimate + shallow_string_estimate (length bytes)
        | Some (CString text) \<Rightarrow> estimate + shallow_string_estimate (length text)
        | Some (Nodes kids) \<Rightarrow>
            if SHALLOW_MAX_CAPACITY \<le> estimate then estimate
            else
              (let sampled = min (length kids) SHALLOW_CHILD_SAMPLE;
                   before = estimate;
                   estimate = foldl (\<lambda>est child. accumulate_shallow_estimate child est) estimate (take sampled kids);
                   remaining = length kids - sampled
               in if 0 < remaining then estimate + div_ceil (estimate - before) sampled * remaining else estimate)
        | None \<Rightarrow> estimate)"
  by pat_completeness auto
termination
  by (relation "measure (\<lambda>(n, _). size n)") (auto dest!: size_sampled)

declare accumulate_shallow_estimate.simps [simp del]

definition shallow_capacity_node :: "node \<Rightarrow> nat" where
  "shallow_capacity_node n = min (accumulate_shallow_estimate n 0) SHALLOW_MAX_CAPACITY"

definition big_list :: "node \<Rightarrow> bool" where
  "big_list child =
     (case node_content child of Some (Nodes gc) \<Rightarrow> AUTO_RESERVE_CHILDREN_THRESHOLD \<le> length gc | _ \<Rightarrow> False)"

definition should_auto_reserve_node :: "node \<Rightarrow> bool" where
  "should_auto_reserve_node n =
     (if AUTO_RESERVE_ATTRS_THRESHOLD \<le> length (node_attrs n) then True
      else
        (case node_content n of
           Some (Bytes bytes) \<Rightarrow> AUTO_RESERVE_SCALAR_THRESHOLD \<le> length bytes
         | Some (CString text) \<Rightarrow> AUTO_RESERVE_SCALAR_THRESHOLD \<le> length text
         | Some (Nodes kids) \<Rightarrow>
             if AUTO_RESERVE_CHILDREN_THRESHOLD \<le> length kids then True
             else list_ex big_list kids
         | None \<Rightarrow> False))"

definition should_auto_reserve_node_ref :: "node \<Rightarrow> bool" where
  "should_auto_reserve_node_ref n =
     (if AUTO_RESERVE_ATTRS_THRESHOLD \<le> length (node_attrs n) then True
      else
        (case node_content n of
           Some (Bytes bytes) \<Rightarrow> AUTO_RESERVE_SCALAR_THRESHOLD \<le> length bytes
         | Some (CString text) \<Rightarrow> AUTO_RESERVE_SCALAR_THRESHOLD \<le> length text
         | Some (Nodes kids) \<Rightarrow>
             if AUTO_RESERVE_CHILDREN_THRESHOLD \<le> length kids then True
             else list_ex big_list kids
         | None \<Rightarrow> False))"

text \<open>The loop over the sampled children, which returns from the function when the estimate
  reaches the ceiling (\<open>Inl\<close>).\<close>

fun estimate_children :: "node list \<Rightarrow> nat \<Rightarrow> nat + nat" where
  "estimate_children [] estimate = Inr estimate"
| "estimate_children (child # kids) estimate =
     (let estimate = estimate + (length (node_tag child) + length (node_attrs child) * AUTO_ATTR_ESTIMATE);
          estimate =
            (case node_content child of
               Some (Bytes bytes) \<Rightarrow> estimate + (length bytes + 8)
             | Some (CString text) \<Rightarrow> estimate + (length text + 8)
             | Some (Nodes grand_children) \<Rightarrow> estimate + length grand_children * AUTO_GRANDCHILD_ESTIMATE
             | None \<Rightarrow> estimate)
      in if AUTO_MAX_HINT_CAPACITY \<le> estimate then Inl AUTO_MAX_HINT_CAPACITY else estimate_children kids estimate)"

definition clamp :: "nat \<Rightarrow> nat \<Rightarrow> nat \<Rightarrow> nat" where
  "clamp x lo hi = (if x < lo then lo else if hi < x then hi else x)"

definition estimate_capacity_node :: "node \<Rightarrow> nat" where
  "estimate_capacity_node n =
     (let estimate = DEFAULT_MARSHAL_CAPACITY + 16 + length (node_tag n) + length (node_attrs n) * AUTO_ATTR_ESTIMATE;
          result =
            (case node_content n of
               Some (Bytes bytes) \<Rightarrow> Inr (estimate + (length bytes + 8))
             | Some (CString text) \<Rightarrow> Inr (estimate + (length text + 8))
             | Some (Nodes kids) \<Rightarrow>
                 estimate_children (take AUTO_CHILD_SAMPLE_LIMIT kids) (estimate + length kids * AUTO_CHILD_ESTIMATE)
             | None \<Rightarrow> Inr estimate)
      in case result of Inl r \<Rightarrow> r | Inr estimate \<Rightarrow> clamp estimate DEFAULT_MARSHAL_CAPACITY AUTO_MAX_HINT_CAPACITY)"

definition estimate_capacity_node_ref :: "node \<Rightarrow> nat" where
  "estimate_capacity_node_ref n =
     (let estimate = DEFAULT_MARSHAL_CAPACITY + 16 + length (node_tag n) + length (node_attrs n) * AUTO_ATTR_ESTIMATE;
          result =
            (case node_content n of
               Some (Bytes bytes) \<Rightarrow> Inr (estimate + (length bytes + 8))
             | Some (CString text) \<Rightarrow> Inr (estimate + (length text + 8))
             | Some (Nodes kids) \<Rightarrow>
                 estimate_children (take AUTO_CHILD_SAMPLE_LIMIT kids) (estimate + length kids * AUTO_CHILD_ESTIMATE)
             | None \<Rightarrow> Inr estimate)
      in case result of Inl r \<Rightarrow> r | Inr estimate \<Rightarrow> clamp estimate DEFAULT_MARSHAL_CAPACITY AUTO_MAX_HINT_CAPACITY)"

section \<open>Marshalling\<close>

definition with_capacity :: "nat \<Rightarrow> (binary_error, u8 list) outcome" where
  "with_capacity capacity = (if capacity < 2 ^ 63 then Ok [] else Panic)"

text \<open>\<open>write_all\<close> is the method of the \<open>Write\<close> that the caller passes.\<close>

definition marshal_to ::
  "('w \<Rightarrow> u8 list \<Rightarrow> (str, 'w) outcome) \<Rightarrow> token_tables \<Rightarrow> node \<Rightarrow> 'w \<Rightarrow> (binary_error, 'w) outcome" where
  "marshal_to write_all T n w =
     obind (encoder_new (io_write write_all) w) (\<lambda>e. omap enc_writer (write_node_owned (io_write write_all) T n e))"

definition marshal_to_vec :: "token_tables \<Rightarrow> node \<Rightarrow> u8 list \<Rightarrow> (binary_error, u8 list) outcome" where
  "marshal_to_vec T n out = obind (new_vec out) (\<lambda>e. omap enc_writer (write_node_owned vec_write T n e))"

definition marshal :: "token_tables \<Rightarrow> node \<Rightarrow> (binary_error, u8 list) outcome" where
  "marshal T n = obind (with_capacity DEFAULT_MARSHAL_CAPACITY) (marshal_to_vec T n)"

definition marshal_with_capacity :: "token_tables \<Rightarrow> node \<Rightarrow> nat \<Rightarrow> (binary_error, u8 list) outcome" where
  "marshal_with_capacity T n capacity = obind (with_capacity capacity) (marshal_to_vec T n)"

definition marshal_auto :: "token_tables \<Rightarrow> node \<Rightarrow> (binary_error, u8 list) outcome" where
  "marshal_auto T n =
     (if should_auto_reserve_node n then marshal_with_capacity T n (estimate_capacity_node n) else marshal T n)"

definition marshal_exact :: "token_tables \<Rightarrow> node \<Rightarrow> (binary_error, u8 list) outcome" where
  "marshal_exact T n =
     obind (build_marshaled_node_plan T n) (\<lambda>plan.
     obind (with_capacity (plan_size plan)) (\<lambda>payload.
     obind (new_vec_with_hints payload (Some (plan_hints plan))) (\<lambda>e.
     obind (write_node_owned vec_write T n e) (\<lambda>e.
       if length (enc_writer e) \<noteq> plan_size plan \<or> \<not> (case enc_hints e of Some c \<Rightarrow> fully_consumed c | None \<Rightarrow> True)
       then Err PlanMismatch else Ok (enc_writer e)))))"

definition marshal_shallow :: "token_tables \<Rightarrow> node \<Rightarrow> (binary_error, u8 list) outcome" where
  "marshal_shallow T n = marshal_with_capacity T n (shallow_capacity_node n)"

definition marshal_ref_to ::
  "('w \<Rightarrow> u8 list \<Rightarrow> (str, 'w) outcome) \<Rightarrow> token_tables \<Rightarrow> node \<Rightarrow> 'w \<Rightarrow> (binary_error, 'w) outcome" where
  "marshal_ref_to write_all T n w =
     obind (encoder_new (io_write write_all) w) (\<lambda>e. omap enc_writer (write_node_ref (io_write write_all) T n e))"

definition marshal_ref_to_vec :: "token_tables \<Rightarrow> node \<Rightarrow> u8 list \<Rightarrow> (binary_error, u8 list) outcome" where
  "marshal_ref_to_vec T n out = obind (new_vec out) (\<lambda>e. omap enc_writer (write_node_ref vec_write T n e))"

definition marshal_ref :: "token_tables \<Rightarrow> node \<Rightarrow> (binary_error, u8 list) outcome" where
  "marshal_ref T n = obind (with_capacity DEFAULT_MARSHAL_CAPACITY) (marshal_ref_to_vec T n)"

definition marshal_ref_with_capacity :: "token_tables \<Rightarrow> node \<Rightarrow> nat \<Rightarrow> (binary_error, u8 list) outcome" where
  "marshal_ref_with_capacity T n capacity = obind (with_capacity capacity) (marshal_ref_to_vec T n)"

definition marshal_ref_auto :: "token_tables \<Rightarrow> node \<Rightarrow> (binary_error, u8 list) outcome" where
  "marshal_ref_auto T n =
     (if should_auto_reserve_node_ref n then marshal_ref_with_capacity T n (estimate_capacity_node_ref n)
      else marshal_ref T n)"

definition marshal_ref_exact :: "token_tables \<Rightarrow> node \<Rightarrow> (binary_error, u8 list) outcome" where
  "marshal_ref_exact T n =
     obind (build_marshaled_node_ref_plan T n) (\<lambda>plan.
     obind (with_capacity (plan_size plan)) (\<lambda>payload.
     obind (new_vec_with_hints payload (Some (plan_hints plan))) (\<lambda>e.
     obind (write_node_ref vec_write T n e) (\<lambda>e.
       if length (enc_writer e) \<noteq> plan_size plan \<or> \<not> (case enc_hints e of Some c \<Rightarrow> fully_consumed c | None \<Rightarrow> True)
       then Err PlanMismatch else Ok (enc_writer e)))))"

section \<open>What is marshalled\<close>

lemma write_node_vec:
  assumes "expects e (node_hints T n)"
  shows "write_node_owned vec_write T n e =
    omap (\<lambda>bs. e\<lparr>enc_writer := enc_writer e @ bs, enc_hints := bump (length (node_hints T n)) (enc_hints e)\<rparr>) (enc_node T n)"
  unfolding write_node_owned_def
  by (rule emits_vec [OF vec_writer.emits_node(1) [OF vec_writer.emits_jid] assms])

lemma write_node_ref_owned: "write_node_ref = write_node_owned"
  by (intro ext) (simp add: write_node_ref_def write_node_owned_def write_jid_ref_owned)

lemma plan_is:
  "build_marshaled_node_plan T n =
     Ok \<lparr>plan_size = 1 + node_bytes T n, plan_hints = \<lparr>hc_hints = node_hints T n, hc_cursor = 0\<rparr>\<rparr>"
proof -
  have "plan_adds (node_bytes T n) (node_hints T n) (node_size_walk T (owned_jid_encoded_size_with_cache T) n)"
    by (rule plan_node) (simp add: plan_jid owned_jid_encoded_size_with_cache_def)
  then show ?thesis unfolding plan_adds_def build_marshaled_node_plan_def node_encoded_size_with_cache_def
    by (simp add: hints_default_def)
qed

lemma marshal_to_vec_is: "marshal_to_vec T n out = omap (\<lambda>bs. FORMAT_PLAIN # bs) (enc_node T n)"
proof -
  have "expects \<lparr>enc_writer = [0 :: u8], enc_hints = None\<rparr> (node_hints T n)" by (simp add: expects_def)
  from write_node_vec [OF this] show ?thesis
    by (cases "enc_node T n")
      (simp_all add: marshal_to_vec_def new_vec_def new_vec_with_hints_def write_u8_def write_raw_bytes_def vec_write_def)
qed

lemma marshal_is: "marshal T n = omap (\<lambda>bs. FORMAT_PLAIN # bs) (enc_node T n)"
  by (simp add: marshal_def with_capacity_def marshal_to_vec_is)

lemma marshal_exact_is: "marshal_exact T n = (if 1 + node_bytes T n < 2 ^ 63 then marshal T n else Panic)"
proof -
  have "expects \<lparr>enc_writer = [0 :: u8], enc_hints = Some \<lparr>hc_hints = node_hints T n, hc_cursor = 0\<rparr>\<rparr> (node_hints T n)"
    by (simp add: expects_def)
  from write_node_vec [OF this] enc_node_length [of T n] show ?thesis
    by (cases "enc_node T n")
      (simp_all add: marshal_exact_def plan_is with_capacity_def marshal_is new_vec_with_hints_def write_u8_def write_raw_bytes_def
        vec_write_def bump_def fully_consumed_def)
qed

lemma ref_plan: "build_marshaled_node_ref_plan = build_marshaled_node_plan"
proof -
  have "owned_jid_encoded_size_with_cache T = jid_ref_encoded_size_with_cache T" for T
    by (rule ext) (simp add: owned_jid_encoded_size_with_cache_def jid_ref_encoded_size_with_cache_def)
  then show ?thesis
    by (intro ext) (simp add: build_marshaled_node_plan_def build_marshaled_node_ref_plan_def node_encoded_size_with_cache_def
      node_ref_encoded_size_with_cache_def)
qed

lemma marshal_ref_twins:
  "marshal_ref_to = marshal_to"
  "marshal_ref_to_vec = marshal_to_vec"
  "marshal_ref = marshal"
  "marshal_ref_with_capacity = marshal_with_capacity"
  "marshal_ref_exact = marshal_exact"
proof -
  show "marshal_ref_to = marshal_to"
    by (intro ext) (simp add: marshal_ref_to_def marshal_to_def write_node_ref_owned)
  show v: "marshal_ref_to_vec = marshal_to_vec"
    by (intro ext) (simp add: marshal_ref_to_vec_def marshal_to_vec_def write_node_ref_owned)
  show "marshal_ref = marshal" "marshal_ref_with_capacity = marshal_with_capacity"
    by (intro ext, simp add: marshal_ref_def marshal_def marshal_ref_with_capacity_def marshal_with_capacity_def v)+
  show "marshal_ref_exact = marshal_exact"
    by (intro ext) (simp add: marshal_ref_exact_def marshal_exact_def write_node_ref_owned ref_plan)
qed

lemma clamp_bounds: "lo \<le> hi \<Longrightarrow> lo \<le> clamp x lo hi \<and> clamp x lo hi \<le> hi"
  by (auto simp: clamp_def)

lemma estimate_children_Inl: "estimate_children cs est = Inl r \<Longrightarrow> r = AUTO_MAX_HINT_CAPACITY"
  by (induction cs est rule: estimate_children.induct) (auto simp: Let_def split: if_splits)

lemma estimate_capacity_bounds:
  "DEFAULT_MARSHAL_CAPACITY \<le> estimate_capacity_node n \<and> estimate_capacity_node n \<le> AUTO_MAX_HINT_CAPACITY"
proof -
  have "\<And>x. 1024 \<le> clamp x 1024 (512 * 1024) \<and> clamp x 1024 (512 * 1024) \<le> 512 * 1024" by (rule clamp_bounds) simp
  then show ?thesis
    unfolding estimate_capacity_node_def Let_def
    by (auto split: option.split content.split sum.split dest: estimate_children_Inl)
qed

lemma estimate_ref_twins:
  "estimate_capacity_node_ref = estimate_capacity_node" "should_auto_reserve_node_ref = should_auto_reserve_node"
  by (intro ext; simp only: estimate_capacity_node_ref_def estimate_capacity_node_def should_auto_reserve_node_ref_def
      should_auto_reserve_node_def)+

section \<open>What can be marshalled\<close>

text \<open>The wire has 16 bits for the length of a list and 8 for a device.\<close>

definition encodable_jid :: "jid \<Rightarrow> bool" where
  "encodable_jid j \<longleftrightarrow> needs_interop_jid (jid_server j) (jid_integrator j) \<or> \<not> server_supports_ad_jid (jid_server j) \<or>
     unat (jid_device j) < 256"

fun encodable :: "node \<Rightarrow> bool" and encodable_content :: "content \<Rightarrow> bool" where
  "encodable (Node t as c) \<longleftrightarrow> node_list_len as c \<le> 65535 \<and>
     list_all (\<lambda>(k, v). case v of VString s \<Rightarrow> True | VJid j \<Rightarrow> encodable_jid j) as \<and>
     (case c of None \<Rightarrow> True | Some x \<Rightarrow> encodable_content x)"
| "encodable_content (CString s) \<longleftrightarrow> True"
| "encodable_content (Bytes b) \<longleftrightarrow> True"
| "encodable_content (Nodes ns) \<longleftrightarrow> length ns \<le> 65535 \<and> list_all encodable ns"

definition settles :: "bool \<Rightarrow> ('e, 'a) outcome \<Rightarrow> bool" where
  "settles P r = (case r of Ok _ \<Rightarrow> P | Err _ \<Rightarrow> \<not> P | Panic \<Rightarrow> False)"

lemma settles_Ok [simp]: "settles P (Ok x) = P"
  by (simp add: settles_def)

lemma settles_join: "settles P a \<Longrightarrow> settles Q b \<Longrightarrow> settles (P \<and> Q) (join a b)"
  by (auto simp: settles_def join_def split: outcome.splits)

lemma settles_all: "(\<And>x. x \<in> set xs \<Longrightarrow> settles (P x) (f x)) \<Longrightarrow> settles (list_all P xs) (enc_all (map f xs))"
  by (induction xs) (simp_all add: settles_join)

lemma settles_list: "settles (n \<le> 65535) (enc_list n)"
  by (auto simp: settles_def enc_list_def)

lemma settles_jid: "settles (encodable_jid j) (enc_jid T j)"
  using word_gt_0 [of "jid_device j"] by (auto simp: settles_def enc_jid_def encodable_jid_def)

lemma settles_attrs:
  "settles (list_all (\<lambda>(k, v). case v of VString s \<Rightarrow> True | VJid j \<Rightarrow> encodable_jid j) as) (enc_all (attr_encs T as))"
proof (induction as)
  case (Cons a as)
  obtain k v where a: "a = (k, v)" by (cases a)
  have "settles (case v of VString s \<Rightarrow> True | VJid j \<Rightarrow> encodable_jid j)
      (case v of VString s \<Rightarrow> Ok (enc_str T s) | VJid j \<Rightarrow> enc_jid T j)"
    by (cases v) (simp_all add: settles_jid)
  from settles_join [OF settles_Ok [of True, THEN iffD2, OF TrueI] settles_join [OF this Cons]]
  show ?case by (simp add: a attr_encs_def)
qed (simp add: attr_encs_def)

lemma settles_node:
  "settles (encodable n) (enc_node T n)"
  "settles (encodable_content c) (enc_content T c)"
proof (induction n and c)
  case (Node t as c)
  have "settles (case c of None \<Rightarrow> True | Some x \<Rightarrow> encodable_content x) (case c of None \<Rightarrow> Ok [] | Some x \<Rightarrow> enc_content T x)"
    using Node by (cases c) simp_all
  from settles_join [OF settles_list settles_join [OF settles_Ok [of True, THEN iffD2, OF TrueI] settles_join [OF settles_attrs this]]]
  show ?case by simp
next
  case (Nodes ns)
  then have "settles (list_all encodable ns) (enc_all (map (enc_node T) ns))" by (rule settles_all)
  from settles_join [OF settles_list this] show ?case by simp
qed simp_all

section \<open>What is unmarshalled\<close>

lemma unmarshal_node:
  assumes "utf8_exact E" "tables_ok (toks E)" "2 \<le> str_frames E" "wire_node (toks E) n" "node_depth n \<le> MAX_NODE_DEPTH"
    and "enc_node (toks E) n = Ok bs"
  shows "unmarshal_ref E bs = Ok (reread_node (toks E) n)"
proof -
  have "reads (read_node_ref_at E 0) bs (reread_node (toks E) n)"
    using reads_node(1) [OF assms(1-4,6), of 0] assms(5) by simp
  from this [unfolded reads_def, rule_format, of "[]" "[]"] show ?thesis
    by (simp add: unmarshal_ref_def read_node_ref_def decoder_new_at)
qed

lemma enc_node_nonempty: "enc_node T n = Ok bs \<Longrightarrow> bs \<noteq> []"
  by (cases n) (auto simp: length_join enc_list_def split: if_splits)

text \<open>Nodes that come back as they are.\<close>

definition settled_str :: "token_tables \<Rightarrow> str \<Rightarrow> bool" where
  "settled_str T s \<longleftrightarrow> (case hint_of T s of HJid m \<Rightarrow> False | _ \<Rightarrow> True)"

definition settled_jid :: "token_tables \<Rightarrow> jid \<Rightarrow> bool" where
  "settled_jid T j \<longleftrightarrow> jid_agent j = 0 \<and> jid_integrator j = 0 \<and> (jid_device j = 0 \<or> server_supports_ad_jid (jid_server j)) \<and>
     settled_str T (jid_user j)"

fun settled :: "token_tables \<Rightarrow> node \<Rightarrow> bool" and settled_content :: "token_tables \<Rightarrow> content \<Rightarrow> bool" where
  "settled T (Node t as c) \<longleftrightarrow> settled_str T t \<and>
     list_all (\<lambda>(k, v). settled_str T k \<and> (case v of VString s \<Rightarrow> settled_str T s | VJid j \<Rightarrow> settled_jid T j)) as \<and>
     (case c of None \<Rightarrow> True | Some x \<Rightarrow> settled_content T x)"
| "settled_content T (CString s) \<longleftrightarrow> settled_str T s \<and> hint_of T s \<notin> {HEmpty, HRaw}"
| "settled_content T (Bytes b) \<longleftrightarrow> True"
| "settled_content T (Nodes ns) \<longleftrightarrow> ns \<noteq> [] \<and> list_all (settled T) ns"

lemma settled_text: "settled_str T s \<Longrightarrow> reread_text T s = s" "settled_str T s \<Longrightarrow> reread_value T s = VString s"
  by (auto simp: settled_str_def reread_text_def reread_value_def split: string_hint.splits)

lemma settled_reread_jid: "settled_jid T j \<Longrightarrow> reread_jid T j = j"
  by (cases j) (auto simp: settled_jid_def reread_jid_def jid_new_def settled_text)

lemma settled_attrs:
  "list_all (\<lambda>(k, v). settled_str T k \<and> (case v of VString s \<Rightarrow> settled_str T s | VJid j \<Rightarrow> settled_jid T j)) as \<Longrightarrow>
   map (reread_attr T) as = as"
  by (induction as) (auto simp: reread_attr_def settled_text settled_reread_jid split: node_value.splits)

lemma settled_reread:
  "settled T n \<Longrightarrow> reread_node T n = n"
  "settled_content T c \<Longrightarrow> reread_content T c = Some c"
proof (induction n and c)
  case (Node t as c)
  then show ?case by (cases c) (auto simp: settled_text settled_attrs)
next
  case (Nodes ns)
  then show ?case by (auto simp: list_all_iff map_idI)
qed (auto simp: settled_text)

section \<open>How much is reserved\<close>

text \<open>Trees the estimate is an upper bound for: no string is written as a JID, the server of a JID
  takes at most six bytes, and no node is wider than the sample.\<close>

fun roomy :: "token_tables \<Rightarrow> node \<Rightarrow> bool" and roomy_content :: "token_tables \<Rightarrow> content \<Rightarrow> bool" where
  "roomy T (Node t as c) \<longleftrightarrow> settled_str T t \<and> length as \<le> 126 \<and>
     list_all (\<lambda>(k, v). settled_str T k \<and> (case v of VString s \<Rightarrow> settled_str T s
       | VJid j \<Rightarrow> settled_jid T j \<and> length (enc_str T (as_str (jid_server j))) \<le> 6)) as \<and>
     (case c of None \<Rightarrow> True | Some x \<Rightarrow> roomy_content T x)"
| "roomy_content T (CString s) \<longleftrightarrow> settled_str T s"
| "roomy_content T (Bytes b) \<longleftrightarrow> True"
| "roomy_content T (Nodes ns) \<longleftrightarrow> length ns \<le> SHALLOW_CHILD_SAMPLE \<and> list_all (roomy T) ns"

lemma settled_str_length: "settled_str T s \<Longrightarrow> length (enc_str T s) \<le> shallow_string_estimate (length s)"
  by (cases "hint_of T s")
    (auto simp: settled_str_def enc_str.simps [of T s] shallow_string_estimate_def length_enc_packed length_enc_bytes
      packed_encoded_size_def bytes_with_len_encoded_size_def binary_len_prefix_size_def dest: hint_of_cases)

lemma bytes_length: "bytes_with_len_encoded_size n = shallow_string_estimate n"
  by (simp add: bytes_with_len_encoded_size_def binary_len_prefix_size_def shallow_string_estimate_def)

lemma settled_jid_length:
  assumes "settled_jid T j" "length (enc_str T (as_str (jid_server j))) \<le> 6"
  shows "jid_size T j \<le> length (jid_user j) + SHALLOW_JID_OVERHEAD"
proof -
  have "settled_str T (jid_user j)" using assms(1) by (simp add: settled_jid_def)
  from settled_str_length [OF this] assms show ?thesis
    by (auto simp: jid_size_def settled_jid_def needs_interop_jid_def shallow_string_estimate_def split: if_splits)
qed

lemma foldl_add: "foldl (\<lambda>est a. est + w a) e as = e + sum_list (map w as)" for e :: nat
  by (induction as arbitrary: e) simp_all

lemma roomy_attrs:
  assumes "list_all (\<lambda>(k, v). settled_str T k \<and> (case v of VString s \<Rightarrow> settled_str T s
       | VJid j \<Rightarrow> settled_jid T j \<and> length (enc_str T (as_str (jid_server j))) \<le> 6)) as"
  shows "attrs_size T as \<le> sum_list (map (\<lambda>(k, v). shallow_string_estimate (length k) + shallow_value_estimate v) as)"
  unfolding attrs_size_def
proof (rule sum_list_mono)
  fix a assume "a \<in> set as"
  with assms obtain k v where "a = (k, v)" "settled_str T k" "case v of VString s \<Rightarrow> settled_str T s
       | VJid j \<Rightarrow> settled_jid T j \<and> length (enc_str T (as_str (jid_server j))) \<le> 6" by (auto simp: list_all_iff)
  then show "(case a of (k, v) \<Rightarrow> length (enc_str T k) + (case v of VString s \<Rightarrow> length (enc_str T s) | VJid j \<Rightarrow> jid_size T j))
      \<le> (case a of (k, v) \<Rightarrow> shallow_string_estimate (length k) + shallow_value_estimate v)"
    by (auto simp: shallow_value_estimate_def split: node_value.splits
        intro!: add_mono dest: settled_str_length settled_jid_length)
qed

lemma shallow_children:
  assumes "\<And>n e. n \<in> set ns \<Longrightarrow> min (e + node_bytes T n + 1) m \<le> accumulate_shallow_estimate n e"
  shows "min (e + sum_list (map (node_bytes T) ns) + length ns) m \<le> foldl (\<lambda>est n. accumulate_shallow_estimate n est) e ns"
  using assms
proof (induction ns arbitrary: e)
  case (Cons n ns)
  note a = Cons.prems [of n e]
  note b = Cons.IH [of "accumulate_shallow_estimate n e", OF Cons.prems]
  show ?case using a b by auto
qed simp

lemma shallow_node:
  "roomy T n \<Longrightarrow> min (e + node_bytes T n + 1) SHALLOW_MAX_CAPACITY \<le> accumulate_shallow_estimate n e"
proof (induction n arbitrary: e rule: measure_induct_rule [of size])
  case (less n)
  obtain t as c where n: "n = Node t as c" by (cases n)
  let ?e = "e + (4 + shallow_string_estimate (length t)) +
    sum_list (map (\<lambda>(k, v). shallow_string_estimate (length k) + shallow_value_estimate v) as)"
  have f: "foldl (\<lambda>est (key, val). est + (shallow_string_estimate (length key) + shallow_value_estimate val)) x as =
      x + sum_list (map (\<lambda>(k, v). shallow_string_estimate (length k) + shallow_value_estimate v) as)" for x
    using foldl_add [of "\<lambda>(k, v). shallow_string_estimate (length k) + shallow_value_estimate v" x as] by (simp add: case_prod_beta')
  have t: "length (enc_str T t) \<le> shallow_string_estimate (length t)"
    and as: "attrs_size T as \<le> sum_list (map (\<lambda>(k, v). shallow_string_estimate (length k) + shallow_value_estimate v) as)"
    and l: "list_start_encoded_size (node_list_len as c) = 2"
    using less(2) settled_str_length roomy_attrs
    by (auto simp: n list_start_encoded_size_def node_list_len_def split: option.splits)
  show ?case
  proof (cases c)
    case None
    then show ?thesis using t as l by (simp add: n accumulate_shallow_estimate.simps f)
  next
    case (Some x)
    show ?thesis
    proof (cases x)
      case (Nodes ns)
      have "min (e' + node_bytes T m + 1) SHALLOW_MAX_CAPACITY \<le> accumulate_shallow_estimate m e'" if "m \<in> set ns" for m e'
        using less(1) [of m e'] less(2) that size_list_estimation' [OF that order_refl, of size] by (simp add: n Some Nodes list_all_iff)
      from shallow_children [OF this] have k: "min (?e + sum_list (map (node_bytes T) ns) + length ns) SHALLOW_MAX_CAPACITY \<le>
        foldl (\<lambda>est n. accumulate_shallow_estimate n est) ?e ns" .
      have ns: "length ns \<le> 32" using less(2) by (simp add: n Some Nodes)
      then have ls: "list_start_encoded_size (length ns) + 1 \<le> 2 + length ns"
        by (cases ns) (simp_all add: list_start_encoded_size_def)
      have "accumulate_shallow_estimate n e = (if SHALLOW_MAX_CAPACITY \<le> ?e then ?e else foldl (\<lambda>est n. accumulate_shallow_estimate n est) ?e ns)"
        using ns by (simp add: n Some Nodes accumulate_shallow_estimate.simps f Let_def)
      then show ?thesis using k t as l ls by (simp add: n Some Nodes min_def split: if_splits)
    next
      case (Bytes b)
      then show ?thesis using t as l by (simp add: n Some accumulate_shallow_estimate.simps f bytes_length)
    next
      case (CString s)
      then have "length (enc_str T s) \<le> shallow_string_estimate (length s)"
        using less(2) by (simp add: n Some settled_str_length)
      then show ?thesis using t as l CString by (simp add: n Some accumulate_shallow_estimate.simps f)
    qed
  qed
qed

section \<open>JIDs as strings and as values\<close>

text \<open>A JID whose user has no separator, rendered and classified.\<close>

definition simple_jid :: "token_tables \<Rightarrow> jid \<Rightarrow> bool" where
  "simple_jid T j \<longleftrightarrow> jid_agent j = 0 \<and> jid_integrator j = 0 \<and> unat (jid_device j) < 256 \<and> jid_user j \<noteq> [] \<and>
     list_all (\<lambda>c. c \<noteq> 64 \<and> c \<noteq> 58 \<and> c \<noteq> 95 \<and> c \<noteq> 46) (jid_user j) \<and>
     length (value_as_str (VJid j)) \<le> 48 \<and> index_of_token T (value_as_str (VJid j)) = None"

lemma parse_jid_meta_at:
  assumes "64 \<notin> set ud" "length ud < 255" "split_user_device ud = (u, d)" "find_user_end (Some srv) u = length u"
  shows "parse_jid_meta (ud @ 64 # as_str srv) = Some \<lparr>user_end = of_nat (length u), server_start = of_nat (length ud + 1),
     meta_device = (if server_supports_ad_jid srv then d else None), meta_server = Some srv\<rparr>"
proof -
  have "length u \<le> length ud" using assms(3) by (auto simp: split_user_device_def split: option.splits)
  then show ?thesis using assms by (simp add: parse_jid_meta_def Let_def)
qed

lemma simple_jid_hint:
  assumes "simple_jid T j"
  shows "hint_of T (display j) = HJid \<lparr>user_end = of_nat (length (jid_user j)),
     server_start = of_nat (length (display j) - length (as_str (jid_server j))),
     meta_device = (if 0 < jid_device j \<and> server_supports_ad_jid (jid_server j) then Some (ucast (jid_device j)) else None),
     meta_server = Some (jid_server j)\<rparr>"
proof -
  let ?u = "jid_user j" and ?srv = "jid_server j" and ?d = "jid_device j"
  let ?ud = "?u @ (if 0 < ?d then 58 # dec (unat ?d) else [])"
  note j = assms [unfolded simple_jid_def value_as_str_def node_value.case jid_to_string_text unwrap_or_def option.case]
  from j have "list_all (\<lambda>c. c \<noteq> 64 \<and> c \<noteq> 58 \<and> c \<noteq> 95 \<and> c \<noteq> 46) ?u" by blast
  then have u: "64 \<notin> set ?u" "58 \<notin> set ?u" "95 \<notin> set ?u" "46 \<notin> set ?u" unfolding list_all_iff by blast+
  from j have v: "?u \<noteq> []" "jid_agent j = 0" "unat ?d < 256" and len: "length (display j) \<le> 48"
    and tok: "index_of_token T (display j) = None" by blast+
  have t: "display j = ?ud @ 64 # as_str ?srv" using v by (simp add: jid_text_def)
  have sd: "split_user_device ?ud = (?u, if 0 < ?d then Some (ucast ?d) else None)"
    using u(2) v(3) by (auto simp: split_user_device_def)
  have fe: "find_user_end k ?u = length ?u" for k using u by (simp add: find_user_end_def Let_def)
  have "64 \<notin> set ?ud" using u(1) by simp
  moreover have "length ?ud < 255" using len unfolding t by simp
  ultimately have "parse_jid_meta (display j) = Some \<lparr>user_end = of_nat (length ?u), server_start = of_nat (length ?ud + 1),
     meta_device = (if server_supports_ad_jid ?srv then if 0 < ?d then Some (ucast ?d) else None else None), meta_server = Some ?srv\<rparr>"
    unfolding t by (rule parse_jid_meta_at [OF _ _ sd fe])
  then have "parse_jid_meta (display j) = Some \<lparr>user_end = of_nat (length ?u),
     server_start = of_nat (length (display j) - length (as_str ?srv)),
     meta_device = (if 0 < ?d \<and> server_supports_ad_jid ?srv then Some (ucast ?d) else None), meta_server = Some ?srv\<rparr>"
    unfolding t by simp
  moreover have "\<not> validate_nibble (display j)" "\<not> validate_hex (display j)" "display j \<noteq> []"
    unfolding t validate_nibble_def validate_hex_def by (simp_all add: is_digit_def)
  ultimately show ?thesis using len tok by (simp add: hint_of_def classify_string_hint_def Let_def)
qed

lemma simple_jid_enc:
  assumes "simple_jid T j"
  shows "enc_jid T j = Ok (enc_str T (display j))"
proof -
  let ?u = "jid_user j"
  have u: "?u \<noteq> []" "jid_integrator j = 0" "unat (jid_device j) < 256" "jid_agent j = 0" and len: "length (display j) \<le> 48"
    using assms by (auto simp: simple_jid_def value_as_str_def unwrap_or_def)
  have "length ?u \<le> length (display j)" using u by (simp add: jid_text_def)
  then have l: "unat (of_nat (length ?u) :: u8) = length ?u" using len by (simp add: unat_u8_of_nat)
  have "take (length ?u) (display j) = ?u" using u by (simp add: jid_text_def)
  then show ?thesis
    unfolding enc_str.simps [of T "display j"] simple_jid_hint [OF assms]
    using u by (simp add: enc_jid_def needs_interop_jid_def meta_user_def meta_serv_def domain_type_def l del: take_append)
qed

section \<open>Addresses of unknown servers\<close>

text \<open>\<open>u@v\<close> with one \<open>@\<close> and a server that is not known, short enough to be taken for a JID and not a
  dictionary word.\<close>

definition foreign :: "token_tables \<Rightarrow> str \<Rightarrow> str \<Rightarrow> bool" where
  "foreign T u v \<longleftrightarrow> 64 \<notin> set u \<and> 64 \<notin> set v \<and> length (u @ 64 # v) \<le> 48 \<and> parse_known v = None \<and>
     index_of_token T (u @ 64 # v) = None"

lemma foreign_hint:
  assumes "foreign T u v"
  obtains m where "hint_of T (u @ 64 # v) = HJid m" "meta_server m = None" "meta_device m = None" "meta_serv (u @ 64 # v) m = v"
    "58 \<notin> set u \<Longrightarrow> 95 \<notin> set u \<Longrightarrow> meta_user (u @ 64 # v) m = u"
proof -
  let ?s = "u @ 64 # v"
  obtain ua d where ud: "split_user_device u = (ua, d)" by (rule prod.exhaust)
  have f: "64 \<notin> set u" "length u + length v \<le> 47" "parse_known v = None" "index_of_token T ?s = None"
    using assms by (simp_all add: foreign_def)
  have "length ua \<le> length u" using split_user_device_prefix [of u] ud by auto
  then have e: "find_user_end None ua < 256" using find_user_end_le [of None ua] f(2) by simp
  let ?m = "\<lparr>user_end = of_nat (find_user_end None ua), server_start = of_nat (length u + 1), meta_device = None, meta_server = None\<rparr>"
  have m: "parse_jid_meta ?s = Some ?m"
    using f ud e by (simp add: parse_jid_meta_def Let_def)
  moreover have "\<not> validate_nibble ?s" "\<not> validate_hex ?s" by (simp_all add: validate_nibble_def validate_hex_def is_digit_def)
  ultimately have h: "hint_of T ?s = HJid ?m" using f by (simp add: hint_of_def classify_string_hint_def Let_def)
  have "unat (of_nat (length u + 1) :: u8) = length u + 1" using f(2) unat_u8_of_nat [of "length u + 1"] by simp
  then have "meta_serv ?s ?m = v" by (simp add: meta_serv_def)
  moreover have "meta_user ?s ?m = u" if "58 \<notin> set u" "95 \<notin> set u"
  proof -
    have "ua = u" using ud that(1) by (simp add: split_user_device_def)
    then have "find_user_end None ua = length u" using that(2) by (simp add: find_user_end_def)
    then show ?thesis using f(2) by (simp add: meta_user_def unat_u8_of_nat)
  qed
  ultimately show thesis using that [of ?m] h by simp
qed

definition rejects :: "'a reader \<Rightarrow> u8 list \<Rightarrow> binary_error \<Rightarrow> bool" where
  "rejects r bs e \<longleftrightarrow> (\<forall>pre ys. r (at pre (bs @ ys)) = Err e)"

lemma rejects_rbind: "rejects m bs e \<Longrightarrow> rejects (rbind m f) bs e"
  by (simp add: rejects_def rbind_def)

lemma reads_rejects: "reads m as x \<Longrightarrow> rejects (f x) bs e \<Longrightarrow> rejects (rbind m f) (as @ bs) e"
  by (simp add: reads_def rejects_def rbind_def)

lemma rejects_rrep:
  "reads (rrep m r) as xs \<Longrightarrow> rejects r bs e \<Longrightarrow> rejects (rrep (m + Suc k) r) (as @ bs) e"
proof -
  have "rrep (m + k) r = rbind (rrep m r) (\<lambda>xs. rbind (rrep k r) (\<lambda>ys. rpure (xs @ ys)))" for k
    by (induction m) (simp_all add: rbind_assoc rbind_rpure_right)
  moreover assume "reads (rrep m r) as xs" "rejects r bs e"
  ultimately show ?thesis by (simp only: rrep.simps(2)) (intro reads_rejects rejects_rbind)
qed

lemma rejects_foreign_value:
  assumes "utf8_exact E" "tables_ok (toks E)" "2 \<le> str_frames E" "utf8_valid (u @ 64 # v)" "foreign (toks E) u v"
  shows "rejects (read_value E) (enc_str (toks E) (u @ 64 # v)) (AttrParse (lit ''JID_PAIR unknown server: '' @ v))"
proof -
  let ?s = "u @ 64 # v" and ?T = "toks E"
  obtain n where n: "str_frames E = Suc (Suc n)" using assms(3) by (metis add_2_eq_Suc le_Suc_ex)
  obtain m where m: "hint_of ?T ?s = HJid m" "meta_server m = None" "meta_device m = None" "meta_serv ?s m = v"
    by (rule foreign_hint [OF assms(5)]) (rule that)
  have f: "64 \<notin> set v" "length v < 2 ^ 32" "parse_known v = None" "utf8_valid v"
    using assms(4,5) by (simp_all add: foreign_def utf8_valid_cut)
  have "length (meta_user ?s m) \<le> length ?s" by (simp only: meta_user_def length_take min.cobounded1)
  then have "length (meta_user ?s m) < 2 ^ 32" using hint_of_HJid [OF m(1)] by simp
  then have "reads (read_value_as_string E) (enc_str ?T (meta_user ?s m)) (Some (meta_user ?s m))"
    unfolding read_value_as_string_def n using hint_of_HJid [OF m(1)] assms(4)
    by (intro reads_plain_str [OF assms(1,2)] meta_user_valid no_at_plain meta_user_count [OF m(1)]) auto
  moreover have "reads (read_value_as_string E) [LIST_EMPTY] None"
    unfolding read_value_as_string_def n by (rule reads_empty)
  ultimately obtain x where u: "reads (read_value_as_string E) (if meta_user ?s m = [] then [LIST_EMPTY] else enc_str ?T (meta_user ?s m)) x"
    by (cases "meta_user ?s m = []") auto
  have v: "reads (read_value_as_string E) (enc_str ?T v) (Some v)"
    unfolding read_value_as_string_def n using f by (intro reads_plain_str [OF assms(1,2)] no_at_plain)
  have "rejects (read_jid_pair (read_value_as_string E))
     ((if meta_user ?s m = [] then [LIST_EMPTY] else enc_str ?T (meta_user ?s m)) @ enc_str ?T v @ [])
     (AttrParse (lit ''JID_PAIR unknown server: '' @ v))"
    unfolding read_jid_pair_def
    by (intro reads_rejects [OF u] reads_rejects [OF v])
      (simp add: rejects_def rfail_def or_default_def unwrap_or_def server_try_from_unknown [OF f(3)])
  then show ?thesis
    unfolding enc_str.simps [of ?T ?s] m string_hint.case option.case read_value_def
    by (intro reads_rejects [OF reads_u8, of _ JID_PAIR, simplified]) (simp add: rmap_def rejects_rbind)
qed

lemma attr_encs_split: "attr_encs T (as @ bs) = attr_encs T as @ attr_encs T bs"
  by (simp add: attr_encs_def)

lemma enc_all_append: "enc_all (xs @ ys) = Ok bs \<Longrightarrow> \<exists>as cs. enc_all xs = Ok as \<and> enc_all ys = Ok cs \<and> bs = as @ cs"
proof (induction xs arbitrary: bs)
  case (Cons x xs)
  then obtain b bs' where b: "x = Ok b" "enc_all (xs @ ys) = Ok bs'" "bs = b @ bs'" by (auto simp: length_join)
  from Cons.IH [OF b(2)] obtain as cs where "enc_all xs = Ok as" "enc_all ys = Ok cs" "bs' = as @ cs" by blast
  then show ?case using b by (intro exI [of _ "b @ as"] exI [of _ cs]) simp
qed simp

lemma raw_length: "hint_of T s = HRaw \<Longrightarrow> length (enc_str T s) = shallow_string_estimate (length s)"
  by (simp add: enc_str.simps [of T s] length_enc_bytes bytes_length)

text \<open>A foreign address whose halves are written as they are takes two bytes more than estimated.\<close>

definition raw_foreign :: "token_tables \<Rightarrow> str \<Rightarrow> str \<Rightarrow> bool" where
  "raw_foreign T u v \<longleftrightarrow> foreign T u v \<and> 58 \<notin> set u \<and> 95 \<notin> set u \<and> hint_of T u = HRaw \<and> hint_of T v = HRaw"

lemma raw_foreign_length:
  assumes "raw_foreign T u v"
  shows "length (enc_str T (u @ 64 # v)) = shallow_string_estimate (length (u @ 64 # v)) + 2"
proof -
  have f: "foreign T u v" "58 \<notin> set u" "95 \<notin> set u" "hint_of T u = HRaw" "hint_of T v = HRaw" using assms by (simp_all add: raw_foreign_def)
  obtain m where m: "hint_of T (u @ 64 # v) = HJid m" "meta_device m = None" "meta_serv (u @ 64 # v) m = v"
    "58 \<notin> set u \<Longrightarrow> 95 \<notin> set u \<Longrightarrow> meta_user (u @ 64 # v) m = u" by (rule foreign_hint [OF f(1)]) (rule that)
  have "u \<noteq> []" using f(4) by (auto simp: hint_of_def classify_string_hint_def)
  moreover have "length u + length v \<le> 47" using f(1) by (simp add: foreign_def)
  ultimately show ?thesis using f m
    by (simp add: enc_str.simps [of T "u @ 64 # v"] raw_length shallow_string_estimate_def)
qed

section \<open>Main results\<close>


text \<open>C4. The two-pass strategy: planning always succeeds, the planned size is the exact size of the
  payload, and the encoder replays the hint tape to its last entry, so \<open>PlanMismatch\<close> is never
  returned: \<open>marshal_exact\<close> returns what \<open>marshal\<close> returns (or fails to reserve more than
  \<open>isize::MAX\<close> bytes).\<close>

theorem marshal_exact_agrees:
  "\<exists>plan. build_marshaled_node_plan T n = Ok plan \<and> build_marshaled_node_ref_plan T n = Ok plan \<and>
     marshal_exact T n = (if plan_size plan < 2 ^ 63 then marshal T n else Panic) \<and>
     marshal_ref_exact T n = marshal_exact T n \<and>
     (case marshal T n of Ok bs \<Rightarrow> length bs = plan_size plan | _ \<Rightarrow> True)"
  using enc_node_length [of T n]
  by (cases "enc_node T n") (simp_all add: plan_is ref_plan marshal_exact_is marshal_ref_twins marshal_is)

text \<open>C15. Marshalling never panics. It fails exactly for the trees the format has no room for, a list
  of more than 65535 entries or a device number over 255 in an \<open>AD_JID\<close>, and what it
  returns is accepted as an uncompressed payload.\<close>

theorem marshal_total:
  "case marshal T n of Ok bs \<Rightarrow> encodable n \<and> check_plain_payload bs = Ok () | Err e \<Rightarrow> \<not> encodable n | Panic \<Rightarrow> False"
  using settles_node(1) [of n T] enc_node_nonempty [of T n]
  by (cases "enc_node T n") (auto simp: settles_def marshal_is check_plain_payload_def)

text \<open>Bounds in binary, for evaluation.\<close>

lemma wire_str_code [code]:
  "wire_str T s \<longleftrightarrow> utf8_valid s \<and> int (length s) < 4294967296 \<and>
     (case hint_of T s of HJid m \<Rightarrow> meta_server m \<noteq> None | _ \<Rightarrow> True)"
  by (auto simp: wire_str_def)

text \<open>C1. Round trip. Let a tree be encodable (lists of at most 65535 entries, devices of \<open>AD_JID\<close>s below 256), at most 128
  levels deep, and readable (\<open>wire_node\<close>): its strings are valid UTF-8, strings and bytes are under 4 GiB, no string is
  taken for a JID of an unknown server, and no JID of the interop server has an integrator. Then its
  payload unmarshals to its \<open>reread_node\<close>: whatever was packed, tokenized, or split into a user and a server is put together
  again. \<open>reread_node\<close> is the tree itself, except that strings taken for JIDs are rewritten in canonical form (as
  attribute values they become JIDs), JIDs lose the agent and the integrator, and the device where the server has no
  \<open>AD_JID\<close> form, a text that is written as it is comes back as bytes, and an empty list of children as no content.\<close>

theorem marshal_unmarshal:
  assumes "utf8_exact E" "tables_ok (toks E)" "2 \<le> str_frames E"
    and "wire_node (toks E) n" "node_depth n \<le> MAX_NODE_DEPTH" "encodable n"
  shows "obind (marshal (toks E) n) (unmarshal_packed_ref E) = Ok (reread_node (toks E) n)"
proof -
  obtain bs where bs: "enc_node (toks E) n = Ok bs"
    using settles_node(1) [of n "toks E"] assms(6) by (auto simp: settles_def split: outcome.splits)
  from unmarshal_node [OF assms(1-5) this] enc_node_nonempty [OF this] show ?thesis
    by (simp add: marshal_is bs unmarshal_packed_ref_def check_plain_payload_def)
qed

definition mixed_node :: node where
  "mixed_node = Node (lit ''iq'')
     [(lit ''to'', VString (lit ''1555:7@s.whatsapp.net'')),
      (lit ''from'', VJid ((jid_new (lit ''42'') Lid)\<lparr>jid_device := 9\<rparr>))]
     (Some (Nodes [Node (lit ''abcde'') [(lit ''id'', VString (lit ''3EB0''))] (Some (CString (lit ''12-34'')))]))"

theorem marshal_unmarshal_witness:
  "obind (marshal sample_tables mixed_node) (unmarshal_packed_ref sample_env) =
     Ok (Node (lit ''iq'')
     [(lit ''to'', VJid ((jid_new (lit ''1555'') Pn)\<lparr>jid_device := 7\<rparr>)),
      (lit ''from'', VJid ((jid_new (lit ''42'') Lid)\<lparr>jid_device := 9\<rparr>))]
     (Some (Nodes [Node (lit ''abcde'') [(lit ''id'', VString (lit ''3EB0''))] (Some (CString (lit ''12-34'')))])))"
proof -
  have e: "toks sample_env = sample_tables" "str_frames sample_env = 32" by (simp_all add: sample_env_def)
  have "wire_node sample_tables mixed_node" by code_simp
  moreover have "node_depth mixed_node \<le> 128" "encodable mixed_node"
    by (simp_all add: mixed_node_def node_list_len_def encodable_jid_def jid_new_def)
  moreover have "reread_node sample_tables mixed_node = Node (lit ''iq'')
     [(lit ''to'', VJid ((jid_new (lit ''1555'') Pn)\<lparr>jid_device := 7\<rparr>)),
      (lit ''from'', VJid ((jid_new (lit ''42'') Lid)\<lparr>jid_device := 9\<rparr>))]
     (Some (Nodes [Node (lit ''abcde'') [(lit ''id'', VString (lit ''3EB0''))] (Some (CString (lit ''12-34'')))]))" by code_simp
  ultimately show ?thesis using marshal_unmarshal [OF sample_env_exact, of mixed_node] sample_tables_ok by (simp add: e)
qed

text \<open>C21. Round trip without loss. Let a readable tree (\<open>wire_node\<close>, as above) of at most 128 levels be in canonical form: no
  string of it is taken for a JID, its JIDs have no agent and no integrator, and a device only where the server has
  an \<open>AD_JID\<close> form, no text content would come back as bytes, no list of children is empty. If it marshals, the
  payload unmarshals to the same tree.\<close>

theorem marshal_lossless:
  assumes "utf8_exact E" "tables_ok (toks E)" "2 \<le> str_frames E"
    and "wire_node (toks E) n" "node_depth n \<le> MAX_NODE_DEPTH" "marshal (toks E) n = Ok bs" "settled (toks E) n"
  shows "unmarshal_packed_ref E bs = Ok n"
proof -
  obtain xs where xs: "enc_node (toks E) n = Ok xs" "bs = FORMAT_PLAIN # xs" using assms(6) by (auto simp: marshal_is omap_eq_Ok)
  from unmarshal_node [OF assms(1-5) this(1)] enc_node_nonempty [OF this(1)] settled_reread(1) [OF assms(7)] show ?thesis
    by (simp add: xs(2) unmarshal_packed_ref_def check_plain_payload_def)
qed

theorem marshal_lossless_witness:
  "marshal sample_tables sample_node = Ok (0 # sample_frame) \<and> unmarshal_packed_ref sample_env (0 # sample_frame) = Ok sample_node"
proof -
  have e: "toks sample_env = sample_tables" "str_frames sample_env = 32" by (simp_all add: sample_env_def)
  have m: "marshal sample_tables sample_node = Ok (0 # sample_frame)" unfolding marshal_is by code_simp
  have "wire_node sample_tables sample_node" "settled sample_tables sample_node" by code_simp+
  moreover have "node_depth sample_node \<le> 128" by (simp add: sample_node_def)
  ultimately show ?thesis using marshal_lossless [OF sample_env_exact, of sample_node] m sample_tables_ok by (simp add: e)
qed

text \<open>C24. Nothing may follow a node: bytes behind a tree that unmarshals are reported, with their
  number, as leftover data.\<close>

theorem unmarshal_leftover:
  assumes "unmarshal_ref E data = Ok n" "extra \<noteq> []"
  shows "unmarshal_ref E (data @ extra) = Err (LeftoverData (length extra))"
proof -
  from assms(1) obtain d where d: "read_node_ref_at E 0 (at [] data) = Ok (n, d)" "is_finished d"
    by (auto simp: unmarshal_ref_def read_node_ref_def decoder_new_at obind_eq_Ok split: if_splits)
  from good_OkE' [OF good_read_node_ref_at d(1)] obtain us vs where "data = us @ vs" "d = at ([] @ us) vs" by metis
  with d(2) have "d = at data []" by simp
  with d(1) have "read_node_ref_at E 0 (at [] (data @ extra)) = Ok (n, at data extra)"
    using tree_reader.stable [of E 0 "[]" data extra] by (simp add: grow_def at_def)
  with assms(2) show ?thesis by (simp add: unmarshal_ref_def read_node_ref_def decoder_new_at)
qed

theorem unmarshal_leftover_witness:
  "unmarshal_ref sample_env (sample_frame @ [7, 7]) = Err (LeftoverData 2)"
proof -
  have "unmarshal_ref sample_env sample_frame = Ok sample_node"
    by (simp add: unmarshal_ref_def sample_decoded is_finished_def)
  from unmarshal_leftover [OF this, of "[7, 7]"] show ?thesis by simp
qed

text \<open>C5. Marshalling to a writer implements \<open>marshal\<close>: for any writer that appends what it is given
  or fails, a successful call has appended exactly the payload, and a failed call failed for the
  reason \<open>marshal\<close> fails or because the writer did.\<close>

theorem marshal_to_refines:
  assumes appends: "\<And>w bs w'. write_all w bs = Ok w' \<Longrightarrow> contents w' = contents w @ bs"
    and returns: "\<And>w bs. write_all w bs \<noteq> Panic"
  shows "case marshal_to write_all T n w of
      Ok w' \<Rightarrow> (\<exists>payload. marshal T n = Ok payload \<and> contents w' = contents w @ payload)
    | Err e \<Rightarrow> marshal T n = Err e \<or> (\<exists>w bs msg. write_all w bs = Err msg \<and> e = Io msg)
    | Panic \<Rightarrow> False"
proof -
  have bw: "byte_writer (io_write write_all) contents"
    using assms by unfold_locales (auto simp: io_write_def split: outcome.splits)
  note emits = byte_writer.emits_node(1) [OF bw byte_writer.emits_jid [OF bw], of T n, folded write_node_owned_def,
      unfolded emits_def, rule_format]
  have io: "\<exists>w bs msg. write_all w bs = Err msg \<and> e = Io msg" if "io_write write_all w bs = Err e" for w bs e
    using that by (auto simp: io_write_def split: outcome.splits)
  show ?thesis
  proof (cases "io_write write_all w [0]")
    case (Ok w1)
    let ?e = "\<lparr>enc_writer = w1, enc_hints = None\<rparr>"
    have c: "contents w1 = contents w @ [0]" using byte_writer.appends [OF bw Ok] .
    have m: "marshal_to write_all T n w = omap enc_writer (write_node_owned (io_write write_all) T n ?e)"
      by (simp add: marshal_to_def encoder_new_def write_u8_def write_raw_bytes_def Ok)
    have "expects ?e (node_hints T n)" by (simp add: expects_def)
    from emits [OF this] show ?thesis
      by (cases "write_node_owned (io_write write_all) T n ?e") (auto simp: m marshal_is c dest: io)
  next
    case (Err e)
    with io [OF Err] show ?thesis by (simp add: marshal_to_def encoder_new_def write_u8_def write_raw_bytes_def)
  next
    case Panic
    then show ?thesis using byte_writer.no_panic [OF bw] by simp
  qed
qed

theorem marshal_to_refines_witness:
  "marshal_to slice_write_all sample_tables sample_node ([], 20) = Ok (0 # sample_frame, 4)"
proof -
  have c: "case marshal_to slice_write_all sample_tables sample_node ([], 20) of
      Ok w' \<Rightarrow> (\<exists>payload. marshal sample_tables sample_node = Ok payload \<and> fst w' = fst ([], 20 :: nat) @ payload)
    | Err e \<Rightarrow> marshal sample_tables sample_node = Err e \<or> (\<exists>w bs msg. slice_write_all w bs = Err msg \<and> e = Io msg)
    | Panic \<Rightarrow> False"
    by (rule marshal_to_refines) (auto simp: slice_write_all_def split: if_splits)
  have "map_option snd (case marshal_to slice_write_all sample_tables sample_node ([], 20) of Ok w \<Rightarrow> Some w | _ \<Rightarrow> None) = Some 4"
    by code_simp
  moreover have "marshal sample_tables sample_node = Ok (0 # sample_frame)" unfolding marshal_is by code_simp
  ultimately show ?thesis using c by (auto split: outcome.splits)
qed

text \<open>C25. The shallow reservation is large enough, up to its ceiling of 4 MiB, for every tree that marshals, has at most 126
  attributes and 32 children per node, spells no JID as a string, and whose typed JIDs have no agent and no
  integrator, a device only where the server has an \<open>AD_JID\<close> form, and a server name of at most six encoded bytes.\<close>

theorem shallow_reserve_suffices:
  assumes "roomy T n" "marshal T n = Ok bs"
  shows "min (length bs) SHALLOW_MAX_CAPACITY \<le> shallow_capacity_node n"
proof -
  have "length bs = 1 + node_bytes T n" using assms(2) enc_node_length [of T n] by (auto simp: marshal_is omap_eq_Ok)
  with shallow_node [OF assms(1), of 0] show ?thesis by (auto simp: shallow_capacity_node_def)
qed

theorem shallow_reserve_suffices_witness: "length (0 # sample_frame) \<le> shallow_capacity_node sample_node"
proof -
  have "marshal sample_tables sample_node = Ok (0 # sample_frame)" unfolding marshal_is by code_simp
  moreover have "settled_str sample_tables (lit ''iq'')" "settled_str sample_tables (lit ''abcde'')"
    "settled_str sample_tables (lit ''v'')" "settled_str sample_tables (lit ''x'')" by code_simp+
  then have "roomy sample_tables sample_node" by (simp add: sample_node_def)
  ultimately show ?thesis using shallow_reserve_suffices [of sample_tables sample_node "0 # sample_frame"]
    by (simp add: sample_frame_def)
qed



text \<open>C23. Passing an address as a string or as a typed JID gives the same payload, for every JID without agent and integrator
  whose device is below 256, whose user is not empty and has none of \<open>@ : _ .\<close> in it, and whose text has at most 48
  bytes and is not itself a dictionary word; among any other attributes and with any content.\<close>

theorem jid_attr_paths_agree:
  assumes "simple_jid T j"
  shows "marshal T (Node t (as @ (k, VString (value_as_str (VJid j))) # bs) c) = marshal T (Node t (as @ (k, VJid j) # bs) c)"
  using simple_jid_enc [OF assms]
  by (simp add: marshal_is attr_encs_def value_as_str_def unwrap_or_def node_list_len_def)

theorem jid_attr_paths_agree_witness:
  "marshal sample_tables (Node (lit ''iq'') [(lit ''to'', VString (lit ''1555:7@s.whatsapp.net''))] None) =
   marshal sample_tables (Node (lit ''iq'') [(lit ''to'', VJid ((jid_new (lit ''1555'') Pn)\<lparr>jid_device := 7\<rparr>))] None)"
proof -
  let ?j = "(jid_new (lit ''1555'') Pn)\<lparr>jid_device := 7\<rparr>"
  have v: "value_as_str (VJid ?j) = lit ''1555:7@s.whatsapp.net''"
    by code_simp
  have "index_of_token sample_tables (lit ''1555:7@s.whatsapp.net'') = None" by code_simp
  moreover have "list_all (\<lambda>c. c \<noteq> 64 \<and> c \<noteq> 58 \<and> c \<noteq> 95 \<and> c \<noteq> 46) (jid_user ?j)" by code_simp
  moreover have "length (lit ''1555:7@s.whatsapp.net'') \<le> 48" by (simp add: lit_def)
  moreover have "jid_user ?j \<noteq> []" "jid_agent ?j = 0" "jid_integrator ?j = 0" "unat (jid_device ?j) < 256"
    by (simp_all add: jid_new_def lit_def)
  ultimately have "simple_jid sample_tables ?j" unfolding simple_jid_def v by blast
  from jid_attr_paths_agree [OF this, of "lit ''iq''" "[]" "lit ''to''" "[]" None] show ?thesis unfolding v append_Nil .
qed

text \<open>C40. A valid UTF-8 string \<open>u@v\<close> of at most 48 bytes, with one \<open>@\<close>, that is not a dictionary word and whose server \<open>v\<close> is
  unknown, is written as a JID pair, which the decoder of the same crate refuses. So a node with
  such an attribute value marshals, whatever the attributes and the content behind it, and its payload does not
  unmarshal: if what stands in front of the value can be read back, the error names \<open>v\<close>.\<close>

theorem unknown_server_rejected:
  assumes "utf8_exact E" "tables_ok (toks E)" "2 \<le> str_frames E"
    and "wire_str (toks E) t" "list_all (\<lambda>(k, x). wire_str (toks E) k \<and> wire_value (toks E) x) as" "wire_str (toks E) k"
    and "utf8_valid (u @ 64 # v)" "foreign (toks E) u v" "encodable (Node t (as @ (k, VString (u @ 64 # v)) # later) c)"
  shows "obind (marshal (toks E) (Node t (as @ (k, VString (u @ 64 # v)) # later) c)) (unmarshal_packed_ref E) =
    Err (AttrParse (lit ''JID_PAIR unknown server: '' @ v))"
proof -
  let ?T = "toks E" and ?s = "u @ 64 # v" and ?e = "AttrParse (lit ''JID_PAIR unknown server: '' @ v)"
  let ?n = "Node t (as @ (k, VString ?s) # later) c" and ?m = "node_list_len (as @ (k, VString ?s) # later) c"
  obtain bs where bs: "enc_node ?T ?n = Ok bs"
    using settles_node(1) [of ?n ?T] assms(9) by (auto simp: settles_def split: outcome.splits)
  then obtain lb ab cb where e: "enc_list ?m = Ok lb" "enc_all (attr_encs ?T (as @ (k, VString ?s) # later)) = Ok ab"
    "bs = lb @ enc_str ?T t @ ab @ cb" by (auto simp: length_join)
  from e(2) [unfolded attr_encs_split] obtain ab1 ab2 where a: "enc_all (attr_encs ?T as) = Ok ab1" "ab = ab1 @ ab2"
    "enc_all (attr_encs ?T ((k, VString ?s) # later)) = Ok ab2" by (metis enc_all_append)
  from a(3) obtain ab3 where a3: "ab2 = enc_str ?T k @ enc_str ?T ?s @ ab3" by (auto simp: attr_encs_def length_join)
  obtain n where n: "str_frames E = Suc (Suc n)" using assms(3) by (metis add_2_eq_Suc le_Suc_ex)
  have tx: "reads (read_value_as_string E) (enc_str ?T s) (Some (reread_text ?T s))" if "wire_str ?T s" for s
    unfolding read_value_as_string_def n by (rule reads_text [OF assms(1,2) that])
  have "rejects (read_attribute E) (enc_str ?T k @ enc_str ?T ?s) ?e"
    unfolding read_attribute_def
    by (rule reads_rejects [OF tx [OF assms(6)]]) (simp add: rejects_rbind rejects_foreign_value [OF assms(1-3,7,8)])
  moreover have "reads (rrep (length as) (read_attribute E)) ab1 (map (reread_attr ?T) as)"
    using reads_attributes [OF assms(1-3,5) a(1)] by (cases as) (simp_all add: read_attributes_def)
  ultimately have "rejects (rrep (length as + Suc (length later)) (read_attribute E)) (ab1 @ enc_str ?T k @ enc_str ?T ?s) ?e"
    by (intro rejects_rrep)
  moreover have "(?m - 1) div 2 = length as + Suc (length later)" "?m \<noteq> 0"
    by (simp_all add: node_list_len_def split: option.split)
  ultimately have attrs: "rejects (read_attributes E ((?m - 1) div 2)) (ab1 @ enc_str ?T k @ enc_str ?T ?s) ?e"
    by (simp only: read_attributes_def) simp
  obtain l ls where l: "lb = l # ls" "reads (read_list_size l) ls ?m" using reads_list [OF e(1)] by metis
  have "rejects (read_node_open E) ([l] @ ls @ enc_str ?T t @ ab1 @ enc_str ?T k @ enc_str ?T ?s) ?e"
    unfolding read_node_open_def
    by (rule reads_rejects [OF reads_u8], rule reads_rejects [OF l(2)])
      (simp only: if_not_P [OF \<open>?m \<noteq> 0\<close>], rule reads_rejects [OF tx [OF assms(4)]], simp only: option.case, rule rejects_rbind, rule attrs)
  then have "rejects (read_node_ref_at E 0) ([l] @ ls @ enc_str ?T t @ ab1 @ enc_str ?T k @ enc_str ?T ?s) ?e"
    unfolding read_node_ref_at.simps [of E 0] by (simp add: rejects_rbind)
  from this [unfolded rejects_def, rule_format, of "[]" "ab3 @ cb"] have "unmarshal_ref E bs = Err ?e"
    unfolding unmarshal_ref_def read_node_ref_def decoder_new_at e(3) a(2) a3 l(1) by simp
  with bs enc_node_nonempty [OF bs] show ?thesis by (simp add: marshal_is unmarshal_packed_ref_def check_plain_payload_def del: enc_node.simps)
qed


theorem unknown_server_rejected_witness:
  "obind (marshal sample_tables (Node (lit ''iq'') [(lit ''x'', VString (lit ''y'')), (lit ''to'', VString (lit ''a:3@b.c'')), (lit ''z'', VString [])] None))
     (unmarshal_packed_ref sample_env) = Err (AttrParse (lit ''JID_PAIR unknown server: b.c''))"
proof -
  have e: "toks sample_env = sample_tables" "str_frames sample_env = 32" by (simp_all add: sample_env_def)
  have "parse_known (lit ''b.c'') = None" "index_of_token sample_tables (lit ''a:3'' @ 64 # lit ''b.c'') = None" by code_simp+
  then have "foreign sample_tables (lit ''a:3'') (lit ''b.c'')" by (simp add: foreign_def lit_def)
  moreover have "utf8_valid (lit ''a:3'' @ 64 # lit ''b.c'')" "wire_str sample_tables (lit ''iq'')" "wire_str sample_tables (lit ''x'')"
    "wire_str sample_tables (lit ''y'')" "wire_str sample_tables (lit ''to'')" by code_simp+
  ultimately show ?thesis
    using unknown_server_rejected [OF sample_env_exact, of "lit ''iq''" "[(lit ''x'', VString (lit ''y''))]" "lit ''to''" "lit ''a:3''" "lit ''b.c''" "[(lit ''z'', VString [])]" None]
      sample_tables_ok by (simp add: e wire_value_def node_list_len_def) (simp add: lit_def)
qed

end
