(* ===== verification/Zlib_Pool.thy ===== *)
theory Zlib_Pool
  imports Marshal
begin

text \<open>
  Inflating: \<open>zlib_pool.rs\<close>, the pool of inflate states of a thread, the streaming reader
  \<open>InflateReader\<close> and the one-shot \<open>decompress_zlib_pooled\<close>.

  The inflate engine is the crate \<open>zlib_rs\<close>. It is a parameter: the record \<open>zlib\<close> has the
  operations the code calls, over a type of states. What is relied on is stated as two contracts,
  \<open>zlib_sane\<close> (the counters and the progress of one call, for any input) and \<open>inflates\<close> (the calls
  on one well-formed stream produce its bytes in order); \<open>stored_zlib\<close> is an engine that meets them.

  A byte vector is its contents and its capacity. The loops take fuel: one unit per byte that can
  still be consumed or produced, and running out is a \<open>Panic\<close> that is shown not to happen.
\<close>

section \<open>The inflate engine\<close>

datatype flush = NoFlush | Finish

datatype zstatus = ZOk | ZBufError | ZStreamEnd

text \<open>\<open>decompress_uninit\<close> gets the input and the room for the output; it returns an error text or a
  status, the bytes it has written, and the state after the call.\<close>

record 's zlib =
  z_new :: 's
  z_reset :: "'s \<Rightarrow> 's"
  z_decompress :: "'s \<Rightarrow> u8 list \<Rightarrow> nat \<Rightarrow> flush \<Rightarrow> (str + zstatus) \<times> u8 list \<times> 's"
  z_total_in :: "'s \<Rightarrow> nat"
  z_total_out :: "'s \<Rightarrow> nat"

section \<open>The pool\<close>

record 's pool =
  parked :: "'s list"
  retention :: nat

definition pool_default :: "'s pool" where
  "pool_default = \<lparr>parked = [], retention = 1\<rparr>"

definition set_pool_retention :: "nat \<Rightarrow> 's pool \<Rightarrow> 's pool" where
  "set_pool_retention states_per_thread p = p\<lparr>retention := states_per_thread\<rparr>"

definition park :: "'s \<Rightarrow> 's pool \<Rightarrow> 's pool" where
  "park decomp p = (if length (parked p) < retention p then p\<lparr>parked := parked p @ [decomp]\<rparr> else p)"

definition warm_pool :: "'s zlib \<Rightarrow> 's pool \<Rightarrow> 's pool" where
  "warm_pool Z p =
     (if retention p = 0 then p
      else if parked p = [] then park (z_new Z) p
      else p)"

definition drain_pool :: "'s pool \<Rightarrow> 's pool" where
  "drain_pool p = p\<lparr>parked := []\<rparr>"

definition parked_states :: "'s pool \<Rightarrow> nat" where
  "parked_states p = length (parked p)"

definition checkout :: "'s zlib \<Rightarrow> 's pool \<Rightarrow> 's \<times> 's pool" where
  "checkout Z p =
     (if parked p = [] then (z_new Z, p)
      else (z_reset Z (last (parked p)), p\<lparr>parked := butlast (parked p)\<rparr>))"

section \<open>Vectors with a capacity\<close>

text \<open>\<open>Vec::reserve\<close>: nothing when there is room, at least a doubling otherwise.\<close>

definition vec_reserve :: "nat \<Rightarrow> nat \<Rightarrow> nat \<Rightarrow> nat" where
  "vec_reserve len cap additional =
     (if additional \<le> cap - len then cap else max 8 (max (2 * cap) (len + additional)))"

text \<open>\<open>set_len\<close> past the written bytes would be undefined behaviour; it is a \<open>Panic\<close> here.\<close>

definition inflate_into_spare ::
  "'s zlib \<Rightarrow> 's \<Rightarrow> u8 list \<Rightarrow> u8 list \<Rightarrow> nat \<Rightarrow> flush \<Rightarrow> (str, zstatus \<times> u8 list) outcome \<times> 's" where
  "inflate_into_spare Z s input out cap fl =
     (case z_decompress Z s input (cap - length out) fl of
        (Inl e, written, s') \<Rightarrow> (Err e, s')
      | (Inr status, written, s') \<Rightarrow>
          (let before = z_total_out Z s; produced = z_total_out Z s' - before in
           if before \<le> z_total_out Z s' \<and> produced \<le> length written
           then (Ok (status, out @ take produced written), s')
           else (Panic, s')))"

section \<open>The streaming reader\<close>

record 's inflate_reader =
  ir_input :: "u8 list"
  ir_in_pos :: nat
  ir_decomp :: "'s option"
  ir_buf :: "u8 list"
  ir_cap :: nat
  ir_cursor :: nat
  ir_chunk :: nat
  ir_total_out :: nat
  ir_max :: nat
  ir_eof :: bool
  ir_stream_end :: bool

abbreviation (input) CHUNK :: nat where "CHUNK \<equiv> 64 * 1024"

definition with_chunk :: "'s zlib \<Rightarrow> u8 list \<Rightarrow> nat \<Rightarrow> nat \<Rightarrow> 's pool \<Rightarrow> 's inflate_reader \<times> 's pool" where
  "with_chunk Z input limit chunk p =
     (let chunk = max chunk 1; (s, p) = checkout Z p in
      (\<lparr>ir_input = input, ir_in_pos = 0, ir_decomp = Some s, ir_buf = [], ir_cap = chunk, ir_cursor = 0,
        ir_chunk = chunk, ir_total_out = 0, ir_max = limit, ir_eof = False, ir_stream_end = False\<rparr>, p))"

definition reader_new :: "'s zlib \<Rightarrow> u8 list \<Rightarrow> nat \<Rightarrow> 's pool \<Rightarrow> 's inflate_reader \<times> 's pool" where
  "reader_new Z input limit = with_chunk Z input limit CHUNK"

definition ir_available :: "'s inflate_reader \<Rightarrow> u8 list" where
  "ir_available r = drop (ir_cursor r) (ir_buf r)"

definition ir_consume :: "nat \<Rightarrow> 's inflate_reader \<Rightarrow> 's inflate_reader" where
  "ir_consume n r = r\<lparr>ir_cursor := min (ir_cursor r + n) (length (ir_buf r))\<rparr>"

definition is_done :: "'s inflate_reader \<Rightarrow> bool" where
  "is_done r \<longleftrightarrow> ir_eof r \<and> length (ir_buf r) \<le> ir_cursor r"

definition compressed_progress :: "'s inflate_reader \<Rightarrow> nat \<times> nat" where
  "compressed_progress r = (ir_in_pos r, length (ir_input r))"

definition stream_ended :: "'s inflate_reader \<Rightarrow> bool" where
  "stream_ended r = ir_stream_end r"

definition exceeds :: "nat \<Rightarrow> str" where
  "exceeds limit = lit ''decompressed payload exceeds '' @ dec limit @ lit '' bytes''"

definition compact :: "'s inflate_reader \<Rightarrow> 's inflate_reader" where
  "compact r =
     (if ir_cursor r \<noteq> 0 then r\<lparr>ir_buf := drop (ir_cursor r) (ir_buf r), ir_cursor := 0\<rparr> else r)"

definition make_room :: "'s inflate_reader \<Rightarrow> 's inflate_reader" where
  "make_room r =
     (if length (ir_buf r) = ir_cap r then r\<lparr>ir_cap := vec_reserve (length (ir_buf r)) (ir_cap r) (ir_chunk r)\<rparr> else r)"

text \<open>What a call of the engine means for the end of the stream.\<close>

definition pump_status :: "zstatus \<Rightarrow> nat \<Rightarrow> nat \<Rightarrow> nat \<Rightarrow> 's inflate_reader \<Rightarrow> (str, unit) outcome \<times> 's inflate_reader" where
  "pump_status status produced prev_in new_in r =
     (if status = ZStreamEnd then (Ok (), r\<lparr>ir_eof := True, ir_stream_end := True\<rparr>)
      else if produced = 0 then
        (if length (ir_input r) \<le> ir_in_pos r then (Ok (), r\<lparr>ir_eof := True\<rparr>)
         else if new_in = prev_in then (Err (lit ''zlib stream stalled (no progress)''), r)
         else (Ok (), r))
      else (Ok (), r))"

definition pump :: "'s zlib \<Rightarrow> 's inflate_reader \<Rightarrow> (str, unit) outcome \<times> 's inflate_reader" where
  "pump Z r =
     (let r = compact r in
      case ir_decomp r of
        None \<Rightarrow> (Err (lit ''InflateReader used after pool return''), r)
      | Some s \<Rightarrow>
          (let r = make_room r in
             if length (ir_input r) < ir_in_pos r then (Panic, r)
             else
               (case inflate_into_spare Z s (drop (ir_in_pos r) (ir_input r)) (ir_buf r) (ir_cap r) NoFlush of
                  (Err e, s') \<Rightarrow> (Err e, r\<lparr>ir_decomp := Some s'\<rparr>)
                | (Panic, s') \<Rightarrow> (Panic, r\<lparr>ir_decomp := Some s'\<rparr>)
                | (Ok (status, buf), s') \<Rightarrow>
                    (let produced = z_total_out Z s' - z_total_out Z s;
                         r = r\<lparr>ir_decomp := Some s', ir_buf := buf,
                               ir_in_pos := ir_in_pos r + (z_total_in Z s' - z_total_in Z s),
                               ir_total_out := ir_total_out r + produced\<rparr>
                     in
                       if ir_max r < ir_total_out r then (Err (exceeds (ir_max r)), r)
                       else pump_status status produced (z_total_in Z s) (z_total_in Z s') r))))"

text \<open>Every call but the last consumes or produces a byte.\<close>

definition pump_bound :: "'s inflate_reader \<Rightarrow> nat" where
  "pump_bound r = (ir_max r - ir_total_out r) + (length (ir_input r) - ir_in_pos r)"

fun ensure_n :: "'s zlib \<Rightarrow> nat \<Rightarrow> nat \<Rightarrow> 's inflate_reader \<Rightarrow> (str, bool) outcome \<times> 's inflate_reader" where
  "ensure_n Z 0 need r = (Panic, r)"
| "ensure_n Z (Suc n) need r =
     (if length (ir_buf r) - ir_cursor r < need then
        if ir_eof r then (Ok False, r)
        else
          (case pump Z r of
             (Ok (), r') \<Rightarrow> ensure_n Z n need r'
           | (Err e, r') \<Rightarrow> (Err e, r')
           | (Panic, r') \<Rightarrow> (Panic, r'))
      else (Ok True, r))"

definition ensure :: "'s zlib \<Rightarrow> nat \<Rightarrow> 's inflate_reader \<Rightarrow> (str, bool) outcome \<times> 's inflate_reader" where
  "ensure Z need r = ensure_n Z (pump_bound r + 2) need r"

section \<open>Growing the output\<close>

abbreviation (input) U64_MAX :: nat where "U64_MAX \<equiv> 2 ^ 64 - 1"

definition sat_mul64 :: "nat \<Rightarrow> nat \<Rightarrow> nat" where
  "sat_mul64 a b = min (a * b) U64_MAX"

definition grow_by_observed_ratio :: "'s zlib \<Rightarrow> nat \<Rightarrow> nat \<Rightarrow> 's \<Rightarrow> nat \<Rightarrow> nat \<Rightarrow> nat" where
  "grow_by_observed_ratio Z len capacity s compressed_len cap =
     (let consumed = z_total_in Z s;
          produced = z_total_out Z s;
          remaining_in = compressed_len - consumed;
          projected = (if 0 < consumed \<and> 0 < produced
                       then sat_mul64 (sat_mul64 produced remaining_in div consumed) 9 div 8 else 0);
          min_grow = max capacity 4096;
          want = min (max projected min_grow) (cap - len)
      in vec_reserve len capacity want)"

text \<open>\<open>read_to_end\<close> takes the reader; its inflate state goes back to the pool when it is dropped.\<close>

definition reader_drop :: "'s inflate_reader \<Rightarrow> 's pool \<Rightarrow> 's pool" where
  "reader_drop r p = (case ir_decomp r of Some s \<Rightarrow> park s p | None \<Rightarrow> p)"

fun drain_n :: "'s zlib \<Rightarrow> nat \<Rightarrow> 's inflate_reader \<Rightarrow> (str, unit) outcome \<times> 's inflate_reader" where
  "drain_n Z 0 r = (Panic, r)"
| "drain_n Z (Suc n) r =
     (if ir_eof r then (Ok (), r)
      else
        (let cap = min (ir_max r + 1) U64_MAX in
         if length (ir_buf r) = ir_cap r \<and> cap \<le> length (ir_buf r) then (Err (exceeds (ir_max r)), r)
         else if length (ir_buf r) = ir_cap r \<and> ir_decomp r = None
         then (Err (lit ''InflateReader used after pool return''), r)
         else
           (let r = (case ir_decomp r of
                       Some s \<Rightarrow>
                         if length (ir_buf r) = ir_cap r
                         then r\<lparr>ir_cap := grow_by_observed_ratio Z (length (ir_buf r)) (ir_cap r) s (length (ir_input r)) cap\<rparr>
                         else r
                     | None \<Rightarrow> r)
            in
              (case pump Z r of
                 (Ok (), r') \<Rightarrow> drain_n Z n r'
               | (Err e, r') \<Rightarrow> (Err e, r')
               | (Panic, r') \<Rightarrow> (Panic, r')))))"

declare drain_n.simps [simp del]

definition read_to_end :: "'s zlib \<Rightarrow> 's inflate_reader \<Rightarrow> 's pool \<Rightarrow> (str, u8 list) outcome \<times> 's pool" where
  "read_to_end Z r p =
     (case drain_n Z (pump_bound r + 2) r of
        (Ok (), r) \<Rightarrow>
          (if \<not> ir_stream_end r then (Err (lit ''zlib stream truncated (no terminator)''), reader_drop r p)
           else (Ok (drop (ir_cursor r) (ir_buf r)), reader_drop r p))
      | (Err e, r) \<Rightarrow> (Err e, reader_drop r p)
      | (Panic, r) \<Rightarrow> (Panic, reader_drop r p))"

section \<open>One-shot inflation\<close>

fun inflate_loop :: "'s zlib \<Rightarrow> nat \<Rightarrow> u8 list \<Rightarrow> nat \<Rightarrow> nat \<Rightarrow> u8 list \<Rightarrow> nat \<Rightarrow> 's \<Rightarrow> (str, u8 list) outcome \<times> 's" where
  "inflate_loop Z 0 compressed max_size input_offset scratch capacity s = (Panic, s)"
| "inflate_loop Z (Suc n) compressed max_size input_offset scratch capacity s =
     (let cap = min (max_size + 1) U64_MAX in
      if cap \<le> length scratch then (Err (exceeds max_size), s)
      else if length compressed < input_offset then (Panic, s)
      else
        (case inflate_into_spare Z s (drop input_offset compressed) scratch capacity Finish of
           (Err e, s') \<Rightarrow> (Err e, s')
         | (Panic, s') \<Rightarrow> (Panic, s')
         | (Ok (status, scratch), s') \<Rightarrow>
             (let input_offset = z_total_in Z s';
                  grown = grow_by_observed_ratio Z (length scratch) capacity s' (length compressed) cap
              in
                if max_size < length scratch then (Err (exceeds max_size), s')
                else
                  (case status of
                     ZStreamEnd \<Rightarrow> (Ok scratch, s')
                   | ZOk \<Rightarrow> inflate_loop Z n compressed max_size input_offset scratch grown s'
                   | ZBufError \<Rightarrow>
                       if z_total_in Z s' = z_total_in Z s \<and> z_total_out Z s' = z_total_out Z s
                       then (Err (lit ''zlib stream truncated (no progress)''), s')
                       else inflate_loop Z n compressed max_size input_offset scratch grown s'))))"

declare inflate_loop.simps [simp del]

definition decompress_with :: "'s zlib \<Rightarrow> 's \<Rightarrow> u8 list \<Rightarrow> nat \<Rightarrow> (str, u8 list) outcome \<times> 's" where
  "decompress_with Z s compressed max_size =
     (let cap = min (max_size + 1) U64_MAX;
          floor_size = min 4096 cap;
          estimated = clamp (min (length compressed * 2) U64_MAX) floor_size cap
      in inflate_loop Z (length compressed + max_size + 2) compressed max_size 0 [] estimated s)"

definition decompress_zlib_pooled :: "'s zlib \<Rightarrow> u8 list \<Rightarrow> nat \<Rightarrow> 's pool \<Rightarrow> (str, u8 list) outcome \<times> 's pool" where
  "decompress_zlib_pooled Z compressed max_size p =
     (let (s, p) = checkout Z p;
          (result, s) = decompress_with Z s compressed max_size
      in (result, park s p))"

section \<open>What is relied on\<close>

text \<open>One call: the totals count the bytes taken and written, and \<open>Ok\<close> means progress.\<close>

definition zlib_sane :: "'s zlib \<Rightarrow> bool" where
  "zlib_sane Z \<longleftrightarrow>
     z_total_in Z (z_new Z) = 0 \<and> z_total_out Z (z_new Z) = 0 \<and>
     (\<forall>s. z_total_in Z (z_reset Z s) = 0 \<and> z_total_out Z (z_reset Z s) = 0) \<and>
     (\<forall>s inp room fl st w s'. z_decompress Z s inp room fl = (Inr st, w, s') \<longrightarrow>
        z_total_in Z s \<le> z_total_in Z s' \<and> z_total_in Z s' \<le> z_total_in Z s + length inp \<and>
        z_total_out Z s' = z_total_out Z s + length w \<and> length w \<le> room \<and>
        (st = ZOk \<longrightarrow> z_total_in Z s < z_total_in Z s' \<or> w \<noteq> []))"

text \<open>The calls on one complete stream \<open>c\<close> that inflates to \<open>D\<close>: \<open>R\<close> are the states on the way.
  They write the bytes of \<open>D\<close> in order, end at its end, and a call that has room and writes nothing
  has taken input and left some.\<close>

definition inflates :: "'s zlib \<Rightarrow> ('s \<Rightarrow> bool) \<Rightarrow> u8 list \<Rightarrow> u8 list \<Rightarrow> bool" where
  "inflates Z R c D \<longleftrightarrow>
     R (z_new Z) \<and> (\<forall>s. R (z_reset Z s)) \<and>
     (\<forall>s room fl. R s \<and> z_total_in Z s \<le> length c \<and> z_total_out Z s \<le> length D \<longrightarrow>
        (case z_decompress Z s (drop (z_total_in Z s) c) room fl of
           (Inl e, w, s') \<Rightarrow> False
         | (Inr st, w, s') \<Rightarrow>
             R s' \<and> (\<exists>rest. drop (z_total_out Z s) D = w @ rest \<and> (st = ZStreamEnd \<longrightarrow> rest = [])) \<and>
             (0 < room \<and> st \<noteq> ZStreamEnd \<and> w = [] \<longrightarrow> z_total_in Z s < z_total_in Z s' \<and> z_total_in Z s' < length c)))"

lemma zlib_saneD:
  assumes "zlib_sane Z" "z_decompress Z s inp room fl = (Inr st, w, s')"
  shows "z_total_in Z s \<le> z_total_in Z s'" "z_total_in Z s' \<le> z_total_in Z s + length inp"
    "z_total_out Z s' = z_total_out Z s + length w" "length w \<le> room"
    "st = ZOk \<Longrightarrow> z_total_in Z s < z_total_in Z s' \<or> w \<noteq> []"
  using assms unfolding zlib_sane_def by blast+

lemma spare_Inl: "z_decompress Z s inp (cap - length out) fl = (Inl e, w, s') \<Longrightarrow> inflate_into_spare Z s inp out cap fl = (Err e, s')"
  by (simp add: inflate_into_spare_def)

lemma spare_Inr:
  assumes "zlib_sane Z" "z_decompress Z s inp (cap - length out) fl = (Inr st, w, s')"
  shows "inflate_into_spare Z s inp out cap fl = (Ok (st, out @ w), s')"
  using assms(2) zlib_saneD [OF assms] by (simp add: inflate_into_spare_def)

section \<open>The reader never spins\<close>

definition reader_ok :: "'s inflate_reader \<Rightarrow> bool" where
  "reader_ok r \<longleftrightarrow> ir_in_pos r \<le> length (ir_input r) \<and> ir_cursor r \<le> length (ir_buf r) \<and> length (ir_buf r) \<le> ir_cap r \<and> 0 < ir_chunk r"

lemma vec_reserve_ge: "len \<le> cap \<Longrightarrow> len + additional \<le> vec_reserve len cap additional \<and> cap \<le> vec_reserve len cap additional"
  by (auto simp: vec_reserve_def)

lemma reader_ok_compact: "reader_ok r \<Longrightarrow> reader_ok (compact r) \<and> ir_available (compact r) = ir_available r \<and> ir_cursor (compact r) = 0"
  by (auto simp: reader_ok_def compact_def ir_available_def)

lemma compact_sel [simp]:
  "ir_input (compact r) = ir_input r" "ir_in_pos (compact r) = ir_in_pos r" "ir_decomp (compact r) = ir_decomp r"
  "ir_chunk (compact r) = ir_chunk r" "ir_total_out (compact r) = ir_total_out r" "ir_max (compact r) = ir_max r"
  "ir_eof (compact r) = ir_eof r" "ir_stream_end (compact r) = ir_stream_end r" "ir_cap (compact r) = ir_cap r"
  by (simp_all add: compact_def)

text \<open>The reader on which the engine is called: compacted, with room.\<close>

definition pump_start :: "'s inflate_reader \<Rightarrow> 's inflate_reader" where
  "pump_start r = make_room (compact r)"

lemma pump_start_ok:
  assumes "reader_ok r"
  shows "reader_ok (pump_start r)" "ir_buf (pump_start r) = ir_available r" "ir_cursor (pump_start r) = 0"
    "length (ir_available r) < ir_cap (pump_start r)"
    "ir_input (pump_start r) = ir_input r" "ir_in_pos (pump_start r) = ir_in_pos r" "ir_decomp (pump_start r) = ir_decomp r"
    "ir_total_out (pump_start r) = ir_total_out r" "ir_max (pump_start r) = ir_max r" "ir_eof (pump_start r) = ir_eof r"
    "ir_stream_end (pump_start r) = ir_stream_end r" "ir_chunk (pump_start r) = ir_chunk r"
  using reader_ok_compact [OF assms] vec_reserve_ge [of "length (ir_buf (compact r))" "ir_cap r" "ir_chunk r"]
  by (auto simp: pump_start_def make_room_def reader_ok_def ir_available_def)

definition pumped :: "'s zlib \<Rightarrow> 's inflate_reader \<Rightarrow> u8 list \<Rightarrow> 's \<Rightarrow> 's \<Rightarrow> 's inflate_reader" where
  "pumped Z r w s s' = (pump_start r)\<lparr>ir_decomp := Some s', ir_buf := ir_available r @ w,
     ir_in_pos := ir_in_pos r + (z_total_in Z s' - z_total_in Z s), ir_total_out := ir_total_out r + length w\<rparr>"

lemma pump_Some:
  assumes "reader_ok r" "ir_decomp r = Some s"
  shows "z_decompress Z s (drop (ir_in_pos r) (ir_input r)) (ir_cap (pump_start r) - length (ir_available r)) NoFlush = (Inl e, w, s') \<Longrightarrow>
      pump Z r = (Err e, (pump_start r)\<lparr>ir_decomp := Some s'\<rparr>) \<and> reader_ok ((pump_start r)\<lparr>ir_decomp := Some s'\<rparr>)" (is "?i \<Longrightarrow> _")
    and "zlib_sane Z \<Longrightarrow>
      z_decompress Z s (drop (ir_in_pos r) (ir_input r)) (ir_cap (pump_start r) - length (ir_available r)) NoFlush = (Inr st, w, s') \<Longrightarrow>
      reader_ok (pumped Z r w s s') \<and>
      pump Z r = (if ir_max r < ir_total_out r + length w then (Err (exceeds (ir_max r)), pumped Z r w s s')
        else pump_status st (length w) (z_total_in Z s) (z_total_in Z s') (pumped Z r w s s'))" (is "_ \<Longrightarrow> ?d \<Longrightarrow> _")
proof -
  note p = pump_start_ok [OF assms(1)]
  have nb: "\<not> length (ir_input r) < ir_in_pos r" using assms(1) by (simp add: reader_ok_def)
  note pu = pump_def [of Z r, unfolded Let_def compact_sel assms(2) option.case pump_start_def [symmetric] p if_not_P [OF nb]]
  { assume ?i
    from spare_Inl [OF this] p(1) show "pump Z r = (Err e, (pump_start r)\<lparr>ir_decomp := Some s'\<rparr>) \<and>
        reader_ok ((pump_start r)\<lparr>ir_decomp := Some s'\<rparr>)" by (simp add: pu reader_ok_def) }
  assume Z: "zlib_sane Z" and d: ?d
  note f = zlib_saneD [OF Z d]
  have "reader_ok (pumped Z r w s s')" using p f(1,2,4) by (auto simp: pumped_def reader_ok_def)
  then show "reader_ok (pumped Z r w s s') \<and>
      pump Z r = (if ir_max r < ir_total_out r + length w then (Err (exceeds (ir_max r)), pumped Z r w s s')
        else pump_status st (length w) (z_total_in Z s) (z_total_in Z s') (pumped Z r w s s'))"
    by (simp add: pu spare_Inr [OF Z d] f(3) pumped_def p)
qed

lemma pump_None: "reader_ok r \<Longrightarrow> ir_decomp r = None \<Longrightarrow> \<exists>e r'. pump Z r = (Err e, r') \<and> reader_ok r'"
  using reader_ok_compact [of r] by (auto simp: pump_def Let_def)

lemma pumped_sel:
  assumes "reader_ok r"
  shows "ir_available (pumped Z r w s s') = ir_available r @ w" "ir_input (pumped Z r w s s') = ir_input r"
    "ir_max (pumped Z r w s s') = ir_max r" "ir_eof (pumped Z r w s s') = ir_eof r"
    "ir_stream_end (pumped Z r w s s') = ir_stream_end r" "ir_total_out (pumped Z r w s s') = ir_total_out r + length w"
    "ir_decomp (pumped Z r w s s') = Some s'"
    "ir_in_pos (pumped Z r w s s') = ir_in_pos r + (z_total_in Z s' - z_total_in Z s)"
    "ir_cursor (pumped Z r w s s') = 0"
  using pump_start_ok [OF assms] by (simp_all add: pumped_def ir_available_def)

lemma pump_status_cases:
  "(pump_status st k i j r = (Ok (), r\<lparr>ir_eof := True, ir_stream_end := True\<rparr>) \<and> st = ZStreamEnd) \<or>
   (pump_status st k i j r = (Ok (), r\<lparr>ir_eof := True\<rparr>) \<and> st \<noteq> ZStreamEnd \<and> k = 0 \<and> length (ir_input r) \<le> ir_in_pos r) \<or>
   (pump_status st k i j r = (Err (lit ''zlib stream stalled (no progress)''), r) \<and> st \<noteq> ZStreamEnd \<and> k = 0 \<and> i = j) \<or>
   (pump_status st k i j r = (Ok (), r) \<and> st \<noteq> ZStreamEnd \<and> (k = 0 \<longrightarrow> i \<noteq> j))"
  by (auto simp: pump_status_def)

text \<open>A step of the reader only adds to what is available, and makes progress.\<close>

definition extends :: "'s inflate_reader \<Rightarrow> 's inflate_reader \<Rightarrow> bool" where
  "extends r r' \<longleftrightarrow> ir_input r' = ir_input r \<and> ir_max r' = ir_max r \<and> (\<exists>w. ir_available r' = ir_available r @ w)"

lemma extends_refl: "extends r r"
  by (simp add: extends_def)

lemma extends_trans: "extends r r' \<Longrightarrow> extends r' r'' \<Longrightarrow> extends r r''"
  by (auto simp: extends_def)

lemma ir_available_flags [simp]:
  "ir_available (r\<lparr>ir_eof := b\<rparr>) = ir_available r" "ir_available (r\<lparr>ir_stream_end := b\<rparr>) = ir_available r"
  "reader_ok (r\<lparr>ir_eof := b\<rparr>) = reader_ok r" "reader_ok (r\<lparr>ir_stream_end := b\<rparr>) = reader_ok r"
  "extends r0 (r\<lparr>ir_eof := b\<rparr>) = extends r0 r" "extends r0 (r\<lparr>ir_stream_end := b\<rparr>) = extends r0 r"
  by (simp_all add: ir_available_def reader_ok_def extends_def)

lemma pump_sane:
  assumes "zlib_sane Z" "reader_ok r" "\<not> ir_eof r"
  shows "case pump Z r of
      (Ok _, r') \<Rightarrow> reader_ok r' \<and> extends r r' \<and> (ir_eof r' \<or> pump_bound r' < pump_bound r)
    | (Err _, r') \<Rightarrow> reader_ok r'
    | (Panic, r') \<Rightarrow> False"
proof (cases "ir_decomp r")
  case None
  from pump_None [OF assms(2) this, of Z] show ?thesis by auto
next
  case (Some s)
  obtain res w s' where z: "z_decompress Z s (drop (ir_in_pos r) (ir_input r)) (ir_cap (pump_start r) - length (ir_available r)) NoFlush = (res, w, s')"
    by (rule prod_cases3)
  show ?thesis
  proof (cases res)
    case (Inl e)
    from pump_Some(1) [OF assms(2) Some z [unfolded this]] show ?thesis by simp
  next
    case (Inr st)
    note d = z [unfolded Inr]
    note f = zlib_saneD [OF assms(1) d] and q = pumped_sel [OF assms(2)]
    from pump_Some(2) [OF assms(2) Some assms(1) d] have ok: "reader_ok (pumped Z r w s s')"
      and pu: "pump Z r = (if ir_max r < ir_total_out r + length w then (Err (exceeds (ir_max r)), pumped Z r w s s')
        else pump_status st (length w) (z_total_in Z s) (z_total_in Z s') (pumped Z r w s s'))" by blast+
    have i: "ir_in_pos r + (z_total_in Z s' - z_total_in Z s) \<le> length (ir_input r)" using ok by (simp add: reader_ok_def q)
    have b: "pump_bound (pumped Z r w s s') < pump_bound r"
      if "length w = 0 \<longrightarrow> z_total_in Z s \<noteq> z_total_in Z s'" "\<not> ir_max r < ir_total_out r + length w"
      using that f(1) i unfolding pump_bound_def q by arith
    have e: "extends r (pumped Z r w s s')" by (simp add: extends_def q)
    show ?thesis
    proof (cases "ir_max r < ir_total_out r + length w")
      case False
      then show ?thesis unfolding pu if_not_P [OF False]
        using pump_status_cases [of st "length w" "z_total_in Z s" "z_total_in Z s'" "pumped Z r w s s'"] ok e
        by (elim disjE conjE) (simp_all add: b)
    qed (simp add: pu ok)
  qed
qed

lemma ensure_n_sane:
  assumes "zlib_sane Z"
  shows "reader_ok r \<Longrightarrow> pump_bound r + 2 \<le> n \<or> ir_eof r \<and> 1 \<le> n \<Longrightarrow>
    (case ensure_n Z n need r of
      (Ok b, r') \<Rightarrow> reader_ok r' \<and> extends r r' \<and> (b \<longleftrightarrow> need \<le> length (ir_available r')) \<and> (\<not> b \<longrightarrow> ir_eof r')
    | (Err _, r') \<Rightarrow> reader_ok r'
    | (Panic, r') \<Rightarrow> False)"
proof (induction n arbitrary: r)
  case (Suc n)
  note av = ir_available_def
  show ?case
  proof (cases "length (ir_buf r) - ir_cursor r < need \<and> \<not> ir_eof r")
    case False
    then show ?thesis using Suc.prems by (auto simp: extends_refl av)
  next
    case True
    then have b: "pump_bound r + 2 \<le> Suc n" using Suc.prems(2) by simp
    note p = pump_sane [OF assms Suc.prems(1)] True
    show ?thesis
    proof (cases "pump Z r")
      case (Pair res r')
      show ?thesis
      proof (cases res)
        case (Ok u)
        with p Pair have r': "reader_ok r'" "extends r r'" "ir_eof r' \<or> pump_bound r' < pump_bound r" by auto
        then have "pump_bound r' + 2 \<le> n \<or> ir_eof r' \<and> 1 \<le> n" using b by linarith
        note ih = Suc.IH [OF r'(1) this]
        have e: "ensure_n Z (Suc n) need r = ensure_n Z n need r'" using True Pair Ok by (simp split: unit.split)
        obtain res' r'' where x: "ensure_n Z n need r' = (res', r'')" by (cases "ensure_n Z n need r'")
        show ?thesis using ih extends_trans [OF r'(2), of r''] unfolding e x by (cases res') simp_all
      qed (use p Pair True in simp_all)
    qed
  qed
qed auto

lemma ensure_sane:
  assumes "zlib_sane Z" "reader_ok r"
  shows "case ensure Z need r of
      (Ok b, r') \<Rightarrow> reader_ok r' \<and> extends r r' \<and> (b \<longleftrightarrow> need \<le> length (ir_available r')) \<and> (\<not> b \<longrightarrow> ir_eof r')
    | (Err _, r') \<Rightarrow> reader_ok r'
    | (Panic, r') \<Rightarrow> False"
  unfolding ensure_def by (rule ensure_n_sane [OF assms]) simp

section \<open>Reading a complete stream\<close>

lemma inflatesD:
  assumes "inflates Z R c D" "R s" "z_total_in Z s \<le> length c" "z_total_out Z s \<le> length D"
  obtains st w s' rest where "z_decompress Z s (drop (z_total_in Z s) c) room fl = (Inr st, w, s')" "R s'"
    "drop (z_total_out Z s) D = w @ rest" "st = ZStreamEnd \<Longrightarrow> rest = []"
    "0 < room \<Longrightarrow> st \<noteq> ZStreamEnd \<Longrightarrow> w = [] \<Longrightarrow> z_total_in Z s < z_total_in Z s' \<and> z_total_in Z s' < length c"
proof -
  have "case z_decompress Z s (drop (z_total_in Z s) c) room fl of
           (Inl e, w, s') \<Rightarrow> False
         | (Inr st, w, s') \<Rightarrow>
             R s' \<and> (\<exists>rest. drop (z_total_out Z s) D = w @ rest \<and> (st = ZStreamEnd \<longrightarrow> rest = [])) \<and>
             (0 < room \<and> st \<noteq> ZStreamEnd \<and> w = [] \<longrightarrow> z_total_in Z s < z_total_in Z s' \<and> z_total_in Z s' < length c)"
    using assms(1) [unfolded inflates_def, THEN conjunct2, THEN conjunct2, rule_format, of s room fl] assms(2-4) by simp
  moreover obtain res w s' where z: "z_decompress Z s (drop (z_total_in Z s) c) room fl = (res, w, s')" by (rule prod_cases3)
  ultimately obtain st where st: "res = Inr st" "R s'" "\<exists>rest. drop (z_total_out Z s) D = w @ rest \<and> (st = ZStreamEnd \<longrightarrow> rest = [])"
    "0 < room \<and> st \<noteq> ZStreamEnd \<and> w = [] \<longrightarrow> z_total_in Z s < z_total_in Z s' \<and> z_total_in Z s' < length c"
    by (cases res) simp_all
  then obtain rest where "drop (z_total_out Z s) D = w @ rest" "st = ZStreamEnd \<longrightarrow> rest = []" by blast
  then show thesis using z st by (intro that [of st w s' rest]) simp_all
qed

text \<open>A reader in the middle of the stream \<open>c\<close>: it has \<open>D\<close> up to its counter, and \<open>undelivered\<close>
  is what is still to come.\<close>

definition reading :: "'s zlib \<Rightarrow> ('s \<Rightarrow> bool) \<Rightarrow> u8 list \<Rightarrow> u8 list \<Rightarrow> 's inflate_reader \<Rightarrow> bool" where
  "reading Z R c D r \<longleftrightarrow> reader_ok r \<and> ir_input r = c \<and> length D \<le> ir_max r \<and> ir_total_out r \<le> length D \<and>
     length (ir_buf r) \<le> ir_total_out r \<and>
     (\<exists>s. ir_decomp r = Some s \<and> R s \<and> z_total_in Z s = ir_in_pos r \<and> z_total_out Z s = ir_total_out r) \<and>
     (ir_eof r \<longrightarrow> ir_total_out r = length D \<and> ir_stream_end r)"

definition undelivered :: "u8 list \<Rightarrow> 's inflate_reader \<Rightarrow> u8 list" where
  "undelivered D r = ir_available r @ drop (ir_total_out r) D"

lemma pump_reading:
  assumes "zlib_sane Z" "inflates Z R c D" "reading Z R c D r" "\<not> ir_eof r"
  obtains r' where "pump Z r = (Ok (), r')" "reading Z R c D r'" "undelivered D r' = undelivered D r" "ir_max r' = ir_max r"
proof -
  from assms(3) obtain s where r: "reader_ok r" "ir_input r = c" "length D \<le> ir_max r" "ir_total_out r \<le> length D"
    "ir_decomp r = Some s" "R s" "z_total_in Z s = ir_in_pos r" "z_total_out Z s = ir_total_out r" "length (ir_buf r) \<le> ir_total_out r"
    by (auto simp: reading_def)
  have i: "z_total_in Z s \<le> length c" using r(1,2,7) by (simp add: reader_ok_def)
  have room: "0 < ir_cap (pump_start r) - length (ir_available r)" using pump_start_ok(4) [OF r(1)] by simp
  obtain st w s' rest where d: "z_decompress Z s (drop (z_total_in Z s) c) (ir_cap (pump_start r) - length (ir_available r)) NoFlush = (Inr st, w, s')"
    "R s'" "drop (ir_total_out r) D = w @ rest" "st = ZStreamEnd \<Longrightarrow> rest = []"
    "st \<noteq> ZStreamEnd \<Longrightarrow> w = [] \<Longrightarrow> z_total_in Z s < z_total_in Z s' \<and> z_total_in Z s' < length c"
    using inflatesD [OF assms(2) r(6) i, of "ir_cap (pump_start r) - length (ir_available r)" NoFlush] r(4,8) room by metis
  note f = zlib_saneD [OF assms(1) d(1)] and q = pumped_sel [OF r(1)]
  have "length (drop (ir_total_out r) D) = length w + length rest" by (simp only: d(3) length_append)
  then have lw: "ir_total_out r + length w \<le> length D" "rest = [] \<Longrightarrow> ir_total_out r + length w = length D"
    using r(4) by auto
  have "\<not> ir_max r < ir_total_out r + length w" using lw(1) r(3) by simp
  with pump_Some(2) [OF r(1,5) assms(1)] d(1) have ok: "reader_ok (pumped Z r w s s')"
    and pu: "pump Z r = pump_status st (length w) (z_total_in Z s) (z_total_in Z s') (pumped Z r w s s')"
    by (simp_all add: r(2,7))
  have u: "undelivered D (pumped Z r w s s') = undelivered D r"
    using d(3) by (simp add: undelivered_def q add.commute flip: drop_drop)
  have "length (ir_buf (pumped Z r w s s')) \<le> ir_total_out r + length w"
    using r(9) by (simp add: pumped_def ir_available_def)
  then have rd: "reading Z R c D (pumped Z r w s s')"
    using ok r d(2) lw(1) f(1,3) assms(4) by (simp add: reading_def q)
  have no: "\<not> (length (ir_input (pumped Z r w s s')) \<le> ir_in_pos (pumped Z r w s s'))" if "st \<noteq> ZStreamEnd" "length w = 0"
    using d(5) that f(1) by (simp add: q r(2,7) [symmetric])
  show thesis
    using pump_status_cases [of st "length w" "z_total_in Z s" "z_total_in Z s'" "pumped Z r w s s'"] unfolding pu [symmetric]
  proof (elim disjE conjE)
    assume "pump Z r = (Ok (), (pumped Z r w s s')\<lparr>ir_eof := True, ir_stream_end := True\<rparr>)" "st = ZStreamEnd"
    then show thesis using u rd lw(2) d(4) q(3)
      by (intro that [of "(pumped Z r w s s')\<lparr>ir_eof := True, ir_stream_end := True\<rparr>"]) (simp_all add: undelivered_def reading_def q)
  next
    assume "pump Z r = (Ok (), pumped Z r w s s')"
    then show thesis using u rd q(3) by (intro that [of "pumped Z r w s s'"]) simp_all
  qed (use no d(5) in auto)
qed

lemma pump_bound_less:
  assumes "zlib_sane Z" "reading Z R c D r" "\<not> ir_eof r" "pump Z r = (Ok (), r')"
  shows "ir_eof r' \<or> pump_bound r' < pump_bound r"
  using pump_sane [OF assms(1) _ assms(3)] assms(2,4) by (simp add: reading_def)

lemma available_complete: "reading Z R c D r \<Longrightarrow> ir_eof r \<Longrightarrow> ir_available r = undelivered D r"
  by (simp add: reading_def undelivered_def)

lemma ensure_n_reading:
  assumes "zlib_sane Z" "inflates Z R c D"
  shows "reading Z R c D r \<Longrightarrow> pump_bound r + 2 \<le> n \<or> ir_eof r \<and> 1 \<le> n \<Longrightarrow>
    \<exists>r'. ensure_n Z n need r = (Ok (need \<le> length (undelivered D r)), r') \<and> reading Z R c D r' \<and>
      undelivered D r' = undelivered D r \<and> ir_max r' = ir_max r \<and>
      min need (length (undelivered D r)) \<le> length (ir_available r')"
proof (induction n arbitrary: r)
  case (Suc n)
  have av: "length (ir_buf r) - ir_cursor r = length (ir_available r)" by (simp add: ir_available_def)
  have le: "length (ir_available r) \<le> length (undelivered D r)" by (simp add: undelivered_def)
  show ?case
  proof (cases "length (ir_available r) < need \<and> \<not> ir_eof r")
    case False
    then show ?thesis using Suc.prems le available_complete [OF Suc.prems(1)] by (auto simp: av)
  next
    case True
    from pump_reading [OF assms Suc.prems(1)] True obtain r' where
      p: "pump Z r = (Ok (), r')" "reading Z R c D r'" "undelivered D r' = undelivered D r" "ir_max r' = ir_max r" by metis
    from pump_bound_less [OF assms(1) Suc.prems(1) _ p(1)] True Suc.prems(2)
    have "pump_bound r' + 2 \<le> n \<or> ir_eof r' \<and> 1 \<le> n" by linarith
    from Suc.IH [OF p(2) this] show ?thesis using True p(1,3,4) by (simp add: av)
  qed
qed auto

lemma ensure_reading:
  assumes "zlib_sane Z" "inflates Z R c D" "reading Z R c D r"
  obtains r' where "ensure Z need r = (Ok (need \<le> length (undelivered D r)), r')" "reading Z R c D r'"
    "undelivered D r' = undelivered D r" "ir_max r' = ir_max r" "min need (length (undelivered D r)) \<le> length (ir_available r')"
  using ensure_n_reading [OF assms(1,2,3), of "pump_bound r + 2" need] unfolding ensure_def by auto

lemma reading_start:
  assumes "zlib_sane Z" "inflates Z R c D" "length D \<le> limit"
  shows "reading Z R c D (fst (with_chunk Z c limit chunk p))" "undelivered D (fst (with_chunk Z c limit chunk p)) = D"
  using assms by (auto simp: with_chunk_def checkout_def reading_def reader_ok_def undelivered_def ir_available_def zlib_sane_def
      inflates_def Let_def)

lemma reading_consume:
  assumes "reading Z R c D r" "n \<le> length (ir_available r)"
  shows "reading Z R c D (ir_consume n r)" "undelivered D (ir_consume n r) = drop n (undelivered D r)"
    "ir_max (ir_consume n r) = ir_max r"
  using assms by (auto simp: reading_def reader_ok_def ir_consume_def undelivered_def ir_available_def add.commute)

section \<open>One-shot inflation of a complete stream\<close>

lemma grow_room:
  assumes "len < cap" "len \<le> capacity"
  shows "len < grow_by_observed_ratio Z len capacity s k cap"
proof -
  let ?want = "min (max (if 0 < z_total_in Z s \<and> 0 < z_total_out Z s
     then sat_mul64 (sat_mul64 (z_total_out Z s) (k - z_total_in Z s) div z_total_in Z s) 9 div 8 else 0) (max capacity 4096)) (cap - len)"
  have "0 < ?want" using assms(1) by simp
  moreover have "len + ?want \<le> vec_reserve len capacity ?want" using vec_reserve_ge [OF assms(2)] by blast
  ultimately show ?thesis unfolding grow_by_observed_ratio_def Let_def by linarith
qed

lemma grow_ge: "len \<le> capacity \<Longrightarrow> capacity \<le> grow_by_observed_ratio Z len capacity s k cap"
  using vec_reserve_ge [of len capacity] unfolding grow_by_observed_ratio_def Let_def by blast

lemma inflate_loop_sane:
  assumes "zlib_sane Z"
  shows "z_total_in Z s \<le> length c \<Longrightarrow> length scratch = z_total_out Z s \<Longrightarrow> length scratch \<le> capacity \<Longrightarrow>
    length scratch \<le> limit \<Longrightarrow> (length c - z_total_in Z s) + (limit - length scratch) < n \<Longrightarrow>
    fst (inflate_loop Z n c limit (z_total_in Z s) scratch capacity s) \<noteq> Panic"
proof (induction n arbitrary: scratch capacity s)
  case (Suc n)
  let ?cap = "min (limit + 1) U64_MAX"
  obtain res w s' where z: "z_decompress Z s (drop (z_total_in Z s) c) (capacity - length scratch) Finish = (res, w, s')"
    by (rule prod_cases3)
  show ?case
  proof (cases "?cap \<le> length scratch")
    case True
    then show ?thesis by (simp add: inflate_loop.simps Let_def)
  next
    case open_cap: False
    show ?thesis
    proof (cases res)
      case (Inl e)
      from spare_Inl [OF z [unfolded this]] open_cap Suc.prems(1) show ?thesis by (simp add: inflate_loop.simps Let_def)
    next
      case (Inr st)
      note d = z [unfolded Inr] and f = zlib_saneD [OF assms z [unfolded Inr]]
      note sp = spare_Inr [OF assms d]
      have ih: "fst (inflate_loop Z n c limit (z_total_in Z s') (scratch @ w) g s') \<noteq> Panic"
        if "length (scratch @ w) \<le> g" "length (scratch @ w) \<le> limit" "z_total_in Z s < z_total_in Z s' \<or> w \<noteq> []" for g
      proof (rule Suc.IH)
        show "z_total_in Z s' \<le> length c" using f(2) Suc.prems(1) by simp
        show "length (scratch @ w) = z_total_out Z s'" using f(3) Suc.prems(2) by simp
        show "(length c - z_total_in Z s') + (limit - length (scratch @ w)) < n"
          using that f(1,2) Suc.prems(1,4,5) by (cases w) auto
      qed (use that in simp_all)
      have lc: "length (scratch @ w) \<le> capacity" using f(4) Suc.prems(3) by simp
      have g: "length (scratch @ w) \<le> grow_by_observed_ratio Z (length (scratch @ w)) capacity s' (length c) ?cap"
        by (rule le_trans [OF lc grow_ge [OF lc]])
      have nb: "\<not> length c < z_total_in Z s" using Suc.prems(1) by simp
      show ?thesis
        unfolding inflate_loop.simps Let_def if_not_P [OF open_cap] if_not_P [OF nb] sp prod.case outcome.case
        using ih [OF g] f(5) f(1,3) by (cases st) auto
    qed
  qed
qed simp

lemma inflate_loop_complete:
  assumes "zlib_sane Z" "inflates Z R c D" "limit + 1 \<le> U64_MAX"
  shows "R s \<Longrightarrow> z_total_in Z s \<le> length c \<Longrightarrow> z_total_out Z s \<le> length D \<Longrightarrow> scratch = take (z_total_out Z s) D \<Longrightarrow>
    length scratch < capacity \<Longrightarrow> length scratch \<le> limit \<Longrightarrow> (length c - z_total_in Z s) + (limit - length scratch) < n \<Longrightarrow>
    fst (inflate_loop Z n c limit (z_total_in Z s) scratch capacity s) = (if length D \<le> limit then Ok D else Err (exceeds limit))"
proof (induction n arbitrary: scratch capacity s)
  case (Suc n)
  have cap: "min (limit + 1) U64_MAX = limit + 1" using assms(3) by simp
  have oc: "\<not> min (limit + 1) U64_MAX \<le> length scratch" unfolding cap using Suc.prems(6) by simp
  have nb: "\<not> length c < z_total_in Z s" using Suc.prems(2) by simp
  have room: "0 < capacity - length scratch" using Suc.prems(5) by simp
  obtain st w s' rest where d: "z_decompress Z s (drop (z_total_in Z s) c) (capacity - length scratch) Finish = (Inr st, w, s')"
    "R s'" "drop (z_total_out Z s) D = w @ rest" "st = ZStreamEnd \<Longrightarrow> rest = []"
    "0 < capacity - length scratch \<Longrightarrow> st \<noteq> ZStreamEnd \<Longrightarrow> w = [] \<Longrightarrow>
      z_total_in Z s < z_total_in Z s' \<and> z_total_in Z s' < length c"
    by (rule inflatesD [OF assms(2) Suc.prems(1,2,3), of "capacity - length scratch" Finish]) (rule that)
  note progress = d(5) [OF room]
  note f = zlib_saneD [OF assms(1) d(1)] and sp = spare_Inr [OF assms(1) d(1)]
  have D: "D = scratch @ w @ rest" using append_take_drop_id [of "z_total_out Z s" D] unfolding Suc.prems(4) d(3) by (rule sym)
  have len: "length scratch = z_total_out Z s" using Suc.prems(3,4) by simp
  have lw: "z_total_out Z s' = length scratch + length w" using f(3) len by simp
  have lc: "length (scratch @ w) \<le> capacity" using f(4) Suc.prems(5) by simp
  have ih: "fst (inflate_loop Z n c limit (z_total_in Z s') (scratch @ w)
      (grow_by_observed_ratio Z (length (scratch @ w)) capacity s' (length c) (min (limit + 1) U64_MAX)) s') =
      (if length D \<le> limit then Ok D else Err (exceeds limit))"
    if l: "\<not> limit < length (scratch @ w)" and st: "st \<noteq> ZStreamEnd"
  proof (rule Suc.IH)
    show "z_total_in Z s' \<le> length c" using f(2) Suc.prems(2) by simp
    show "z_total_out Z s' \<le> length D" "scratch @ w = take (z_total_out Z s') D" by (simp_all add: D lw)
    show "length (scratch @ w) < grow_by_observed_ratio Z (length (scratch @ w)) capacity s' (length c) (min (limit + 1) U64_MAX)"
      unfolding cap using l by (intro grow_room lc) simp
    show "(length c - z_total_in Z s') + (limit - length (scratch @ w)) < n"
      using l progress [OF st] f(1,2) Suc.prems(2,6,7) by (cases w) auto
  qed (use l d(2) in simp_all)
  have np: "\<not> (z_total_in Z s' = z_total_in Z s \<and> z_total_out Z s' = z_total_out Z s)" if "st \<noteq> ZStreamEnd"
    using progress [OF that] f(3) by auto
  show ?case
  proof (cases "limit < length (scratch @ w)")
    case True
    then show ?thesis
      unfolding inflate_loop.simps Let_def if_not_P [OF oc] if_not_P [OF nb] sp prod.case outcome.case if_P [OF True]
      by (simp add: D)
  next
    case False
    show ?thesis
      unfolding inflate_loop.simps Let_def if_not_P [OF oc] if_not_P [OF nb] sp prod.case outcome.case if_not_P [OF False]
    proof (cases st)
      case ZStreamEnd
      then show "fst (case st of ZOk \<Rightarrow> inflate_loop Z n c limit (z_total_in Z s') (scratch @ w)
          (grow_by_observed_ratio Z (length (scratch @ w)) capacity s' (length c) (min (limit + 1) U64_MAX)) s'
        | ZBufError \<Rightarrow> if z_total_in Z s' = z_total_in Z s \<and> z_total_out Z s' = z_total_out Z s
            then (Err (lit ''zlib stream truncated (no progress)''), s')
            else inflate_loop Z n c limit (z_total_in Z s') (scratch @ w)
              (grow_by_observed_ratio Z (length (scratch @ w)) capacity s' (length c) (min (limit + 1) U64_MAX)) s'
        | ZStreamEnd \<Rightarrow> (Ok (scratch @ w), s')) = (if length D \<le> limit then Ok D else Err (exceeds limit))"
        using d(4) False by (simp add: D)
    qed (use ih [OF False] np in auto)
  qed
qed simp

lemma clamp_pos: "0 < lo \<Longrightarrow> lo \<le> hi \<Longrightarrow> 0 < clamp x lo hi"
  by (simp add: clamp_def)

lemma checkout_fresh:
  assumes "zlib_sane Z"
  shows "z_total_in Z (fst (checkout Z p)) = 0" "z_total_out Z (fst (checkout Z p)) = 0"
    "inflates Z R c D \<Longrightarrow> R (fst (checkout Z p))"
  using assms by (simp_all add: checkout_def zlib_sane_def inflates_def)

lemma decompress_pooled_fst:
  "fst (decompress_zlib_pooled Z c limit p) = fst (decompress_with Z (fst (checkout Z p)) c limit)"
  by (simp add: decompress_zlib_pooled_def Let_def split: prod.split)

lemma decompress_total:
  assumes "zlib_sane Z"
  shows "fst (decompress_zlib_pooled Z c limit p) \<noteq> Panic"
  using inflate_loop_sane [OF assms, of "fst (checkout Z p)" c "[]" _ limit] checkout_fresh(1,2) [OF assms, of p]
  by (simp add: decompress_pooled_fst decompress_with_def Let_def)

lemma decompress_complete:
  assumes "zlib_sane Z" "inflates Z R c D" "limit + 1 \<le> U64_MAX"
  shows "fst (decompress_zlib_pooled Z c limit p) = (if length D \<le> limit then Ok D else Err (exceeds limit))"
proof -
  have "0 < clamp (min (length c * 2) U64_MAX) (min 4096 (min (limit + 1) U64_MAX)) (min (limit + 1) U64_MAX)"
    by (rule clamp_pos) auto
  then show ?thesis
    using inflate_loop_complete [OF assms, of "fst (checkout Z p)" "[]"] checkout_fresh(1,2) [OF assms(1), of p] checkout_fresh(3) [OF assms(1,2), of p]
    by (simp add: decompress_pooled_fst decompress_with_def Let_def)
qed

section \<open>The pool\<close>

lemma pool_after_use:
  "parked_states (snd (decompress_zlib_pooled Z c limit p)) \<le> max (parked_states p) (retention p)"
  "retention (snd (decompress_zlib_pooled Z c limit p)) = retention p"
  by (auto simp: decompress_zlib_pooled_def checkout_def park_def parked_states_def Let_def split: prod.split)

section \<open>Reading to the end\<close>

text \<open>The reader before the next step of the loop of \<open>read_to_end\<close>.\<close>

definition drain_start :: "'s zlib \<Rightarrow> nat \<Rightarrow> 's inflate_reader \<Rightarrow> 's inflate_reader" where
  "drain_start Z cap r =
     (case ir_decomp r of
        Some s \<Rightarrow>
          if length (ir_buf r) = ir_cap r
          then r\<lparr>ir_cap := grow_by_observed_ratio Z (length (ir_buf r)) (ir_cap r) s (length (ir_input r)) cap\<rparr>
          else r
      | None \<Rightarrow> r)"

lemma drain_start_sel:
  "pump_bound (drain_start Z cap r) = pump_bound r" "ir_eof (drain_start Z cap r) = ir_eof r"
  "ir_available (drain_start Z cap r) = ir_available r" "undelivered D (drain_start Z cap r) = undelivered D r"
  by (auto simp: drain_start_def pump_bound_def ir_available_def undelivered_def split: option.split)

lemma drain_start_ok:
  "reader_ok r \<Longrightarrow> reader_ok (drain_start Z cap r)"
  "reading Z R c D r \<Longrightarrow> reading Z R c D (drain_start Z cap r)"
  using grow_ge [of "length (ir_buf r)" "ir_cap r" Z]
  by (auto simp: drain_start_def reader_ok_def reading_def split: option.split intro: order_trans)

lemma drain_n_Suc:
  "drain_n Z (Suc n) r =
     (let cap = min (ir_max r + 1) U64_MAX in
      if ir_eof r then (Ok (), r)
      else if length (ir_buf r) = ir_cap r \<and> cap \<le> length (ir_buf r) then (Err (exceeds (ir_max r)), r)
      else if length (ir_buf r) = ir_cap r \<and> ir_decomp r = None then (Err (lit ''InflateReader used after pool return''), r)
      else
        (case pump Z (drain_start Z cap r) of
           (Ok (), r') \<Rightarrow> drain_n Z n r'
         | (Err e, r') \<Rightarrow> (Err e, r')
         | (Panic, r') \<Rightarrow> (Panic, r')))"
  by (simp add: drain_n.simps Let_def drain_start_def)

lemma drain_n_sane:
  assumes "zlib_sane Z"
  shows "reader_ok r \<Longrightarrow> pump_bound r + 2 \<le> n \<or> ir_eof r \<and> 1 \<le> n \<Longrightarrow> fst (drain_n Z n r) \<noteq> Panic"
proof (induction n arbitrary: r)
  case (Suc n)
  let ?r = "drain_start Z (min (ir_max r + 1) U64_MAX) r"
  obtain res r' where p: "pump Z ?r = (res, r')" by (cases "pump Z ?r")
  have ps: "\<not> ir_eof r \<Longrightarrow> (case (res, r') of
      (Ok _, r') \<Rightarrow> reader_ok r' \<and> extends ?r r' \<and> (ir_eof r' \<or> pump_bound r' < pump_bound r)
    | (Err _, r') \<Rightarrow> reader_ok r'
    | (Panic, r') \<Rightarrow> False)"
    using pump_sane [OF assms drain_start_ok(1) [OF Suc.prems(1), of Z "min (ir_max r + 1) U64_MAX"]] unfolding drain_start_sel p .
  show ?case
  proof (cases "ir_eof r")
    case False
    have "fst (drain_n Z n r') \<noteq> Panic" if "res = Ok u" for u
      using ps [OF False] that Suc.prems(2) False by (intro Suc.IH) (simp_all, linarith)
    then show ?thesis using ps [OF False] unfolding drain_n_Suc Let_def p by (cases res) auto
  qed (simp add: drain_n_Suc)
qed auto

lemma drain_n_reading:
  assumes "zlib_sane Z" "inflates Z R c D"
  shows "reading Z R c D r \<Longrightarrow> ir_max r + 1 \<le> U64_MAX \<Longrightarrow> pump_bound r + 2 \<le> n \<or> ir_eof r \<and> 1 \<le> n \<Longrightarrow>
    \<exists>r'. drain_n Z n r = (Ok (), r') \<and> reading Z R c D r' \<and> undelivered D r' = undelivered D r \<and> ir_eof r'"
proof (induction n arbitrary: r)
  case (Suc n)
  let ?r = "drain_start Z (min (ir_max r + 1) U64_MAX) r"
  show ?case
  proof (cases "ir_eof r")
    case True
    then show ?thesis using Suc.prems by (simp add: drain_n_Suc)
  next
    case False
    have rd: "reading Z R c D ?r" by (rule drain_start_ok(2) [OF Suc.prems(1)])
    from pump_reading [OF assms rd] False obtain r' where p: "pump Z ?r = (Ok (), r')" "reading Z R c D r'"
      "undelivered D r' = undelivered D r" "ir_max r' = ir_max ?r" unfolding drain_start_sel by metis
    have m: "ir_max ?r = ir_max r" by (simp add: drain_start_def split: option.split)
    from pump_bound_less [OF assms(1) rd _ p(1)] False Suc.prems(3)
    have "pump_bound r' + 2 \<le> n \<or> ir_eof r' \<and> 1 \<le> n" unfolding drain_start_sel by linarith
    from Suc.IH [OF p(2) _ this] Suc.prems(2) p(3,4) m
    have "\<exists>r''. drain_n Z n r' = (Ok (), r'') \<and> reading Z R c D r'' \<and> undelivered D r'' = undelivered D r \<and> ir_eof r''" by simp
    moreover have "drain_n Z (Suc n) r = drain_n Z n r'"
    proof -
      have "length (ir_buf r) < ir_max r + 1" "ir_decomp r \<noteq> None" using Suc.prems(1) by (auto simp: reading_def)
      moreover have "min (ir_max r + 1) U64_MAX = ir_max r + 1" using Suc.prems(2) by simp
      ultimately show ?thesis using False p(1) by (simp only: drain_n_Suc Let_def) simp
    qed
    ultimately show ?thesis by simp
  qed
qed auto

lemma read_to_end_complete:
  assumes "zlib_sane Z" "inflates Z R c D" "reading Z R c D r" "ir_max r + 1 \<le> U64_MAX"
  shows "fst (read_to_end Z r p) = Ok (undelivered D r)"
proof -
  from drain_n_reading [OF assms, of "pump_bound r + 2"] obtain r' where
    q: "drain_n Z (pump_bound r + 2) r = (Ok (), r')" "reading Z R c D r'" "undelivered D r' = undelivered D r" "ir_eof r'" by auto
  have "ir_available r' = undelivered D r" using available_complete [OF q(2,4)] q(3) by simp
  moreover have "ir_stream_end r'" using q(2,4) by (simp add: reading_def)
  ultimately show ?thesis unfolding read_to_end_def q(1) by (simp add: ir_available_def)
qed

section \<open>An engine\<close>

text \<open>A format that stores its bytes and ends with a trailer byte meets both contracts.\<close>

definition stored_decompress :: "nat \<times> nat \<times> bool \<Rightarrow> u8 list \<Rightarrow> nat \<Rightarrow> flush \<Rightarrow> (str + zstatus) \<times> u8 list \<times> (nat \<times> nat \<times> bool)" where
  "stored_decompress s inp room fl =
     (case s of (i, out, ended) \<Rightarrow>
        if ended then (Inr ZStreamEnd, [], s)
        else if inp = [] \<or> room = 0 \<and> 1 < length inp then (Inr ZBufError, [], s)
        else if length inp - 1 \<le> room
        then (Inr ZStreamEnd, butlast inp, (i + length inp, out + (length inp - 1), True))
        else (Inr ZOk, take room inp, (i + room, out + room, False)))"

definition stored_zlib :: "(nat \<times> nat \<times> bool) zlib" where
  "stored_zlib = \<lparr>z_new = (0, 0, False), z_reset = (\<lambda>s. (0, 0, False)), z_decompress = stored_decompress,
     z_total_in = fst, z_total_out = fst \<circ> snd\<rparr>"

lemma stored_sane: "zlib_sane stored_zlib"
  by (auto simp: zlib_sane_def stored_zlib_def stored_decompress_def split: if_splits)

lemma stored_inflates:
  "inflates stored_zlib (\<lambda>(i, out, ended). if ended then i = length D + 1 \<and> out = length D else i = out) (D @ [t]) D"
  unfolding inflates_def
proof (intro conjI allI impI)
  fix s :: "nat \<times> nat \<times> bool" and room fl
  obtain i out ended where s: "s = (i, out, ended)" by (cases s)
  assume "(case s of (i, out, ended) \<Rightarrow> if ended then i = length D + 1 \<and> out = length D else i = out) \<and>
    z_total_in stored_zlib s \<le> length (D @ [t]) \<and> z_total_out stored_zlib s \<le> length D"
  then have "ended \<Longrightarrow> out = length D \<and> i = length D + 1" "\<not> ended \<Longrightarrow> i = out" "out \<le> length D"
    by (auto simp: s stored_zlib_def split: if_splits)
  moreover from this(3) have "drop out (D @ [t]) = drop out D @ [t]" by simp
  moreover have "drop out D = take room (drop out D) @ drop room (drop out D)" by (rule append_take_drop_id [symmetric])
  ultimately show "case z_decompress stored_zlib s (drop (z_total_in stored_zlib s) (D @ [t])) room fl of
      (Inl e, w, s') \<Rightarrow> False
    | (Inr st, w, s') \<Rightarrow>
        (case s' of (i, out, ended) \<Rightarrow> if ended then i = length D + 1 \<and> out = length D else i = out) \<and>
        (\<exists>rest. drop (z_total_out stored_zlib s) D = w @ rest \<and> (st = ZStreamEnd \<longrightarrow> rest = [])) \<and>
        (0 < room \<and> st \<noteq> ZStreamEnd \<and> w = [] \<longrightarrow> z_total_in stored_zlib s < z_total_in stored_zlib s' \<and>
          z_total_in stored_zlib s' < length (D @ [t]))"
    by (cases ended) (auto simp: s stored_zlib_def stored_decompress_def)
qed (simp_all add: stored_zlib_def)

section \<open>Main results\<close>

text \<open>C6. Inflating always returns. Whatever the input, as long as the engine reports its totals
  truthfully and an \<open>Ok\<close> means progress, the loops of \<open>ensure\<close>, \<open>read_to_end\<close> and
  \<open>decompress_zlib_pooled\<close> end after at most one call of the engine per byte consumed or produced
  (the loops run out of fuel, a \<open>Panic\<close>, for no input), and no index is out of range.\<close>

theorem inflate_returns:
  assumes "zlib_sane Z" "reader_ok r"
  shows "fst (ensure Z need r) \<noteq> Panic \<and> fst (read_to_end Z r p) \<noteq> Panic \<and> fst (decompress_zlib_pooled Z c limit p) \<noteq> Panic"
proof -
  have "fst (ensure Z need r) \<noteq> Panic"
    using ensure_sane [OF assms, of need] by (cases "ensure Z need r"; cases "fst (ensure Z need r)") auto
  moreover have "fst (read_to_end Z r p) \<noteq> Panic"
    using drain_n_sane [OF assms, of "pump_bound r + 2"]
    by (cases "drain_n Z (pump_bound r + 2) r"; cases "fst (drain_n Z (pump_bound r + 2) r)") (auto simp: read_to_end_def)
  ultimately show ?thesis using decompress_total [OF assms(1)] by blast
qed

theorem inflate_returns_witness:
  "fst (ensure stored_zlib 5 (fst (with_chunk stored_zlib [1, 2, 3] 100 4 pool_default))) \<noteq> Panic \<and>
   fst (read_to_end stored_zlib (fst (with_chunk stored_zlib [1, 2, 3] 100 4 pool_default)) pool_default) \<noteq> Panic \<and>
   fst (decompress_zlib_pooled stored_zlib [] 100 pool_default) \<noteq> Panic"
  by (rule inflate_returns [OF stored_sane]) (simp add: with_chunk_def checkout_def pool_default_def reader_ok_def Let_def)

text \<open>C7. One-shot inflation of a complete stream returns exactly its bytes, or the size error when
  they are more than the limit, however the engine cuts its output and whatever was parked in the
  pool before; the pool never holds more states than its retention allows (or than it held).\<close>

theorem decompress_exact:
  assumes "zlib_sane Z" "inflates Z R c D" "limit + 1 < 2 ^ 64"
  shows "fst (decompress_zlib_pooled Z c limit p) = (if length D \<le> limit then Ok D else Err (exceeds limit)) \<and>
    parked_states (snd (decompress_zlib_pooled Z c limit p)) \<le> max (parked_states p) (retention p)"
  using decompress_complete [OF assms(1,2), of limit p] assms(3) pool_after_use(1) [of Z c limit p] by simp

theorem decompress_exact_witness:
  "fst (decompress_zlib_pooled stored_zlib [1, 2, 3, 9] 3 pool_default) = Ok [1, 2, 3] \<and>
   fst (decompress_zlib_pooled stored_zlib [1, 2, 3, 9] 2 pool_default) = Err (exceeds 2)"
  using decompress_exact [OF stored_sane stored_inflates [of "[1, 2, 3]" 9], of 3 pool_default]
    decompress_exact [OF stored_sane stored_inflates [of "[1, 2, 3]" 9], of 2 pool_default] by simp

end
