(* ===== verification/Node_Stream.thy ===== *)
theory Node_Stream
  imports Zlib_Pool
begin

text \<open>
  Incremental decoding: \<open>stream.rs\<close>. A \<open>NodeStream\<close> decodes the nodes of a frame one at a time out of
  a window of bytes, which grows as bytes are inflated.

  \<open>cursor\<close> is the abstract view: the bytes still to be decoded, all of them at hand. That the
  stream implements it is shown in \<open>Node_Stream_Laws\<close>.

  A window at least doubles in every round of \<open>decode_next\<close>, from 64 bytes on: 64 rounds are enough for
  any window a 64-bit counter can measure.
\<close>

unbundle bit_operations_syntax

section \<open>Unpacking a frame at once\<close>

abbreviation (input) MAX_DECOMPRESSED_SIZE :: nat where "MAX_DECOMPRESSED_SIZE \<equiv> 16 * 1024 * 1024"

definition decompress_zlib :: "'s zlib \<Rightarrow> u8 list \<Rightarrow> 's pool \<Rightarrow> (binary_error, u8 list) outcome \<times> 's pool" where
  "decompress_zlib Z compressed p =
     (case decompress_zlib_pooled Z compressed MAX_DECOMPRESSED_SIZE p of
        (Ok out, p) \<Rightarrow> (Ok out, p)
      | (Err e, p) \<Rightarrow> (Err (Zlib e), p)
      | (Panic, p) \<Rightarrow> (Panic, p))"

definition unpack_bytes :: "'s zlib \<Rightarrow> u8 list \<Rightarrow> 's pool \<Rightarrow> (binary_error, u8 list) outcome \<times> 's pool" where
  "unpack_bytes Z data p =
     (case data of
        [] \<Rightarrow> (Err EmptyData, p)
      | data_type # rest \<Rightarrow>
          if 0 < data_type AND FORMAT_COMPRESSED then decompress_zlib Z rest p else (Ok rest, p))"

section \<open>Sources\<close>

datatype 's source = Plain "u8 list" nat | Inflating "'s inflate_reader"

definition source_available :: "'s source \<Rightarrow> u8 list" where
  "source_available src = (case src of Plain data pos \<Rightarrow> drop pos data | Inflating r \<Rightarrow> ir_available r)"

definition source_consume :: "nat \<Rightarrow> 's source \<Rightarrow> 's source" where
  "source_consume n src =
     (case src of
        Plain data pos \<Rightarrow> Plain data (min (pos + n) (length data))
      | Inflating r \<Rightarrow> Inflating (ir_consume n r))"

definition source_ensure :: "'s zlib \<Rightarrow> nat \<Rightarrow> 's source \<Rightarrow> (binary_error, bool) outcome \<times> 's source" where
  "source_ensure Z need src =
     (case src of
        Plain data pos \<Rightarrow> (Ok (need \<le> length data - pos), src)
      | Inflating r \<Rightarrow>
          (case ensure Z need r of
             (Ok b, r') \<Rightarrow> (Ok b, Inflating r')
           | (Err e, r') \<Rightarrow> (Err (Zlib e), Inflating r')
           | (Panic, r') \<Rightarrow> (Panic, Inflating r')))"

section \<open>Decoding out of a window\<close>

definition source_grow :: "'s zlib \<Rightarrow> nat \<Rightarrow> 's source \<Rightarrow> (binary_error, bool) outcome \<times> 's source" where
  "source_grow Z have src =
     (let want = min (max have 64 * 2) U64_MAX in
      case source_ensure Z want src of
        (Ok b, src') \<Rightarrow> (Ok (b \<or> have < length (source_available src')), src')
      | (Err e, src') \<Rightarrow> (Err e, src')
      | (Panic, src') \<Rightarrow> (Panic, src'))"

abbreviation (input) ROUNDS :: nat where "ROUNDS \<equiv> 64"

fun decode_next_n :: "'s zlib \<Rightarrow> nat \<Rightarrow> 'a reader \<Rightarrow> 's source \<Rightarrow> (binary_error, 'a \<times> nat) outcome \<times> 's source" where
  "decode_next_n Z 0 decode src = (Panic, src)"
| "decode_next_n Z (Suc n) decode src =
     (let bytes = source_available src in
      case decode (decoder_new bytes) of
        Ok (v, d) \<Rightarrow> (Ok (v, dec_position d), src)
      | Panic \<Rightarrow> (Panic, src)
      | Err e \<Rightarrow>
          if e = UnexpectedEof then
            (case source_grow Z (length bytes) src of
               (Ok True, src') \<Rightarrow> decode_next_n Z n decode src'
             | (Ok False, src') \<Rightarrow> (Err UnexpectedEof, src')
             | (Err e, src') \<Rightarrow> (Err e, src')
             | (Panic, src') \<Rightarrow> (Panic, src'))
          else (Err e, src))"

definition decode_next :: "'s zlib \<Rightarrow> 'a reader \<Rightarrow> 's source \<Rightarrow> (binary_error, 'a \<times> nat) outcome \<times> 's source" where
  "decode_next Z = decode_next_n Z ROUNDS"

fun skip_next_n :: "'s zlib \<Rightarrow> nat \<Rightarrow> unit reader \<Rightarrow> 's source \<Rightarrow> (binary_error, nat) outcome \<times> 's source" where
  "skip_next_n Z 0 walk src = (Panic, src)"
| "skip_next_n Z (Suc n) walk src =
     (let bytes = source_available src in
      case walk (decoder_new bytes) of
        Ok (_, d) \<Rightarrow> (Ok (dec_position d), src)
      | Panic \<Rightarrow> (Panic, src)
      | Err e \<Rightarrow>
          if e = UnexpectedEof then
            (case source_grow Z (length bytes) src of
               (Ok True, src') \<Rightarrow> skip_next_n Z n walk src'
             | (Ok False, src') \<Rightarrow> (Err UnexpectedEof, src')
             | (Err e, src') \<Rightarrow> (Err e, src')
             | (Panic, src') \<Rightarrow> (Panic, src'))
          else (Err e, src))"

definition skip_next :: "'s zlib \<Rightarrow> unit reader \<Rightarrow> 's source \<Rightarrow> (binary_error, nat) outcome \<times> 's source" where
  "skip_next Z = skip_next_n Z ROUNDS"

section \<open>Node streams\<close>

text \<open>The innermost level comes first.\<close>

record 's node_stream =
  ns_source :: "'s source"
  ns_pending :: nat
  ns_consumed :: nat
  ns_levels :: "nat list"
  ns_root_done :: bool

definition open_get_attr :: "node_open \<Rightarrow> str \<Rightarrow> node_value option" where
  "open_get_attr h key = map_option snd (find (\<lambda>(k, _). k = key) (open_attrs h))"

definition open_attr_str :: "node_open \<Rightarrow> str \<Rightarrow> str option" where
  "open_attr_str h key = map_option value_as_str (open_get_attr h key)"

definition child_count :: "node_open \<Rightarrow> nat" where
  "child_count h = (case open_content h of OChildren n \<Rightarrow> n | _ \<Rightarrow> 0)"

definition with_source :: "'s source \<Rightarrow> 's node_stream" where
  "with_source src = \<lparr>ns_source = src, ns_pending = 0, ns_consumed = 0, ns_levels = [], ns_root_done = False\<rparr>"

definition from_node_bytes :: "u8 list \<Rightarrow> 's node_stream" where
  "from_node_bytes bytes = with_source (Plain bytes 0)"

abbreviation (input) FRAME_INFLATE_CHUNK :: nat where "FRAME_INFLATE_CHUNK \<equiv> 4096"

definition from_packed :: "'s zlib \<Rightarrow> u8 list \<Rightarrow> 's pool \<Rightarrow> (binary_error, 's node_stream) outcome \<times> 's pool" where
  "from_packed Z packed p =
     (case packed of
        [] \<Rightarrow> (Err EmptyData, p)
      | format # bytes \<Rightarrow>
          if format AND FORMAT_COMPRESSED \<noteq> 0 then
            (let (r, p) = with_chunk Z bytes MAX_DECOMPRESSED_SIZE FRAME_INFLATE_CHUNK p
             in (Ok (with_source (Inflating r)), p))
          else (Ok (from_node_bytes bytes), p))"

definition is_compressed :: "'s node_stream \<Rightarrow> bool" where
  "is_compressed s = (case ns_source s of Inflating _ \<Rightarrow> True | Plain _ _ \<Rightarrow> False)"

definition stream_depth :: "'s node_stream \<Rightarrow> nat" where
  "stream_depth s = length (ns_levels s)"

definition settle :: "'s node_stream \<Rightarrow> 's node_stream" where
  "settle s =
     (if ns_pending s \<noteq> 0
      then s\<lparr>ns_source := source_consume (ns_pending s) (ns_source s), ns_consumed := ns_consumed s + ns_pending s, ns_pending := 0\<rparr>
      else s)"

definition take_slot :: "'s node_stream \<Rightarrow> bool \<times> 's node_stream" where
  "take_slot s =
     (let s = settle s in
      case ns_levels s of
        level # outer \<Rightarrow> if level = 0 then (False, s) else (True, s\<lparr>ns_levels := (level - 1) # outer\<rparr>)
      | [] \<Rightarrow> if ns_root_done s then (False, s) else (True, s\<lparr>ns_root_done := True\<rparr>))"

definition stream_open :: "'s zlib \<Rightarrow> codec_env \<Rightarrow> 's node_stream \<Rightarrow> (binary_error, node_open option) outcome \<times> 's node_stream" where
  "stream_open Z E s =
     (case take_slot s of
        (False, s) \<Rightarrow> (Ok None, s)
      | (True, s) \<Rightarrow>
          if MAX_NODE_DEPTH \<le> length (ns_levels s) then (Err MaxDepthExceeded, s)
          else
            (case decode_next Z (read_node_open E) (ns_source s) of
               (Ok (head, taken), src) \<Rightarrow>
                 (Ok (Some head),
                  s\<lparr>ns_source := src, ns_pending := taken,
                    ns_levels := (case open_content head of OChildren n \<Rightarrow> n | _ \<Rightarrow> 0) # ns_levels s\<rparr>)
             | (Err e, src) \<Rightarrow> (Err e, s\<lparr>ns_source := src\<rparr>)
             | (Panic, src) \<Rightarrow> (Panic, s\<lparr>ns_source := src\<rparr>)))"

definition next_child :: "'s zlib \<Rightarrow> codec_env \<Rightarrow> 's node_stream \<Rightarrow> (binary_error, node option) outcome \<times> 's node_stream" where
  "next_child Z E s =
     (case take_slot s of
        (False, s) \<Rightarrow> (Ok None, s)
      | (True, s) \<Rightarrow>
          (case decode_next Z (read_node_ref_at E (length (ns_levels s))) (ns_source s) of
             (Ok (n, taken), src) \<Rightarrow> (Ok (Some n), s\<lparr>ns_source := src, ns_pending := taken\<rparr>)
           | (Err e, src) \<Rightarrow> (Err e, s\<lparr>ns_source := src\<rparr>)
           | (Panic, src) \<Rightarrow> (Panic, s\<lparr>ns_source := src\<rparr>)))"

text \<open>Skip the node at the cursor and drop its bytes.\<close>

definition skip_node :: "'s zlib \<Rightarrow> codec_env \<Rightarrow> nat \<Rightarrow> 's node_stream \<Rightarrow> (binary_error, unit) outcome \<times> 's node_stream" where
  "skip_node Z E dep s =
     (case skip_next Z (skip_node_at E dep) (ns_source s) of
        (Ok taken, src) \<Rightarrow> (Ok (), s\<lparr>ns_source := source_consume taken src, ns_consumed := ns_consumed s + taken\<rparr>)
      | (Err e, src) \<Rightarrow> (Err e, s\<lparr>ns_source := src\<rparr>)
      | (Panic, src) \<Rightarrow> (Panic, s\<lparr>ns_source := src\<rparr>))"

fun skip_rest :: "'s zlib \<Rightarrow> codec_env \<Rightarrow> nat \<Rightarrow> 's node_stream \<Rightarrow> (binary_error, unit) outcome \<times> 's node_stream" where
  "skip_rest Z E 0 s = (Ok (), s)"
| "skip_rest Z E (Suc remaining) s =
     (case skip_node Z E (length (ns_levels s)) s of
        (Ok (), s') \<Rightarrow> skip_rest Z E remaining s'
      | (Err e, s') \<Rightarrow> (Err e, s')
      | (Panic, s') \<Rightarrow> (Panic, s'))"

definition close :: "'s zlib \<Rightarrow> codec_env \<Rightarrow> 's node_stream \<Rightarrow> (binary_error, unit) outcome \<times> 's node_stream" where
  "close Z E s =
     (let s = settle s in
      case ns_levels s of
        [] \<Rightarrow> (Ok (), s)
      | level # outer \<Rightarrow>
          (case skip_rest Z E level s of
             (Ok (), s') \<Rightarrow> (Ok (), s'\<lparr>ns_levels := tl (ns_levels s')\<rparr>)
           | (Err e, s') \<Rightarrow> (Err e, s')
           | (Panic, s') \<Rightarrow> (Panic, s')))"

text \<open>The loop \<open>while !self.levels.is_empty() { self.close()? }\<close>. Every \<open>close\<close> that succeeds leaves a level, so
  as many rounds as there are levels are enough.\<close>

fun close_all :: "'s zlib \<Rightarrow> codec_env \<Rightarrow> nat \<Rightarrow> 's node_stream \<Rightarrow> (binary_error, unit) outcome \<times> 's node_stream" where
  "close_all Z E 0 s = (if ns_levels s = [] then Ok () else Panic, s)"
| "close_all Z E (Suc n) s =
     (if ns_levels s = [] then (Ok (), s)
      else
        (case close Z E s of
           (Ok (), s') \<Rightarrow> close_all Z E n s'
         | (Err e, s') \<Rightarrow> (Err e, s')
         | (Panic, s') \<Rightarrow> (Panic, s')))"

text \<open>The source must end where the node does.\<close>

definition check_end :: "'s zlib \<Rightarrow> 's source \<Rightarrow> (binary_error, unit) outcome \<times> 's source" where
  "check_end Z src =
     (case src of
        Plain data pos \<Rightarrow> (if pos < length data then Err (LeftoverData (length data - pos)) else Ok (), src)
      | Inflating r \<Rightarrow>
          (case ensure Z 1 r of
             (Ok b, r') \<Rightarrow>
               (if b then Err (LeftoverData (length (ir_available r')))
                else if \<not> stream_ended r' then Err (Zlib (lit ''zlib stream truncated''))
                else Ok (), Inflating r')
           | (Err e, r') \<Rightarrow> (Err (Zlib e), Inflating r')
           | (Panic, r') \<Rightarrow> (Panic, Inflating r')))"

definition finish :: "'s zlib \<Rightarrow> codec_env \<Rightarrow> 's node_stream \<Rightarrow> (binary_error, unit) outcome \<times> 's node_stream" where
  "finish Z E s =
     (case close_all Z E (length (ns_levels s)) s of
        (Err e, s) \<Rightarrow> (Err e, s)
      | (Panic, s) \<Rightarrow> (Panic, s)
      | (Ok (), s) \<Rightarrow>
          (case (if ns_root_done s then (Ok (), s) else skip_node Z E 0 (s\<lparr>ns_root_done := True\<rparr>)) of
             (Err e, s) \<Rightarrow> (Err e, s)
           | (Panic, s) \<Rightarrow> (Panic, s)
           | (Ok (), s) \<Rightarrow>
               (let s = settle s in
                case check_end Z (ns_source s) of (res, src) \<Rightarrow> (res, s\<lparr>ns_source := src\<rparr>))))"

definition into_inflated :: "'s zlib \<Rightarrow> 's node_stream \<Rightarrow> 's pool \<Rightarrow> (binary_error, u8 list) outcome option \<times> 's pool" where
  "into_inflated Z s p =
     (case ns_source s of
        Plain _ _ \<Rightarrow> (None, p)
      | Inflating r \<Rightarrow>
          if ns_consumed s \<noteq> 0 then (None, reader_drop r p)
          else
            (case read_to_end Z r p of
               (Ok bytes, p) \<Rightarrow> (Some (Ok bytes), p)
             | (Err e, p) \<Rightarrow> (Some (Err (Zlib e)), p)
             | (Panic, p) \<Rightarrow> (Some Panic, p)))"

section \<open>The abstract cursor\<close>

record cursor =
  cur_bytes :: "u8 list"
  cur_levels :: "nat list"
  cur_root_done :: bool

definition cur_slot :: "cursor \<Rightarrow> bool \<times> cursor" where
  "cur_slot c =
     (case cur_levels c of
        level # outer \<Rightarrow> if level = 0 then (False, c) else (True, c\<lparr>cur_levels := (level - 1) # outer\<rparr>)
      | [] \<Rightarrow> if cur_root_done c then (False, c) else (True, c\<lparr>cur_root_done := True\<rparr>))"

text \<open>Decode at the head of the bytes and drop what was taken.\<close>

definition cur_decode :: "'a reader \<Rightarrow> cursor \<Rightarrow> (binary_error, 'a) outcome \<times> cursor" where
  "cur_decode r c =
     (case r (decoder_new (cur_bytes c)) of
        Ok (v, d) \<Rightarrow> (Ok v, c\<lparr>cur_bytes := drop (dec_position d) (cur_bytes c)\<rparr>)
      | Err e \<Rightarrow> (Err e, c)
      | Panic \<Rightarrow> (Panic, c))"

definition cur_open :: "codec_env \<Rightarrow> cursor \<Rightarrow> (binary_error, node_open option) outcome \<times> cursor" where
  "cur_open E c =
     (case cur_slot c of
        (False, c) \<Rightarrow> (Ok None, c)
      | (True, c) \<Rightarrow>
          if MAX_NODE_DEPTH \<le> length (cur_levels c) then (Err MaxDepthExceeded, c)
          else
            (case cur_decode (read_node_open E) c of
               (Ok h, c) \<Rightarrow> (Ok (Some h), c\<lparr>cur_levels := child_count h # cur_levels c\<rparr>)
             | (Err e, c) \<Rightarrow> (Err e, c)
             | (Panic, c) \<Rightarrow> (Panic, c)))"

definition cur_child :: "codec_env \<Rightarrow> cursor \<Rightarrow> (binary_error, node option) outcome \<times> cursor" where
  "cur_child E c =
     (case cur_slot c of
        (False, c) \<Rightarrow> (Ok None, c)
      | (True, c) \<Rightarrow>
          (case cur_decode (read_node_ref_at E (length (cur_levels c))) c of
             (Ok n, c) \<Rightarrow> (Ok (Some n), c)
           | (Err e, c) \<Rightarrow> (Err e, c)
           | (Panic, c) \<Rightarrow> (Panic, c)))"

fun cur_skip :: "codec_env \<Rightarrow> nat \<Rightarrow> cursor \<Rightarrow> (binary_error, unit) outcome \<times> cursor" where
  "cur_skip E 0 c = (Ok (), c)"
| "cur_skip E (Suc n) c =
     (case cur_decode (skip_node_at E (length (cur_levels c))) c of
        (Ok (), c') \<Rightarrow> cur_skip E n c'
      | (Err e, c') \<Rightarrow> (Err e, c')
      | (Panic, c') \<Rightarrow> (Panic, c'))"

definition cur_close :: "codec_env \<Rightarrow> cursor \<Rightarrow> (binary_error, unit) outcome \<times> cursor" where
  "cur_close E c =
     (case cur_levels c of
        [] \<Rightarrow> (Ok (), c)
      | level # outer \<Rightarrow>
          (case cur_skip E level c of
             (Ok (), c') \<Rightarrow> (Ok (), c'\<lparr>cur_levels := tl (cur_levels c')\<rparr>)
           | (Err e, c') \<Rightarrow> (Err e, c')
           | (Panic, c') \<Rightarrow> (Panic, c')))"

fun cur_close_all :: "codec_env \<Rightarrow> nat \<Rightarrow> cursor \<Rightarrow> (binary_error, unit) outcome \<times> cursor" where
  "cur_close_all E 0 c = (if cur_levels c = [] then Ok () else Panic, c)"
| "cur_close_all E (Suc n) c =
     (if cur_levels c = [] then (Ok (), c)
      else
        (case cur_close E c of
           (Ok (), c') \<Rightarrow> cur_close_all E n c'
         | (Err e, c') \<Rightarrow> (Err e, c')
         | (Panic, c') \<Rightarrow> (Panic, c')))"

definition cur_finish :: "codec_env \<Rightarrow> cursor \<Rightarrow> (binary_error, unit) outcome \<times> cursor" where
  "cur_finish E c =
     (case cur_close_all E (length (cur_levels c)) c of
        (Err e, c) \<Rightarrow> (Err e, c)
      | (Panic, c) \<Rightarrow> (Panic, c)
      | (Ok (), c) \<Rightarrow>
          (case (if cur_root_done c then (Ok (), c) else cur_decode (skip_node_at E 0) (c\<lparr>cur_root_done := True\<rparr>)) of
             (Err e, c) \<Rightarrow> (Err e, c)
           | (Panic, c) \<Rightarrow> (Panic, c)
           | (Ok (), c) \<Rightarrow> (if cur_bytes c \<noteq> [] then Err (LeftoverData (length (cur_bytes c))) else Ok (), c)))"

end
