(* ===== verification/Node_Stream_Laws.thy ===== *)
theory Node_Stream_Laws
  imports Node_Stream
begin

text \<open>
  The streaming decoder implements the abstract cursor. The locale \<open>window\<close> is the contract of a source of
  bytes, under which every operation of the stream does what the operation of the cursor does; it
  holds for bytes in memory (\<open>plain_window\<close>) and for a reader over a complete zlib stream
  (\<open>inflating_window\<close>). Streaming a frame is then decoding it at once. Only the
  first source knows how many bytes are left over at the end (\<open>tallies\<close>).
\<close>

unbundle bit_operations_syntax

section \<open>Windows\<close>

lemma skip_next_n_is:
  "skip_next_n Z n walk src = (case decode_next_n Z n walk src of (res, src') \<Rightarrow> (omap snd res, src'))"
proof (induction n arbitrary: src)
  case (Suc n)
  show ?case
    by (cases "walk (decoder_new (source_available src))")
      (auto simp: Let_def Suc split: prod.splits outcome.splits bool.splits)
qed simp

text \<open>The cursor a stream stands for; the bytes of the last result are still in the window.\<close>

definition cursor_of :: "('s source \<Rightarrow> u8 list) \<Rightarrow> 's node_stream \<Rightarrow> cursor" where
  "cursor_of rest s = \<lparr>cur_bytes = drop (ns_pending s) (rest (ns_source s)), cur_levels = ns_levels s, cur_root_done = ns_root_done s\<rparr>"

definition stream_ok :: "('s source \<Rightarrow> bool) \<Rightarrow> 's node_stream \<Rightarrow> bool" where
  "stream_ok ok s \<longleftrightarrow> ok (ns_source s) \<and> ns_pending s \<le> length (source_available (ns_source s)) \<and>
     (ns_root_done s \<or> ns_levels s = [] \<and> ns_pending s = 0)"

text \<open>\<open>implements\<close>: the operation \<open>f\<close> of the stream does what \<open>g\<close> does on the cursor.\<close>

definition implements :: "('s source \<Rightarrow> bool) \<Rightarrow> ('s source \<Rightarrow> u8 list) \<Rightarrow>
    ('s node_stream \<Rightarrow> 'r \<times> 's node_stream) \<Rightarrow> (cursor \<Rightarrow> 'r \<times> cursor) \<Rightarrow> bool" where
  "implements ok rest f g \<longleftrightarrow> (\<forall>s. stream_ok ok s \<longrightarrow>
     (case f s of (res, s') \<Rightarrow> stream_ok ok s' \<and> g (cursor_of rest s) = (res, cursor_of rest s')))"

text \<open>Any sequence of calls and what the caller sees of it.\<close>

datatype stream_op = OpOpen | OpNextChild | OpClose | OpFinish

datatype observation = SawOpen "(binary_error, node_open option) outcome" | SawChild "(binary_error, node option) outcome" |
  SawClose "(binary_error, unit) outcome" | SawFinish "(binary_error, unit) outcome"

text \<open>A stream that is being inflated does not know how many bytes are left over: it reports at least one and at
  most all of them. Everything else, and the number too where the source is \<open>exact\<close>, is the same.\<close>

definition tallies :: "bool \<Rightarrow> (binary_error, 'a) outcome \<Rightarrow> (binary_error, 'a) outcome \<Rightarrow> bool" where
  "tallies exact res res' \<longleftrightarrow> res = res' \<or>
     \<not> exact \<and> (\<exists>k m. res = Err (LeftoverData k) \<and> res' = Err (LeftoverData m) \<and> 0 < k \<and> k \<le> m)"

fun sees :: "bool \<Rightarrow> observation \<Rightarrow> observation \<Rightarrow> bool" where
  "sees exact (SawFinish res) ob \<longleftrightarrow> (case ob of SawFinish res' \<Rightarrow> tallies exact res res' | _ \<Rightarrow> False)"
| "sees exact ob ob' \<longleftrightarrow> ob = ob'"

lemma tallies_refl [simp]: "tallies exact res res" "tallies True res res' \<longleftrightarrow> res = res'"
  by (auto simp: tallies_def)

lemma tallies_obind: "tallies exact res res' \<Longrightarrow> tallies exact (obind res f) (obind res' f)"
  by (auto simp: tallies_def)

lemma sees_exact: "sees True ob ob' \<longleftrightarrow> ob = ob'"
  by (cases ob) (auto split: observation.splits)

fun stream_step :: "'s zlib \<Rightarrow> codec_env \<Rightarrow> stream_op \<Rightarrow> 's node_stream \<Rightarrow> observation \<times> 's node_stream" where
  "stream_step Z E OpOpen s = map_prod SawOpen id (stream_open Z E s)"
| "stream_step Z E OpNextChild s = map_prod SawChild id (next_child Z E s)"
| "stream_step Z E OpClose s = map_prod SawClose id (close Z E s)"
| "stream_step Z E OpFinish s = map_prod SawFinish id (finish Z E s)"

fun cur_step :: "codec_env \<Rightarrow> stream_op \<Rightarrow> cursor \<Rightarrow> observation \<times> cursor" where
  "cur_step E OpOpen c = map_prod SawOpen id (cur_open E c)"
| "cur_step E OpNextChild c = map_prod SawChild id (cur_child E c)"
| "cur_step E OpClose c = map_prod SawClose id (cur_close E c)"
| "cur_step E OpFinish c = map_prod SawFinish id (cur_finish E c)"

fun run :: "('op \<Rightarrow> 'st \<Rightarrow> 'ob \<times> 'st) \<Rightarrow> 'op list \<Rightarrow> 'st \<Rightarrow> 'ob list" where
  "run step [] s = []"
| "run step (op # ops) s = (case step op s of (ob, s') \<Rightarrow> ob # run step ops s')"

text \<open>The usual client: open the root, take its children one at a time, finish.\<close>

fun collect :: "('st \<Rightarrow> (binary_error, node option) outcome \<times> 'st) \<Rightarrow> nat \<Rightarrow> 'st \<Rightarrow> (binary_error, node list) outcome \<times> 'st" where
  "collect nxt 0 s = (Panic, s)"
| "collect nxt (Suc n) s =
     (case nxt s of
        (Ok None, s) \<Rightarrow> (Ok [], s)
      | (Ok (Some x), s) \<Rightarrow> map_prod (omap (\<lambda>xs. x # xs)) id (collect nxt n s)
      | (Err e, s) \<Rightarrow> (Err e, s)
      | (Panic, s) \<Rightarrow> (Panic, s))"

definition with_children :: "node_open \<Rightarrow> node list \<Rightarrow> node" where
  "with_children h ns = Node (open_tag h) (open_attrs h)
     (case open_content h of ONone \<Rightarrow> None | OScalar c \<Rightarrow> Some c | OChildren _ \<Rightarrow> Some (Nodes ns))"

definition read_tree :: "('st \<Rightarrow> (binary_error, node_open option) outcome \<times> 'st) \<Rightarrow> ('st \<Rightarrow> (binary_error, node option) outcome \<times> 'st) \<Rightarrow>
    ('st \<Rightarrow> (binary_error, unit) outcome \<times> 'st) \<Rightarrow> 'st \<Rightarrow> (binary_error, node) outcome" where
  "read_tree opn nxt fin s =
     (case opn s of
        (Ok None, s) \<Rightarrow> Err InvalidNode
      | (Err e, s) \<Rightarrow> Err e
      | (Panic, s) \<Rightarrow> Panic
      | (Ok (Some h), s) \<Rightarrow>
          (case collect nxt (Suc (child_count h)) s of
             (Err e, s) \<Rightarrow> Err e
           | (Panic, s) \<Rightarrow> Panic
           | (Ok ns, s) \<Rightarrow> obind (fst (fin s)) (\<lambda>_. Ok (with_children h ns))))"

text \<open>The contract of a source: what is available is the beginning of what is left, and can be made to
  cover any number of bytes there are.\<close>

locale window =
  fixes Z :: "'s zlib"
    and ok :: "'s source \<Rightarrow> bool"
    and rest :: "'s source \<Rightarrow> u8 list"
    and exact :: bool
  assumes available_prefix: "ok src \<Longrightarrow> \<exists>ys. rest src = source_available src @ ys"
    and consume_drops: "ok src \<Longrightarrow> n \<le> length (source_available src) \<Longrightarrow>
      ok (source_consume n src) \<and> rest (source_consume n src) = drop n (rest src)"
    and ensure_fills: "ok src \<Longrightarrow> \<exists>src'. source_ensure Z need src = (Ok (need \<le> length (rest src)), src') \<and> ok src' \<and>
      rest src' = rest src \<and> min need (length (rest src)) \<le> length (source_available src')"
    and end_checked: "ok src \<Longrightarrow> \<exists>res src'. check_end Z src = (res, src') \<and> ok src' \<and> rest src' = rest src \<and>
      tallies exact res (if rest src \<noteq> [] then Err (LeftoverData (length (rest src))) else Ok ())"
    and measurable: "ok src \<Longrightarrow> length (rest src) < 2 ^ 63"
begin

lemma grow_fills:
  assumes "ok src"
  obtains b src' where "source_grow Z (length (source_available src)) src = (Ok b, src')" "ok src'" "rest src' = rest src"
    "source_available src' = rest src \<or> 2 * max (length (source_available src)) 64 \<le> length (source_available src')"
    "b \<longleftrightarrow> source_available src \<noteq> rest src"
proof -
  let ?h = "length (source_available src)" and ?w = "min (max (length (source_available src)) 64 * 2) U64_MAX"
  from available_prefix [OF assms] obtain ys where ys: "rest src = source_available src @ ys" by blast
  have w: "?w = max ?h 64 * 2" using measurable [OF assms] ys by simp
  from ensure_fills [OF assms, of ?w] obtain src' where e: "source_ensure Z ?w src = (Ok (?w \<le> length (rest src)), src')"
    "ok src'" "rest src' = rest src" "min ?w (length (rest src)) \<le> length (source_available src')" by blast
  from available_prefix [OF e(2)] obtain zs where zs: "rest src = source_available src' @ zs" unfolding e(3) by blast
  have g: "source_grow Z ?h src = (Ok (?w \<le> length (rest src) \<or> ?h < length (source_available src')), src')"
    unfolding source_grow_def Let_def e(1) by simp
  have "source_available src' = rest src \<or> 2 * max ?h 64 \<le> length (source_available src')"
    using e(4) zs unfolding w by (cases zs) (auto simp: min_def split: if_splits)
  moreover have "(?w \<le> length (rest src) \<or> ?h < length (source_available src')) \<longleftrightarrow> source_available src \<noteq> rest src"
  proof -
    have l: "length (rest src) = ?h + length ys" "length (rest src) = length (source_available src') + length zs"
      by (simp add: ys, simp add: zs)
    have "source_available src \<noteq> rest src \<longleftrightarrow> 0 < length ys" using ys by auto
    then show ?thesis using e(4) l unfolding w by arith
  qed
  ultimately show thesis using that [OF g e(2,3)] by blast
qed

lemma decode_next_n_is:
  assumes "good_reader r"
  shows "ok src \<Longrightarrow> 1 \<le> n \<and> source_available src = rest src \<or>
      2 \<le> n \<and> length (rest src) < max (length (source_available src)) 64 * 2 ^ (n - 2) \<Longrightarrow>
    \<exists>src'. decode_next_n Z n r src = (omap (\<lambda>(v, d). (v, dec_position d)) (r (decoder_new (rest src))), src') \<and>
      ok src' \<and> rest src' = rest src \<and>
      (case r (decoder_new (rest src)) of Ok (v, d) \<Rightarrow> dec_position d \<le> length (source_available src') | _ \<Rightarrow> True)"
proof (induction n arbitrary: src)
  case (Suc n)
  note wr = wire_reader.intro [OF assms]
  let ?a = "source_available src"
  from available_prefix [OF Suc.prems(1)] obtain ys where ys: "rest src = ?a @ ys" by blast
  show ?case
  proof (cases "r (decoder_new ?a) = Err UnexpectedEof")
    case False
    have st: "r (decoder_new (rest src)) = omap (\<lambda>(x, d). (x, grow ys d)) (r (decoder_new ?a))"
      unfolding ys decoder_new_at by (rule wire_reader.stable [OF wr]) (use False in \<open>simp add: decoder_new_at\<close>)
    show ?thesis
    proof (cases "r (decoder_new ?a)")
      case (Ok v)
      obtain x d where v: "v = (x, d)" by (cases v)
      have "dec_position d \<le> length ?a"
        using wire_reader.stays_inside [OF wr, of "decoder_new ?a" x d] Ok v by (auto simp: decoder_new_def)
      then show ?thesis using Ok v Suc.prems(1) by (intro exI [of _ src]) (simp add: st grow_def)
    next
      case (Err e)
      then show ?thesis using False Suc.prems(1) by (intro exI [of _ src]) (simp add: st)
    next
      case Panic
      then show ?thesis using Suc.prems(1) by (intro exI [of _ src]) (simp add: st)
    qed
  next
    case True
    from grow_fills [OF Suc.prems(1)] obtain b src' where
      g: "source_grow Z (length ?a) src = (Ok b, src')" "ok src'" "rest src' = rest src"
        "source_available src' = rest src \<or> 2 * max (length ?a) 64 \<le> length (source_available src')"
        "b \<longleftrightarrow> ?a \<noteq> rest src" by metis
    show ?thesis
    proof (cases b)
      case False
      then have "r (decoder_new (rest src)) = Err UnexpectedEof" using True g(5) by simp
      then show ?thesis using True g(1,2,3) False by (intro exI [of _ src']) (simp add: Let_def)
    next
      case b: True
      then have n: "2 \<le> Suc n" "length (rest src) < max (length ?a) 64 * 2 ^ (Suc n - 2)" using Suc.prems(2) g(5) by auto
      have "1 \<le> n \<and> source_available src' = rest src' \<or>
        2 \<le> n \<and> length (rest src') < max (length (source_available src')) 64 * 2 ^ (n - 2)"
      proof (cases "source_available src' = rest src")
        case True
        then show ?thesis using n(1) g(3) by simp
      next
        case False
        then have w: "2 * max (length ?a) 64 \<le> length (source_available src')" using g(4) by simp
        have "n \<noteq> 1"
        proof
          assume "n = 1"
          with n(2) have "length (rest src) < max (length ?a) 64" by simp
          moreover from available_prefix [OF g(2)] obtain zs where "rest src = source_available src' @ zs" unfolding g(3) by blast
          ultimately show False using w by simp
        qed
        then obtain m where m: "n = Suc (Suc m)" using n(1) by (cases n; cases "n - 1") auto
        have "max (length ?a) 64 * 2 ^ (Suc n - 2) = 2 * max (length ?a) 64 * 2 ^ m" by (simp add: m)
        also have "\<dots> \<le> max (length (source_available src')) 64 * 2 ^ m" using w by (intro mult_le_mono1) simp
        finally have "length (rest src) < max (length (source_available src')) 64 * 2 ^ m" using n(2) by (rule less_le_trans [rotated])
        moreover have "n - 2 = m" "2 \<le> n" using m by simp_all
        ultimately show ?thesis unfolding g(3) by (intro disjI2 conjI) (assumption, simp only:)
      qed
      from Suc.IH [OF g(2) this] show ?thesis using True g(1,3) b by (simp add: Let_def)
    qed
  qed
qed simp

lemma settle_ok:
  assumes "stream_ok ok s"
  shows "stream_ok ok (settle s)" "ns_pending (settle s) = 0" "cursor_of rest (settle s) = cursor_of rest s"
  using assms consume_drops [of "ns_source s" "ns_pending s"] by (auto simp: stream_ok_def settle_def cursor_of_def)

lemma slot_ok:
  assumes "stream_ok ok s"
  obtains b s' where "take_slot s = (b, s')" "stream_ok ok s'" "ns_pending s' = 0" "cur_slot (cursor_of rest s) = (b, cursor_of rest s')"
    "b \<longrightarrow> ns_root_done s'"
proof -
  note st = settle_ok [OF assms]
  have "cur_slot (cursor_of rest (settle s)) = (fst (take_slot s), cursor_of rest (snd (take_slot s)))"
    "stream_ok ok (snd (take_slot s))" "ns_pending (snd (take_slot s)) = 0" "fst (take_slot s) \<Longrightarrow> ns_root_done (snd (take_slot s))"
    using st(1,2) by (auto simp add: take_slot_def cur_slot_def cursor_of_def stream_ok_def Let_def split: list.split)
  then show thesis using that [of "fst (take_slot s)" "snd (take_slot s)"] st(3) by simp
qed

lemma decode_next_ok:
  assumes "good_reader r" "stream_ok ok s" "ns_pending s = 0"
  obtains src where "decode_next Z r (ns_source s) =
      (omap (\<lambda>(v, d). (v, dec_position d)) (r (decoder_new (cur_bytes (cursor_of rest s)))), src)" "ok src" "rest src = rest (ns_source s)"
    "\<And>v d. r (decoder_new (cur_bytes (cursor_of rest s))) = Ok (v, d) \<Longrightarrow> dec_position d \<le> length (source_available src)"
proof -
  have ok: "ok (ns_source s)" using assms(2) by (simp add: stream_ok_def)
  have "length (rest (ns_source s)) < 64 * 2 ^ 62" using measurable [OF ok] by simp
  also have "\<dots> \<le> max (length (source_available (ns_source s))) 64 * 2 ^ (ROUNDS - 2)" by (intro mult_le_mono) simp_all
  finally have l: "length (rest (ns_source s)) < max (length (source_available (ns_source s))) 64 * 2 ^ (ROUNDS - 2)" .
  then have "1 \<le> ROUNDS \<and> source_available (ns_source s) = rest (ns_source s) \<or>
      2 \<le> ROUNDS \<and> length (rest (ns_source s)) < max (length (source_available (ns_source s))) 64 * 2 ^ (ROUNDS - 2)" by (intro disjI2 conjI) simp_all
  from decode_next_n_is [OF assms(1) ok this] obtain src where
    "decode_next_n Z ROUNDS r (ns_source s) = (omap (\<lambda>(v, d). (v, dec_position d)) (r (decoder_new (rest (ns_source s)))), src)"
    "ok src" "rest src = rest (ns_source s)"
    "case r (decoder_new (rest (ns_source s))) of Ok (v, d) \<Rightarrow> dec_position d \<le> length (source_available src) | _ \<Rightarrow> True" by blast
  then show thesis using assms(3) by (intro that [of src]) (auto simp: decode_next_def cursor_of_def)
qed

text \<open>A decoder run on the window does on the cursor what it does on all the bytes.\<close>

lemma decode_cases:
  assumes "good_reader r" "stream_ok ok s" "ns_pending s = 0" "ns_root_done s"
  obtains
    (Ok) v taken src where "decode_next Z r (ns_source s) = (Ok (v, taken), src)" "stream_ok ok (s\<lparr>ns_source := src, ns_pending := taken\<rparr>)"
      "cur_decode r (cursor_of rest s) = (Ok v, cursor_of rest (s\<lparr>ns_source := src, ns_pending := taken\<rparr>))"
  | (Err) e src where "decode_next Z r (ns_source s) = (Err e, src)" "stream_ok ok (s\<lparr>ns_source := src\<rparr>)"
      "cur_decode r (cursor_of rest s) = (Err e, cursor_of rest (s\<lparr>ns_source := src\<rparr>))"
  | (Panic) src where "decode_next Z r (ns_source s) = (Panic, src)" "stream_ok ok (s\<lparr>ns_source := src\<rparr>)"
      "cur_decode r (cursor_of rest s) = (Panic, cursor_of rest (s\<lparr>ns_source := src\<rparr>))"
proof -
  let ?o = "r (decoder_new (cur_bytes (cursor_of rest s)))"
  obtain src where d: "decode_next Z r (ns_source s) = (omap (\<lambda>(v, d). (v, dec_position d)) ?o, src)" "ok src"
    "rest src = rest (ns_source s)" "\<And>v d. ?o = Ok (v, d) \<Longrightarrow> dec_position d \<le> length (source_available src)"
    by (rule decode_next_ok [OF assms(1,2,3)]) (rule that)
  have same: "cursor_of rest (s\<lparr>ns_source := src\<rparr>) = cursor_of rest s" "stream_ok ok (s\<lparr>ns_source := src\<rparr>)"
    using assms(3,4) d(2,3) by (simp_all add: cursor_of_def stream_ok_def)
  show thesis
  proof (cases ?o)
    case (Ok vd)
    obtain v e where vd: "vd = (v, e)" by (cases vd)
    have "stream_ok ok (s\<lparr>ns_source := src, ns_pending := dec_position e\<rparr>)" using assms(4) d(2,4) Ok vd by (simp add: stream_ok_def)
    moreover have "cur_decode r (cursor_of rest s) = (Ok v, cursor_of rest (s\<lparr>ns_source := src, ns_pending := dec_position e\<rparr>))"
      unfolding cur_decode_def Ok vd using assms(3) d(3) by (simp add: cursor_of_def)
    ultimately show ?thesis using d(1) Ok vd by (intro that(1)) simp_all
  next
    case (Err e)
    show ?thesis by (rule that(2) [of e src]) (simp_all add: d(1) Err same cur_decode_def)
  next
    case Panic
    show ?thesis by (rule that(3) [of src]) (simp_all add: d(1) Panic same cur_decode_def)
  qed
qed

lemma implementsI:
  assumes "\<And>s. stream_ok ok s \<Longrightarrow> case f s of (res, s') \<Rightarrow> stream_ok ok s' \<and> g (cursor_of rest s) = (res, cursor_of rest s')"
  shows "implements ok rest f g"
  using assms unfolding implements_def by blast

lemma implements_open: "implements ok rest (stream_open Z E) (cur_open E)"
proof (rule implementsI)
  fix s assume "stream_ok ok s"
  then obtain b s' where t: "take_slot s = (b, s')" "stream_ok ok s'" "ns_pending s' = 0" "cur_slot (cursor_of rest s) = (b, cursor_of rest s')" "b \<longrightarrow> ns_root_done s'"
    by (rule slot_ok) (rule that)
  have l: "cur_levels (cursor_of rest s') = ns_levels s'" for s' by (simp add: cursor_of_def)
  show "case stream_open Z E s of (res, s') \<Rightarrow> stream_ok ok s' \<and> cur_open E (cursor_of rest s) = (res, cursor_of rest s')"
  proof (cases "b \<and> \<not> MAX_NODE_DEPTH \<le> length (ns_levels s')")
    case False
    then show ?thesis using t(2) unfolding stream_open_def cur_open_def t(1,4) by (cases b) (simp_all add: l)
  next
    case True
    from good_read_node_open [of E] t(2,3) t(5) [THEN mp, OF conjunct1 [OF True]] show ?thesis
    proof (cases rule: decode_cases)
      case (Ok v taken src)
      then show ?thesis using True t(5) unfolding stream_open_def cur_open_def t(1,4)
        by (simp add: l) (simp add: cursor_of_def stream_ok_def child_count_def)
    qed (use True in \<open>simp_all add: stream_open_def cur_open_def t l\<close>)
  qed
qed

lemma implements_child: "implements ok rest (next_child Z E) (cur_child E)"
proof (rule implementsI)
  fix s assume "stream_ok ok s"
  then obtain b s' where t: "take_slot s = (b, s')" "stream_ok ok s'" "ns_pending s' = 0" "cur_slot (cursor_of rest s) = (b, cursor_of rest s')" "b \<longrightarrow> ns_root_done s'"
    by (rule slot_ok) (rule that)
  have l: "cur_levels (cursor_of rest s') = ns_levels s'" by (simp add: cursor_of_def)
  show "case next_child Z E s of (res, s') \<Rightarrow> stream_ok ok s' \<and> cur_child E (cursor_of rest s) = (res, cursor_of rest s')"
  proof (cases b)
    case True
    from good_read_node_ref_at [of E "length (ns_levels s')"] t(2,3) t(5) [THEN mp, OF True] show ?thesis
      by (cases rule: decode_cases) (use True in \<open>simp_all add: next_child_def cur_child_def t l\<close>)
  qed (simp add: next_child_def cur_child_def t)
qed

lemma skip_node_ok:
  assumes "stream_ok ok s" "ns_pending s = 0" "ns_root_done s"
  obtains res s' where "skip_node Z E dep s = (res, s')" "stream_ok ok s'" "ns_pending s' = 0" "ns_root_done s'"
    "cur_decode (skip_node_at E dep) (cursor_of rest s) = (res, cursor_of rest s')" "ns_levels s' = ns_levels s"
proof -
  have k: "skip_next Z w src = (case decode_next Z w src of (res, src') \<Rightarrow> (omap snd res, src'))" for w src
    unfolding skip_next_def decode_next_def by (rule skip_next_n_is)
  from good_skip_node_at [of E dep] assms show thesis
  proof (cases rule: decode_cases)
    case (Ok v taken src)
    let ?s = "s\<lparr>ns_source := source_consume taken src, ns_consumed := ns_consumed s + taken\<rparr>"
    have c: "ok (source_consume taken src)" "rest (source_consume taken src) = drop taken (rest src)"
      using Ok(2) consume_drops [of src taken] by (simp_all add: stream_ok_def)
    have "skip_node Z E dep s = (Ok (), ?s)" unfolding skip_node_def k Ok(1) by simp
    moreover have "cursor_of rest ?s = cursor_of rest (s\<lparr>ns_source := src, ns_pending := taken\<rparr>)" using c assms(2) by (simp add: cursor_of_def)
    moreover have "stream_ok ok ?s" "ns_pending ?s = 0" "ns_levels ?s = ns_levels s" "ns_root_done ?s" using c assms(2,3) by (simp_all add: stream_ok_def)
    ultimately show thesis using Ok(3) that by simp
  next
    case (Err e src)
    show thesis by (rule that [of "Err e" "s\<lparr>ns_source := src\<rparr>"]) (simp_all add: skip_node_def k Err assms(2,3))
  next
    case (Panic src)
    show thesis by (rule that [of Panic "s\<lparr>ns_source := src\<rparr>"]) (simp_all add: skip_node_def k Panic assms(2,3))
  qed
qed

lemma skip_rest_ok:
  assumes "stream_ok ok s" "ns_pending s = 0" "ns_root_done s"
  obtains res s' where "skip_rest Z E n s = (res, s')" "stream_ok ok s'" "ns_pending s' = 0" "ns_root_done s'"
    "cur_skip E n (cursor_of rest s) = (res, cursor_of rest s')"
proof -
  from assms have "\<exists>res s'. skip_rest Z E n s = (res, s') \<and> stream_ok ok s' \<and> ns_pending s' = 0 \<and> ns_root_done s' \<and>
      cur_skip E n (cursor_of rest s) = (res, cursor_of rest s')"
  proof (induction n arbitrary: s)
    case (Suc n)
    obtain res s' where k: "skip_node Z E (length (ns_levels s)) s = (res, s')" "stream_ok ok s'" "ns_pending s' = 0" "ns_root_done s'"
      "cur_decode (skip_node_at E (length (ns_levels s))) (cursor_of rest s) = (res, cursor_of rest s')"
      by (rule skip_node_ok [OF Suc.prems]) (rule that)
    have l: "cur_levels (cursor_of rest s) = ns_levels s" by (simp add: cursor_of_def)
    show ?case by (cases res) (simp_all add: k l Suc.IH)
  qed simp
  then show thesis using that by blast
qed

lemma implements_close: "implements ok rest (close Z E) (cur_close E)"
proof (rule implementsI)
  fix s assume s: "stream_ok ok s"
  have l: "cur_levels (cursor_of rest s) = ns_levels s" for s by (simp add: cursor_of_def)
  have ls: "ns_levels (settle s) = ns_levels s" "ns_root_done (settle s) = ns_root_done s" by (simp_all add: settle_def)
  show "case close Z E s of (res, s') \<Rightarrow> stream_ok ok s' \<and> cur_close E (cursor_of rest s) = (res, cursor_of rest s')"
  proof (cases "ns_levels s")
    case Nil
    then show ?thesis using settle_ok(1,3) [OF s] by (simp add: close_def cur_close_def l ls Let_def)
  next
    case (Cons level outer)
    then have r: "ns_root_done (settle s)" using s by (simp add: stream_ok_def ls)
    obtain res s' where k: "skip_rest Z E level (settle s) = (res, s')" "stream_ok ok s'" "ns_pending s' = 0" "ns_root_done s'"
      "cur_skip E level (cursor_of rest s) = (res, cursor_of rest s')"
      by (rule skip_rest_ok [OF settle_ok(1,2) [OF s] r, unfolded settle_ok(3) [OF s]]) (rule that)
    have t: "(cursor_of rest s')\<lparr>cur_levels := x\<rparr> = cursor_of rest (s'\<lparr>ns_levels := x\<rparr>)" "stream_ok ok (s'\<lparr>ns_levels := x\<rparr>)" for x
      using k(2,4) by (simp_all add: cursor_of_def stream_ok_def)
    show ?thesis using Cons k t by (cases res) (simp_all add: close_def cur_close_def l ls Let_def)
  qed
qed

lemma implementsE:
  assumes "implements ok rest f g" "stream_ok ok s"
  obtains res s' where "f s = (res, s')" "stream_ok ok s'" "g (cursor_of rest s) = (res, cursor_of rest s')"
  using assms unfolding implements_def by (cases "f s") auto

lemma implements_close_all: "implements ok rest (close_all Z E n) (cur_close_all E n)"
proof (induction n)
  case 0
  then show ?case by (intro implementsI) (simp add: cursor_of_def)
next
  case (Suc n)
  show ?case
  proof (rule implementsI)
    fix s assume s: "stream_ok ok s"
    obtain res s' where k: "close Z E s = (res, s')" "stream_ok ok s'" "cur_close E (cursor_of rest s) = (res, cursor_of rest s')"
      by (rule implementsE [OF implements_close s]) (rule that)
    obtain res' s'' where c: "close_all Z E n s' = (res', s'')" "stream_ok ok s''" "cur_close_all E n (cursor_of rest s') = (res', cursor_of rest s'')"
      by (rule implementsE [OF Suc.IH k(2)]) (rule that)
    have l: "cur_levels (cursor_of rest s) = ns_levels s" by (simp add: cursor_of_def)
    show "case close_all Z E (Suc n) s of (res, s') \<Rightarrow> stream_ok ok s' \<and> cur_close_all E (Suc n) (cursor_of rest s) = (res, cursor_of rest s')"
      using s k c by (cases res) (simp_all add: l)
  qed
qed

lemma finish_ok:
  assumes s: "stream_ok ok s"
  obtains res s' res' where "finish Z E s = (res, s')" "stream_ok ok s'" "cur_finish E (cursor_of rest s) = (res', cursor_of rest s')"
    "tallies exact res res'"
proof -
  have l: "cur_levels (cursor_of rest s) = ns_levels s" "cur_root_done (cursor_of rest s) = ns_root_done s" for s by (simp_all add: cursor_of_def)
  obtain res s1 where c: "close_all Z E (length (ns_levels s)) s = (res, s1)" "stream_ok ok s1"
    "cur_close_all E (length (ns_levels s)) (cursor_of rest s) = (res, cursor_of rest s1)"
    by (rule implementsE [OF implements_close_all s]) (rule that)
  let ?g = "\<exists>res s' res'. finish Z E s = (res, s') \<and> stream_ok ok s' \<and> cur_finish E (cursor_of rest s) = (res', cursor_of rest s') \<and> tallies exact res res'"
  have last: ?g if "res = Ok ()" "stream_ok ok s2" "cursor_of rest s2 = c2" 
    "(if ns_root_done s1 then (Ok (), s1) else skip_node Z E 0 (s1\<lparr>ns_root_done := True\<rparr>)) = (Ok (), s2)"
    "(if cur_root_done (cursor_of rest s1) then (Ok (), cursor_of rest s1) else cur_decode (skip_node_at E 0) ((cursor_of rest s1)\<lparr>cur_root_done := True\<rparr>)) = (Ok (), c2)" for s2 c2
  proof -
    note st = settle_ok [OF that(2)]
    from st(1) have "ok (ns_source (settle s2))" by (simp add: stream_ok_def)
    from end_checked [OF this] obtain r src where e: "check_end Z (ns_source (settle s2)) = (r, src)" "ok src" "rest src = rest (ns_source (settle s2))"
      "tallies exact r (if rest (ns_source (settle s2)) \<noteq> [] then Err (LeftoverData (length (rest (ns_source (settle s2))))) else Ok ())" by blast
    have k: "cursor_of rest ((settle s2)\<lparr>ns_source := src\<rparr>) = c2" "stream_ok ok ((settle s2)\<lparr>ns_source := src\<rparr>)"
      "rest (ns_source (settle s2)) = cur_bytes c2"
      using e(2,3) st that(3) by (auto simp: cursor_of_def stream_ok_def)
    have "finish Z E s = (r, (settle s2)\<lparr>ns_source := src\<rparr>)"
      "cur_finish E (cursor_of rest s) = (if cur_bytes c2 \<noteq> [] then Err (LeftoverData (length (cur_bytes c2))) else Ok (), c2)"
      unfolding finish_def cur_finish_def l c that(1) using that(4,5) e(1) by (simp_all add: Let_def)
    then show ?thesis using k(1,2) e(4) [unfolded k(3)] by blast
  qed
  have ?g
  proof (cases "res = Ok () \<and> \<not> ns_root_done s1")
    case True
    let ?s = "s1\<lparr>ns_root_done := True\<rparr>"
    have o: "stream_ok ok ?s" "ns_pending ?s = 0" "ns_root_done ?s" "(cursor_of rest s1)\<lparr>cur_root_done := True\<rparr> = cursor_of rest ?s"
      using True c(2) by (simp_all add: stream_ok_def cursor_of_def)
    obtain res' s2 where k: "skip_node Z E 0 ?s = (res', s2)" "stream_ok ok s2" "ns_pending s2 = 0" "ns_root_done s2"
      "cur_decode (skip_node_at E 0) (cursor_of rest ?s) = (res', cursor_of rest s2)"
      by (rule skip_node_ok [OF o(1,2,3)]) (rule that)
    show ?thesis
    proof (cases res')
      case (Ok u)
      then show ?thesis using True k o(4) by (intro last [OF _ k(2) refl]) (simp_all add: l)
    qed (use True k o(4) in \<open>simp_all add: finish_def cur_finish_def l c\<close>)
  next
    case False
    show ?thesis
    proof (cases res)
      case (Ok u)
      then show ?thesis using False c(2) by (intro last [OF _ c(2) refl]) (simp_all add: l)
    qed (use c in \<open>simp_all add: finish_def cur_finish_def l\<close>)
  qed
  then show thesis using that by blast
qed

lemma step_ok:
  assumes s: "stream_ok ok s"
  obtains ob s' ob' where "stream_step Z E op s = (ob, s')" "stream_ok ok s'" "cur_step E op (cursor_of rest s) = (ob', cursor_of rest s')"
    "sees exact ob ob'"
proof -
  have "\<exists>ob s' ob'. stream_step Z E op s = (ob, s') \<and> stream_ok ok s' \<and> cur_step E op (cursor_of rest s) = (ob', cursor_of rest s') \<and> sees exact ob ob'"
  proof (cases op)
    case OpOpen
    show ?thesis by (rule implementsE [OF implements_open [of E] s]) (simp add: OpOpen)
  next
    case OpNextChild
    show ?thesis by (rule implementsE [OF implements_child [of E] s]) (simp add: OpNextChild)
  next
    case OpClose
    show ?thesis by (rule implementsE [OF implements_close [of E] s]) (simp add: OpClose)
  next
    case OpFinish
    show ?thesis by (rule finish_ok [OF s, of E]) (simp add: OpFinish)
  qed
  then show thesis using that by blast
qed

lemma run_refines: "stream_ok ok s \<Longrightarrow> list_all2 (sees exact) (run (stream_step Z E) ops s) (run (cur_step E) ops (cursor_of rest s))"
proof (induction ops arbitrary: s)
  case (Cons op ops)
  obtain ob s' ob' where "stream_step Z E op s = (ob, s')" "stream_ok ok s'" "cur_step E op (cursor_of rest s) = (ob', cursor_of rest s')"
    "sees exact ob ob'" by (rule step_ok [OF Cons.prems]) (rule that)
  then show ?case using Cons.IH by simp
qed simp

lemma implements_collect: "implements ok rest f g \<Longrightarrow> implements ok rest (collect f n) (collect g n)"
proof (induction n)
  case 0
  then show ?case by (intro implementsI) simp
next
  case (Suc n)
  show ?case
  proof (rule implementsI)
    fix s assume s: "stream_ok ok s"
    obtain res s' where k: "f s = (res, s')" "stream_ok ok s'" "g (cursor_of rest s) = (res, cursor_of rest s')"
      by (rule implementsE [OF Suc.prems s]) (rule that)
    obtain res' s'' where c: "collect f n s' = (res', s'')" "stream_ok ok s''" "collect g n (cursor_of rest s') = (res', cursor_of rest s'')"
      by (rule implementsE [OF Suc.IH [OF Suc.prems] k(2)]) (rule that)
    show "case collect f (Suc n) s of (res, s') \<Rightarrow> stream_ok ok s' \<and> collect g (Suc n) (cursor_of rest s) = (res, cursor_of rest s')"
      using k c by (simp split: outcome.split option.split)
  qed
qed

lemma read_tree_refines:
  assumes "stream_ok ok s"
  shows "tallies exact (read_tree (stream_open Z E) (next_child Z E) (finish Z E) s)
    (read_tree (cur_open E) (cur_child E) (cur_finish E) (cursor_of rest s))"
proof -
  obtain res s' where o: "stream_open Z E s = (res, s')" "stream_ok ok s'" "cur_open E (cursor_of rest s) = (res, cursor_of rest s')"
    by (rule implementsE [OF implements_open assms]) (rule that)
  show ?thesis
  proof (cases "\<exists>h. res = Ok (Some h)")
    case True
    then obtain h where h: "res = Ok (Some h)" by blast
    obtain res' s'' where c: "collect (next_child Z E) (Suc (child_count h)) s' = (res', s'')" "stream_ok ok s''"
      "collect (cur_child E) (Suc (child_count h)) (cursor_of rest s') = (res', cursor_of rest s'')"
      by (rule implementsE [OF implements_collect [OF implements_child] o(2)]) (rule that)
    have "tallies exact (fst (finish Z E s'')) (fst (cur_finish E (cursor_of rest s'')))"
      by (rule finish_ok [OF c(2), of E]) simp
    then have "tallies exact (obind (fst (finish Z E s'')) (\<lambda>_. Ok x)) (obind (fst (cur_finish E (cursor_of rest s''))) (\<lambda>_. Ok x))" for x :: node
      by (rule tallies_obind)
    then show ?thesis by (simp add: read_tree_def o h c del: collect.simps split: outcome.split)
  qed (use o in \<open>auto simp: read_tree_def split: outcome.split option.split\<close>)
qed

end

text \<open>Bytes in memory.\<close>

fun plain_ok :: "'s source \<Rightarrow> bool" where
  "plain_ok (Plain data pos) \<longleftrightarrow> pos \<le> length data \<and> length data < 2 ^ 63"
| "plain_ok (Inflating r) \<longleftrightarrow> False"

interpretation plain_window: window Z plain_ok source_available True for Z
proof
  fix src :: "'a source" and n need
  assume "plain_ok src"
  then obtain data pos where src: "src = Plain data pos" "pos \<le> length data" "length data < 2 ^ 63" by (cases src) auto
  show "\<exists>ys. source_available src = source_available src @ ys" by simp
  show "plain_ok (source_consume n src) \<and> source_available (source_consume n src) = drop n (source_available src)"
    if "n \<le> length (source_available src)"
    using that src by (auto simp: source_consume_def source_available_def add.commute)
  show "\<exists>src'. source_ensure Z need src = (Ok (need \<le> length (source_available src)), src') \<and> plain_ok src' \<and>
      source_available src' = source_available src \<and> min need (length (source_available src)) \<le> length (source_available src')"
    using src by (simp add: source_ensure_def source_available_def)
  show "\<exists>res src'. check_end Z src = (res, src') \<and> plain_ok src' \<and> source_available src' = source_available src \<and>
      tallies True res (if source_available src \<noteq> [] then Err (LeftoverData (length (source_available src))) else Ok ())"
    using src by (auto simp: check_end_def source_available_def)
  show "length (source_available src) < 2 ^ 63" using src(3) by (simp add: src(1) source_available_def)
qed

text \<open>A reader over a complete zlib stream.\<close>

fun inflating_ok :: "'s zlib \<Rightarrow> ('s \<Rightarrow> bool) \<Rightarrow> u8 list \<Rightarrow> u8 list \<Rightarrow> 's source \<Rightarrow> bool" where
  "inflating_ok Z R c D (Inflating r) \<longleftrightarrow> reading Z R c D r"
| "inflating_ok Z R c D (Plain data pos) \<longleftrightarrow> False"

fun inflating_rest :: "u8 list \<Rightarrow> 's source \<Rightarrow> u8 list" where
  "inflating_rest D (Inflating r) = undelivered D r"
| "inflating_rest D (Plain data pos) = []"

lemma inflating_window:
  assumes "zlib_sane Z" "inflates Z R c D" "length D < 2 ^ 62"
  shows "window Z (inflating_ok Z R c D) (inflating_rest D) False"
proof
  fix src n need
  assume "inflating_ok Z R c D src"
  then obtain r where src: "src = Inflating r" "reading Z R c D r" by (cases src) auto
  show "\<exists>ys. inflating_rest D src = source_available src @ ys" by (simp add: src undelivered_def source_available_def)
  show "inflating_ok Z R c D (source_consume n src) \<and> inflating_rest D (source_consume n src) = drop n (inflating_rest D src)"
    if "n \<le> length (source_available src)"
    using that reading_consume [OF src(2), of n] by (simp add: src(1) source_available_def source_consume_def)
  show "\<exists>src'. source_ensure Z need src = (Ok (need \<le> length (inflating_rest D src)), src') \<and> inflating_ok Z R c D src' \<and>
      inflating_rest D src' = inflating_rest D src \<and> min need (length (inflating_rest D src)) \<le> length (source_available src')"
  proof (rule ensure_reading [OF assms(1,2) src(2), of need])
    fix r' assume "ensure Z need r = (Ok (need \<le> length (undelivered D r)), r')" "reading Z R c D r'"
      "undelivered D r' = undelivered D r" "min need (length (undelivered D r)) \<le> length (ir_available r')"
    then show ?thesis by (intro exI [of _ "Inflating r'"]) (simp add: src(1) source_ensure_def source_available_def)
  qed
  show "\<exists>res src'. check_end Z src = (res, src') \<and> inflating_ok Z R c D src' \<and> inflating_rest D src' = inflating_rest D src \<and>
      tallies False res (if inflating_rest D src \<noteq> [] then Err (LeftoverData (length (inflating_rest D src))) else Ok ())"
  proof (rule ensure_reading [OF assms(1,2) src(2), of 1])
    fix r' assume e: "ensure Z 1 r = (Ok (1 \<le> length (undelivered D r)), r')" "reading Z R c D r'" "undelivered D r' = undelivered D r"
      "min 1 (length (undelivered D r)) \<le> length (ir_available r')"
    show ?thesis
    proof (cases "undelivered D r")
      case Nil
      have "ir_eof r'" using ensure_sane [OF assms(1), of r 1] e(1) Nil src(2) by (simp add: reading_def)
      then have "stream_ended r'" using e(2) by (simp add: reading_def stream_ended_def)
      then show ?thesis using e Nil by (simp add: src(1) check_end_def)
    next
      case (Cons x xs)
      moreover have "length (ir_available r') \<le> length (undelivered D r')" by (simp add: undelivered_def)
      ultimately show ?thesis using e by (auto simp: src(1) check_end_def tallies_def)
    qed
  qed
  have "length (inflating_rest D src) \<le> length D + length D" using src(2) by (auto simp: src(1) undelivered_def reading_def ir_available_def)
  then show "length (inflating_rest D src) < 2 ^ 63" using assms(3) by simp
qed

section \<open>The cursor decodes the tree\<close>

lemma collect_children:
  fixes c :: cursor
  assumes "cur_levels c = k # ls"
  shows "case rrep k (read_node_ref_at E (Suc (length ls))) (decoder_new (cur_bytes c)) of
      Ok (ns, d) \<Rightarrow> collect (cur_child E) (Suc k) c = (Ok ns, c\<lparr>cur_bytes := drop (dec_position d) (cur_bytes c), cur_levels := 0 # ls\<rparr>)
    | Err e \<Rightarrow> fst (collect (cur_child E) (Suc k) c) = Err e
    | Panic \<Rightarrow> fst (collect (cur_child E) (Suc k) c) = Panic"
  using assms
proof (induction k arbitrary: c)
  case 0
  then show ?case by (simp add: rpure_def cur_child_def cur_slot_def decoder_new_def) 
next
  case (Suc k)
  let ?r = "read_node_ref_at E (Suc (length ls))"
  let ?c = "c\<lparr>cur_levels := k # ls\<rparr>"
  have s: "cur_slot c = (True, ?c)" using Suc.prems by (simp add: cur_slot_def)
  show ?case
  proof (cases "?r (at [] (cur_bytes c))")
    case (Ok v)
    obtain x d where v: "v = (x, d)" by (cases v)
    obtain us vs where u: "cur_bytes c = us @ vs" "d = at us vs"
      using good_OkE [OF good_read_node_ref_at Ok [unfolded v]] by (metis append_Nil)
    let ?c' = "c\<lparr>cur_bytes := vs, cur_levels := k # ls\<rparr>"
    have d: "cur_child E c = (Ok (Some x), ?c')"
      using Ok v u by (simp add: cur_child_def s cur_decode_def decoder_new_at at_def)
    have g: "good_reader (rrep k ?r)" by (intro good_rrep good_read_node_ref_at)
    from Suc.IH [of ?c'] have IH: "case rrep k ?r (at [] vs) of
        Ok (ns, d) \<Rightarrow> collect (cur_child E) (Suc k) ?c' = (Ok ns, c\<lparr>cur_bytes := drop (dec_position d) vs, cur_levels := 0 # ls\<rparr>)
      | Err e \<Rightarrow> fst (collect (cur_child E) (Suc k) ?c') = Err e
      | Panic \<Rightarrow> fst (collect (cur_child E) (Suc k) ?c') = Panic" by (simp add: decoder_new_at del: collect.simps split: outcome.splits prod.splits)
    have r: "rrep (Suc k) ?r (decoder_new (cur_bytes c)) = obind (rrep k ?r (at us vs)) (\<lambda>(ns, d). Ok (x # ns, d))"
      using Ok v u by (simp add: rbind_def decoder_new_at rpure_def)
    have l: "collect (cur_child E) (Suc (Suc k)) c = map_prod (omap (\<lambda>xs. x # xs)) id (collect (cur_child E) (Suc k) ?c')"
      by (subst collect.simps(2)) (simp only: d prod.case outcome.case option.case)
    show ?thesis
    proof (cases "rrep k ?r (at [] vs)")
      case (Ok w)
      obtain ns e where w: "w = (ns, e)" by (cases w)
      obtain us' vs' where u': "vs = us' @ vs'" "e = at us' vs'" "\<And>pre' ys. rrep k ?r (at pre' (us' @ ys)) = Ok (ns, at (pre' @ us') ys)"
        using good_OkE [OF g Ok [unfolded w]] by (metis append_Nil)
      show ?thesis unfolding r l using IH Ok w u u' by (simp add: at_def del: collect.simps)
    next
      case (Err e)
      then show ?thesis unfolding r l using IH good_Err(1) [OF g Err, of us] by (simp del: collect.simps)
    next
      case Panic
      then show ?thesis unfolding r l using IH good_Panic [OF g Panic, of us "[]"] by (simp del: collect.simps)
    qed
  next
    case (Err e)
    then show ?thesis by (simp add: cur_child_def s cur_decode_def decoder_new_at rbind_def)
  next
    case Panic
    then show ?thesis by (simp add: cur_child_def s cur_decode_def decoder_new_at rbind_def)
  qed
qed

lemma finish_at_end:
  "cur_finish E \<lparr>cur_bytes = bs, cur_levels = [0], cur_root_done = True\<rparr> =
    (if bs \<noteq> [] then Err (LeftoverData (length bs)) else Ok (), \<lparr>cur_bytes = bs, cur_levels = [], cur_root_done = True\<rparr>)"
  by (simp add: cur_finish_def cur_close_def)

lemma cur_tree: "read_tree (cur_open E) (cur_child E) (cur_finish E) \<lparr>cur_bytes = bs, cur_levels = [], cur_root_done = False\<rparr> = unmarshal_ref E bs"
proof (cases "read_node_open E (at [] bs)")
  case (Ok v)
  obtain h d where v: "v = (h, d)" by (cases v)
  obtain us vs where u: "bs = us @ vs" "d = at us vs" using good_OkE [OF good_read_node_open Ok [unfolded v]] by (metis append_Nil)
  let ?c = "\<lparr>cur_bytes = vs, cur_levels = [child_count h], cur_root_done = True\<rparr>"
  let ?k = "child_count h"
  let ?rr = "rrep ?k (read_node_ref_at E 1)"
  have o: "cur_open E \<lparr>cur_bytes = bs, cur_levels = [], cur_root_done = False\<rparr> = (Ok (Some h), ?c)"
    using Ok v u by (simp add: cur_open_def cur_slot_def cur_decode_def decoder_new_at at_def)
  have g: "good_reader ?rr" by (intro good_rrep good_read_node_ref_at)
  have um: "unmarshal_ref E bs = obind (?rr (at us vs)) (\<lambda>(ns, d). if is_finished d then Ok (with_children h ns) else Err (LeftoverData (bytes_left d)))"
    using Ok v u by (cases "open_content h"; cases "?rr (at us vs)")
      (auto simp: unmarshal_ref_def read_node_ref_def read_node_ref_at.simps [of E 0] rbind_def decoder_new_at rpure_def rmap_def
        with_children_def child_count_def)
  from collect_children [of ?c ?k "[]" E]
  have cc: "case ?rr (at [] vs) of
      Ok (ns, d) \<Rightarrow> collect (cur_child E) (Suc ?k) ?c = (Ok ns, ?c\<lparr>cur_bytes := drop (dec_position d) vs, cur_levels := [0]\<rparr>)
    | Err e \<Rightarrow> fst (collect (cur_child E) (Suc ?k) ?c) = Err e
    | Panic \<Rightarrow> fst (collect (cur_child E) (Suc ?k) ?c) = Panic" by (simp add: decoder_new_at del: collect.simps split: outcome.splits prod.splits)
  show ?thesis
  proof (cases "?rr (at [] vs)")
    case (Ok w)
    obtain ns e where w: "w = (ns, e)" by (cases w)
    obtain us' vs' where u': "vs = us' @ vs'" "e = at us' vs'" "\<And>pre' ys. ?rr (at pre' (us' @ ys)) = Ok (ns, at (pre' @ us') ys)"
      using good_OkE [OF g Ok [unfolded w]] by (metis append_Nil)
    have "collect (cur_child E) (Suc ?k) ?c = (Ok ns, \<lparr>cur_bytes = vs', cur_levels = [0], cur_root_done = True\<rparr>)"
      using cc u'(1,2) Ok w by (simp add: at_def del: collect.simps)
    then have "read_tree (cur_open E) (cur_child E) (cur_finish E) \<lparr>cur_bytes = bs, cur_levels = [], cur_root_done = False\<rparr> =
        (if vs' \<noteq> [] then Err (LeftoverData (length vs')) else Ok (with_children h ns))"
      by (simp add: read_tree_def o finish_at_end del: collect.simps)
    moreover have "?rr (at us vs) = Ok (ns, at (us @ us') vs')" unfolding u'(1) by (rule u'(3))
    ultimately show ?thesis unfolding um by (simp add: is_finished_def at_def bytes_left_def)
  next
    case (Err e)
    then show ?thesis using cc good_Err(1) [OF g Err, of us]
      by (cases "collect (cur_child E) (Suc ?k) ?c") (simp add: um read_tree_def o del: collect.simps)
  next
    case Panic
    then show ?thesis using cc good_Panic [OF g Panic, of us "[]"]
      by (cases "collect (cur_child E) (Suc ?k) ?c") (simp add: um read_tree_def o del: collect.simps)
  qed
qed (simp_all add: read_tree_def cur_open_def cur_slot_def cur_decode_def decoder_new_at unmarshal_ref_def read_node_ref_def
    read_node_ref_at.simps [of E 0] rbind_def)

section \<open>Main results\<close>

lemma open_compressed:
  assumes "zlib_sane Z" "inflates Z R c D" "length D \<le> MAX_DECOMPRESSED_SIZE" "fmt AND FORMAT_COMPRESSED \<noteq> 0"
  obtains s p' where "from_packed Z (fmt # c) p = (Ok s, p')" "stream_ok (inflating_ok Z R c D) s"
    "cursor_of (inflating_rest D) s = \<lparr>cur_bytes = D, cur_levels = [], cur_root_done = False\<rparr>" 
proof -
  obtain r p' where r: "with_chunk Z c MAX_DECOMPRESSED_SIZE FRAME_INFLATE_CHUNK p = (r, p')" by (rule prod.exhaust)
  from reading_start [OF assms(1-3), of FRAME_INFLATE_CHUNK p] r have "reading Z R c D r" "undelivered D r = D" by simp_all
  then show thesis using assms(4) r
    by (intro that [of "with_source (Inflating r)" p']) (simp_all add: from_packed_def with_source_def stream_ok_def cursor_of_def)
qed

lemma unpack_compressed:
  assumes "zlib_sane Z" "inflates Z R c D" "length D \<le> MAX_DECOMPRESSED_SIZE" "fmt AND FORMAT_COMPRESSED \<noteq> 0"
  shows "fst (unpack_bytes Z (fmt # c) p) = Ok D"
  using decompress_complete [OF assms(1,2), of MAX_DECOMPRESSED_SIZE p] assms(3,4)
  by (auto simp: unpack_bytes_def decompress_zlib_def word_gt_0 split: prod.splits outcome.splits)

lemma open_plain:
  assumes "length D < 2 ^ 63"
  shows "stream_ok plain_ok (from_node_bytes D)"
    "cursor_of source_available (from_node_bytes D) = \<lparr>cur_bytes = D, cur_levels = [], cur_root_done = False\<rparr>"
  using assms by (simp_all add: from_node_bytes_def with_source_def stream_ok_def cursor_of_def source_available_def)

text \<open>C8. A compressed frame is read like a plain one. Let the payload of a frame be a complete zlib
  stream of at most 16 MiB of node bytes. Then any sequence of calls of \<open>open\<close>, \<open>next_child\<close>, \<open>close\<close>
  and \<open>finish\<close> on the stream over the compressed frame, which inflates a window of bytes at a time, shows the caller
  the same nodes and the same errors at the same calls as the abstract cursor over all the bytes. The one
  difference is the number in the leftover error of \<open>finish\<close>, which is at least one and at most the number of
  the cursor. The stream over the node bytes in memory shows exactly what the cursor does, the number included.\<close>

theorem stream_forms_agree:
  assumes "zlib_sane Z" "inflates Z R c D" "length D \<le> MAX_DECOMPRESSED_SIZE" "fmt AND FORMAT_COMPRESSED \<noteq> 0"
  shows "\<exists>s. fst (from_packed Z (fmt # c) p) = Ok s \<and>
    list_all2 (sees False) (run (stream_step Z E) ops s) (run (cur_step E) ops \<lparr>cur_bytes = D, cur_levels = [], cur_root_done = False\<rparr>) \<and>
    run (stream_step Z E) ops (from_node_bytes D) = run (cur_step E) ops \<lparr>cur_bytes = D, cur_levels = [], cur_root_done = False\<rparr>"
proof -
  obtain s p' where s: "from_packed Z (fmt # c) p = (Ok s, p')" "stream_ok (inflating_ok Z R c D) s"
    "cursor_of (inflating_rest D) s = \<lparr>cur_bytes = D, cur_levels = [], cur_root_done = False\<rparr>"
    by (rule open_compressed [OF assms]) (rule that)
  have l: "length D < 2 ^ 62" "length D < 2 ^ 63" using assms(3) by simp_all
  show ?thesis using window.run_refines [OF inflating_window [OF assms(1,2) l(1)] s(2), of E ops] s
      plain_window.run_refines [OF open_plain(1) [OF l(2)], of Z E ops, unfolded open_plain(2) [OF l(2)]]
    by (simp add: sees_exact list_all2_eq [symmetric] cong: list.rel_cong)
qed

text \<open>C9. Streaming gives the tree that decoding at once gives: opening the root, taking its children one at a
  time until there are none, and finishing yields for any node bytes in memory exactly the tree, or the error, of
  \<open>unmarshal_ref\<close>. For a compressed frame that is a complete zlib stream of at most 16 MiB it
  yields the tree or the error of \<open>unpack_bytes\<close> followed by \<open>unmarshal_ref\<close>, up to the number in a leftover
  error, which is at least one and at most the right one. Truncated, corrupt and larger streams are not covered.\<close>

theorem stream_tree_exact:
  assumes "zlib_sane Z" "inflates Z R c D" "length D \<le> MAX_DECOMPRESSED_SIZE" "fmt AND FORMAT_COMPRESSED \<noteq> 0" "length B < 2 ^ 63"
  shows "read_tree (stream_open Z E) (next_child Z E) (finish Z E) (from_node_bytes B) = unmarshal_ref E B \<and>
    (\<exists>s. fst (from_packed Z (fmt # c) p) = Ok s \<and>
      tallies False (read_tree (stream_open Z E) (next_child Z E) (finish Z E) s)
        (obind (fst (unpack_bytes Z (fmt # c) p)) (unmarshal_ref E)))"
proof -
  obtain s p' where s: "from_packed Z (fmt # c) p = (Ok s, p')" "stream_ok (inflating_ok Z R c D) s"
    "cursor_of (inflating_rest D) s = \<lparr>cur_bytes = D, cur_levels = [], cur_root_done = False\<rparr>"
    by (rule open_compressed [OF assms(1-4)]) (rule that)
  have l: "length D < 2 ^ 62" using assms(3) by simp
  from window.read_tree_refines [OF inflating_window [OF assms(1,2) l] s(2), of E] s
    plain_window.read_tree_refines [OF open_plain(1) [OF assms(5)], of Z E, unfolded open_plain(2) [OF assms(5)]]
  show ?thesis using unpack_compressed [OF assms(1-4), of p] by (simp add: cur_tree)
qed

text \<open>The sample frame, compressed.\<close>

lemma stored_sample:
  obtains R where "inflates stored_zlib R (sample_frame @ [0]) sample_frame"
  using stored_inflates by blast

lemma sample_tree: "unmarshal_ref sample_env sample_frame = Ok sample_node"
  by (simp add: unmarshal_ref_def sample_decoded is_finished_def)

theorem stream_forms_agree_witness:
  "\<exists>s. fst (from_packed stored_zlib (2 # sample_frame @ [0]) pool_default) = Ok s \<and>
    list_all2 (sees False) (run (stream_step stored_zlib sample_env) [OpOpen, OpClose, OpFinish, OpNextChild] s)
      (run (cur_step sample_env) [OpOpen, OpClose, OpFinish, OpNextChild] \<lparr>cur_bytes = sample_frame, cur_levels = [], cur_root_done = False\<rparr>) \<and>
    run (stream_step stored_zlib sample_env) [OpOpen, OpClose, OpFinish, OpNextChild] (from_node_bytes sample_frame) =
    run (cur_step sample_env) [OpOpen, OpClose, OpFinish, OpNextChild] \<lparr>cur_bytes = sample_frame, cur_levels = [], cur_root_done = False\<rparr>"
  by (rule stored_sample, rule stream_forms_agree [OF stored_sane]) (assumption, simp_all add: sample_frame_def)

theorem stream_tree_exact_witness:
  "read_tree (stream_open stored_zlib sample_env) (next_child stored_zlib sample_env) (finish stored_zlib sample_env)
     (from_node_bytes sample_frame) = Ok sample_node \<and>
   (\<exists>s. fst (from_packed stored_zlib (2 # sample_frame @ [0]) pool_default) = Ok s \<and>
     tallies False (read_tree (stream_open stored_zlib sample_env) (next_child stored_zlib sample_env) (finish stored_zlib sample_env) s)
       (Ok sample_node))"
proof (rule stored_sample)
  fix R assume R: "inflates stored_zlib R (sample_frame @ [0]) sample_frame"
  have l: "length sample_frame \<le> MAX_DECOMPRESSED_SIZE" "length sample_frame < 2 ^ 63" "(2 :: u8) AND FORMAT_COMPRESSED \<noteq> 0"
    by (simp_all add: sample_frame_def)
  show ?thesis using stream_tree_exact [OF stored_sane R l(1,3,2), of sample_env pool_default] unpack_compressed [OF stored_sane R l(1,3), of pool_default]
    by (simp add: sample_tree)
qed

end
