(* ===== verification/Framing.thy ===== *)
theory Framing
  imports Prelude
begin

text \<open>
  Frames on the wire: \<open>framing.rs\<close>, the length-prefixed frames and the decoder that cuts them out of the
  reads of a transport, and \<open>edge_routing.rs\<close>, the header in front of the first frame.

  A buffer is its contents; the decoder also keeps its capacity, which steers when memory is given
  back. How much a reservation grants is up to the allocator of \<open>bytes::BytesMut\<close>: a record
  \<open>allocator\<close> is the argument of every operation that may reserve, a different one for every call if need be, and
  \<open>alloc_ok\<close> is what its documentation promises.

  \<open>parse_frames\<close> is the reference: the complete frames of a byte string and the residue. The decoder
  computes it however the bytes are cut into reads.
\<close>

unbundle bit_operations_syntax

section \<open>Encoding\<close>

abbreviation (input) FRAME_LENGTH_SIZE :: nat where "FRAME_LENGTH_SIZE \<equiv> 3"
abbreviation (input) FRAME_MAX_SIZE :: nat where "FRAME_MAX_SIZE \<equiv> 16777216"

definition too_large :: "nat \<Rightarrow> str" where
  "too_large n = lit ''Frame is too large (max: '' @ dec FRAME_MAX_SIZE @ lit '', got: '' @ dec n @ lit '')''"

definition append_frame_header_into :: "nat \<Rightarrow> u8 list option \<Rightarrow> u8 list \<Rightarrow> (str, unit) outcome \<times> u8 list" where
  "append_frame_header_into payload_len header out =
     (if FRAME_MAX_SIZE \<le> payload_len then (Err (too_large payload_len), out)
      else
        (let out = (case header of Some header_data \<Rightarrow> out @ header_data | None \<Rightarrow> out);
             len_bytes = be_bytes 4 (unat (of_nat payload_len :: u32))
         in (Ok (), out @ drop 1 len_bytes)))"

definition append_frame_into :: "u8 list \<Rightarrow> u8 list option \<Rightarrow> u8 list \<Rightarrow> (str, unit) outcome \<times> u8 list" where
  "append_frame_into payload header out =
     (case append_frame_header_into (length payload) header out of
        (Ok (), out) \<Rightarrow> (Ok (), out @ payload)
      | (Err e, out) \<Rightarrow> (Err e, out)
      | (Panic, out) \<Rightarrow> (Panic, out))"

definition encode_frame_into :: "u8 list \<Rightarrow> u8 list option \<Rightarrow> u8 list \<Rightarrow> (str, unit) outcome \<times> u8 list" where
  "encode_frame_into payload header out = append_frame_into payload header []"

definition encode_frame :: "u8 list \<Rightarrow> u8 list option \<Rightarrow> (str, u8 list) outcome" where
  "encode_frame payload header =
     (case encode_frame_into payload header [] of
        (Ok (), data) \<Rightarrow> Ok data
      | (Err e, data) \<Rightarrow> Err e
      | (Panic, data) \<Rightarrow> Panic)"

section \<open>The connection header\<close>

datatype edge_routing_error = RoutingInfoTooLarge

abbreviation (input) MAX_EDGE_ROUTING_LEN :: nat where "MAX_EDGE_ROUTING_LEN \<equiv> 0xFFFFFF"

definition WA_CONN_HEADER :: "u8 \<Rightarrow> u8 list" where
  "WA_CONN_HEADER dict_version = [87, 65, 6, dict_version]"

definition build_edge_routing_preintro :: "u8 list \<Rightarrow> (edge_routing_error, u8 list) outcome" where
  "build_edge_routing_preintro routing_info =
     (let len = length routing_info in
      if MAX_EDGE_ROUTING_LEN < len then Err RoutingInfoTooLarge
      else Ok ([69, 68, 0, 1] @ [of_nat (drop_bit 16 len), of_nat (drop_bit 8 len), of_nat len] @ routing_info))"

definition build_handshake_header :: "u8 \<Rightarrow> u8 list option \<Rightarrow> u8 list \<times> bool" where
  "build_handshake_header dict_version edge_routing_info =
     (case edge_routing_info of
        None \<Rightarrow> (WA_CONN_HEADER dict_version, False)
      | Some routing_info \<Rightarrow>
          (case build_edge_routing_preintro routing_info of
             Ok header \<Rightarrow> (header @ WA_CONN_HEADER dict_version, True)
           | _ \<Rightarrow> (WA_CONN_HEADER dict_version, False)))"

section \<open>Decoding\<close>

abbreviation (input) CHUNK_SIZE :: nat where "CHUNK_SIZE \<equiv> 1024"
abbreviation (input) MAX_IDLE_CAPACITY :: nat where "MAX_IDLE_CAPACITY \<equiv> 65536"
abbreviation (input) MAX_EAGER_RESERVE :: nat where "MAX_EAGER_RESERVE \<equiv> 65536"

text \<open>\<open>reserve(additional)\<close> at a length and a capacity, the capacity that stays behind when bytes are
  taken off the front, and \<open>with_capacity\<close>.\<close>

record allocator =
  al_reserve :: "nat \<Rightarrow> nat \<Rightarrow> nat \<Rightarrow> nat"
  al_split :: "nat \<Rightarrow> nat \<Rightarrow> nat"
  al_fresh :: "nat \<Rightarrow> nat"

record frame_decoder =
  fd_buffer :: "u8 list"
  fd_capacity :: nat
  grew_oversized :: bool

definition frame_decoder_new :: "allocator \<Rightarrow> frame_decoder" where
  "frame_decoder_new al = \<lparr>fd_buffer = [], fd_capacity = al_fresh al CHUNK_SIZE, grew_oversized = False\<rparr>"

definition reserve_for :: "allocator \<Rightarrow> nat \<Rightarrow> frame_decoder \<Rightarrow> frame_decoder" where
  "reserve_for al incoming d =
     (if fd_capacity d - length (fd_buffer d) < incoming
      then
        (let capacity = al_reserve al (length (fd_buffer d)) (fd_capacity d) (max incoming CHUNK_SIZE)
         in d\<lparr>fd_capacity := capacity, grew_oversized := grew_oversized d \<or> MAX_IDLE_CAPACITY < capacity\<rparr>)
      else d)"

text \<open>\<open>extend_from_slice\<close> makes its own room when there is none.\<close>

definition fd_extend :: "allocator \<Rightarrow> u8 list \<Rightarrow> frame_decoder \<Rightarrow> frame_decoder" where
  "fd_extend al data d =
     d\<lparr>fd_buffer := fd_buffer d @ data,
       fd_capacity := (if fd_capacity d - length (fd_buffer d) < length data
         then al_reserve al (length (fd_buffer d)) (fd_capacity d) (length data) else fd_capacity d)\<rparr>"

definition feed :: "allocator \<Rightarrow> u8 list \<Rightarrow> frame_decoder \<Rightarrow> frame_decoder" where
  "feed al data d = fd_extend al data (reserve_for al (length data) d)"

text \<open>A read that owns its allocation alone can be adopted; \<open>unique\<close> is then its capacity.\<close>

definition feed_owned :: "allocator \<Rightarrow> nat option \<Rightarrow> u8 list \<Rightarrow> frame_decoder \<Rightarrow> frame_decoder" where
  "feed_owned al unique data d =
     (if fd_buffer d = [] \<and> CHUNK_SIZE \<le> length data then
        (case unique of
           Some capacity \<Rightarrow>
             d\<lparr>grew_oversized := grew_oversized d \<or> MAX_IDLE_CAPACITY < capacity, fd_buffer := data, fd_capacity := capacity\<rparr>
         | None \<Rightarrow> feed al data d)
      else feed al data d)"

definition frame_len :: "u8 list \<Rightarrow> nat" where
  "frame_len buffer = push_bit 16 (unat (buffer ! 0)) OR push_bit 8 (unat (buffer ! 1)) OR unat (buffer ! 2)"

definition release :: "allocator \<Rightarrow> frame_decoder \<Rightarrow> frame_decoder" where
  "release al d =
     (if (grew_oversized d \<or> MAX_IDLE_CAPACITY < fd_capacity d) \<and> length (fd_buffer d) \<le> CHUNK_SIZE
      then fd_extend al (fd_buffer d) \<lparr>fd_buffer = [], fd_capacity = al_fresh al CHUNK_SIZE, grew_oversized = False\<rparr>
      else d)"

definition fd_decode_frame :: "allocator \<Rightarrow> frame_decoder \<Rightarrow> u8 list option \<times> frame_decoder" where
  "fd_decode_frame al d =
     (let buffer = fd_buffer d in
      if length buffer < FRAME_LENGTH_SIZE then (None, d)
      else
        (let frame_len = frame_len buffer in
         if length buffer < FRAME_LENGTH_SIZE + frame_len
         then
           (let missing = FRAME_LENGTH_SIZE + frame_len - length buffer
            in (None, reserve_for al (min missing MAX_EAGER_RESERVE) d))
         else
           (let rest = drop FRAME_LENGTH_SIZE buffer;
                frame_data = take frame_len rest;
                d = d\<lparr>fd_buffer := drop frame_len rest,
                      fd_capacity := al_split al (fd_capacity d) (FRAME_LENGTH_SIZE + frame_len)\<rparr>
            in (Some frame_data, release al d))))"

definition buffered_len :: "frame_decoder \<Rightarrow> nat" where
  "buffered_len d = length (fd_buffer d)"

definition fd_clear :: "frame_decoder \<Rightarrow> frame_decoder" where
  "fd_clear d = d\<lparr>fd_buffer := []\<rparr>"

section \<open>The reference\<close>

function parse_frames :: "u8 list \<Rightarrow> u8 list list \<times> u8 list" where
  "parse_frames bs =
     (if length bs < 3 \<or> length bs < 3 + be_nat (take 3 bs) then ([], bs)
      else
        (let n = be_nat (take 3 bs)
         in case parse_frames (drop (3 + n) bs) of (fs, r) \<Rightarrow> (take n (drop 3 bs) # fs, r)))"
  by pat_completeness auto
termination by (relation "measure length") auto

declare parse_frames.simps [simp del]

text \<open>A frame without a header, as it stands on the wire.\<close>

definition frame_bytes :: "u8 list \<Rightarrow> u8 list" where
  "frame_bytes payload = be_bytes 3 (length payload) @ payload"

lemma length_frame_bytes [simp]: "length (frame_bytes p) = 3 + length p"
  by (simp add: frame_bytes_def)

lemma drop_be_bytes: "drop 1 (be_bytes 4 n) = be_bytes 3 n"
  using be_bytes.simps(2) [of 3 n] by simp

lemma append_frame_into_is:
  "append_frame_into payload header out =
    (if FRAME_MAX_SIZE \<le> length payload then (Err (too_large (length payload)), out)
     else (Ok (), out @ (case header of Some h \<Rightarrow> h | None \<Rightarrow> []) @ frame_bytes payload))"
proof (cases "FRAME_MAX_SIZE \<le> length payload")
  case False
  then have "unat (of_nat (length payload) :: u32) = length payload" by (simp add: unat_of_nat)
  then show ?thesis using False
    unfolding append_frame_into_def append_frame_header_into_def frame_bytes_def Let_def drop_be_bytes by (simp split: option.split)
qed (simp add: append_frame_into_def append_frame_header_into_def)

lemma frame_len_be: "3 \<le> length bs \<Longrightarrow> frame_len bs = be_nat (take 3 bs)"
proof -
  assume "3 \<le> length bs"
  have three: "(3 :: nat) = Suc (Suc (Suc 0))" by simp
  from \<open>3 \<le> length bs\<close> obtain a b c r where bs: "bs = a # b # c # r" unfolding three Suc_le_length_iff by blast
  have small: "\<not> bit (unat (x :: u8)) n" if "8 \<le> n" for x n
  proof -
    have "unat x < 2 ^ n" by (rule less_le_trans [OF unat_u8_bound]) (use power_increasing [OF that, of "2 :: nat"] in simp)
    then show ?thesis by (simp add: bit_iff_odd)
  qed
  have "push_bit 8 (unat b) OR unat c = push_bit 8 (unat b) + unat c"
    by (rule disjunctive_add [symmetric]) (use small [of _ c] in \<open>auto simp: bit_push_bit_iff not_le\<close>)
  moreover have "push_bit 16 (unat a) OR (push_bit 8 (unat b) OR unat c) = push_bit 16 (unat a) + (push_bit 8 (unat b) OR unat c)"
    by (rule disjunctive_add [symmetric]) (use small [of _ c] small [of _ b] in \<open>auto simp: bit_push_bit_iff bit_or_iff not_le\<close>)
  ultimately show ?thesis by (simp add: bs frame_len_def push_bit_eq_mult or.assoc)
qed

lemma parse_frame:
  assumes "length p < FRAME_MAX_SIZE"
  shows "parse_frames (frame_bytes p @ bs) = (case parse_frames bs of (fs, r) \<Rightarrow> (p # fs, r))"
proof -
  have "be_nat (be_bytes 3 (length p)) = length p" using assms by (intro be_nat_be_bytes_id) simp
  then show ?thesis by (subst parse_frames.simps) (simp add: frame_bytes_def Let_def)
qed

lemma parse_frames_concat:
  "list_all (\<lambda>p. length p < FRAME_MAX_SIZE) ps \<Longrightarrow>
    parse_frames (concat (map frame_bytes ps) @ bs) = (case parse_frames bs of (fs, r) \<Rightarrow> (ps @ fs, r))"
  by (induction ps) (auto simp: parse_frame split: prod.split)

lemma parse_frames_append:
  "parse_frames (as @ bs) = (case parse_frames as of (fs, r) \<Rightarrow> case parse_frames (r @ bs) of (gs, r') \<Rightarrow> (fs @ gs, r'))"
proof (induction as rule: parse_frames.induct)
  case (1 as)
  show ?case
  proof (cases "length as < 3 \<or> length as < 3 + be_nat (take 3 as)")
    case True
    then have "parse_frames as = ([], as)" by (subst parse_frames.simps) simp
    then show ?thesis by (simp split: prod.split)
  next
    case False
    then have t: "take 3 (as @ bs) = take 3 as" "\<not> length (as @ bs) < 3" "\<not> length (as @ bs) < 3 + be_nat (take 3 as)" by simp_all
    have a: "parse_frames as = (case parse_frames (drop (3 + be_nat (take 3 as)) as) of (fs, r) \<Rightarrow> (take (be_nat (take 3 as)) (drop 3 as) # fs, r))"
      by (subst parse_frames.simps) (use False in \<open>simp add: Let_def\<close>)
    have "parse_frames (as @ bs) =
        (case parse_frames (drop (3 + be_nat (take 3 as)) as @ bs) of (fs, r) \<Rightarrow> (take (be_nat (take 3 as)) (drop 3 as) # fs, r))"
      by (subst parse_frames.simps) (use False t in \<open>simp add: Let_def\<close>)
    then show ?thesis unfolding a 1 [OF False refl] by (simp split: prod.split)
  qed
qed

section \<open>The decoder\<close>

lemma buffer_reserve_for [simp]: "fd_buffer (reserve_for al n d) = fd_buffer d"
  by (simp add: reserve_for_def Let_def)

lemma buffer_extend [simp]: "fd_buffer (fd_extend al data d) = fd_buffer d @ data"
  by (simp add: fd_extend_def)

lemma buffer_feed [simp]: "fd_buffer (feed al data d) = fd_buffer d @ data"
  by (simp add: feed_def)

lemma buffer_feed_owned [simp]: "fd_buffer (feed_owned al unique data d) = fd_buffer d @ data"
  by (simp add: feed_owned_def split: option.split)

lemma buffer_release [simp]: "fd_buffer (release al d) = fd_buffer d"
  by (simp add: release_def)

lemma decode_frame_parses:
  "case fd_decode_frame al d of
     (None, d') \<Rightarrow> fd_buffer d' = fd_buffer d \<and> parse_frames (fd_buffer d) = ([], fd_buffer d)
   | (Some f, d') \<Rightarrow> length (fd_buffer d') < length (fd_buffer d) \<and>
       parse_frames (fd_buffer d) = (case parse_frames (fd_buffer d') of (fs, r) \<Rightarrow> (f # fs, r))"
proof (cases "length (fd_buffer d) < 3 \<or> length (fd_buffer d) < 3 + be_nat (take 3 (fd_buffer d))")
  case True
  then have "parse_frames (fd_buffer d) = ([], fd_buffer d)" by (subst parse_frames.simps) simp
  then show ?thesis using True by (auto simp: fd_decode_frame_def frame_len_be Let_def)
next
  case False
  then show ?thesis by (subst parse_frames.simps) (auto simp: fd_decode_frame_def frame_len_be Let_def add.commute)
qed

text \<open>The read loops call \<open>decode_frame\<close> until there is no complete frame left.\<close>

function drain :: "allocator \<Rightarrow> frame_decoder \<Rightarrow> u8 list list \<times> frame_decoder" where
  "drain al d =
     (case fd_decode_frame al d of
        (None, d') \<Rightarrow> ([], d')
      | (Some f, d') \<Rightarrow> (case drain al d' of (fs, d'') \<Rightarrow> (f # fs, d'')))"
  by pat_completeness auto
termination
proof (relation "measure (\<lambda>(al, d). length (fd_buffer d))")
  fix al d o' d' f
  assume "(o', d') = fd_decode_frame al d" "o' = Some f"
  then show "((al, d'), (al, d)) \<in> measure (\<lambda>(al, d). length (fd_buffer d))"
    using decode_frame_parses [of d al] by (cases "fd_decode_frame al d") auto
qed simp

declare drain.simps [simp del]

lemma drain_parses: "fst (drain al d) = fst (parse_frames (fd_buffer d)) \<and> fd_buffer (snd (drain al d)) = snd (parse_frames (fd_buffer d))"
proof (induction al d rule: drain.induct)
  case (1 al d)
  obtain o' d' where d: "fd_decode_frame al d = (o', d')" by (rule prod.exhaust)
  show ?case
  proof (cases o')
    case None
    then show ?thesis using decode_frame_parses [of d al] d by (simp add: drain.simps [of al d])
  next
    case (Some f)
    then show ?thesis using decode_frame_parses [of d al] d 1 [OF d [symmetric] Some]
      by (cases "drain al d'") (simp add: drain.simps [of al d] split: prod.splits)
  qed
qed

text \<open>A sequence of reads: every one is fed, as it is or as a buffer of its own, and the decoder is
  drained. The allocator answers for this read.\<close>

type_synonym read = "allocator \<times> nat option \<times> bool \<times> u8 list"

fun receive :: "read list \<Rightarrow> frame_decoder \<Rightarrow> u8 list list \<times> frame_decoder" where
  "receive [] d = ([], d)"
| "receive ((al, unique, owned, data) # rs) d =
     (let d1 = (if owned then feed_owned al unique data d else feed al data d);
          (fs, d2) = drain al d1;
          (gs, d3) = receive rs d2
      in (fs @ gs, d3))"

definition read_bytes_of :: "read \<Rightarrow> u8 list" where
  "read_bytes_of r = snd (snd (snd r))"

lemma receive_parses:
  "parse_frames (fd_buffer d) = ([], fd_buffer d) \<Longrightarrow>
    fst (receive rs d) = fst (parse_frames (fd_buffer d @ concat (map read_bytes_of rs))) \<and>
    fd_buffer (snd (receive rs d)) = snd (parse_frames (fd_buffer d @ concat (map read_bytes_of rs)))"
proof (induction rs arbitrary: d)
  case (Cons r rs)
  obtain al unique owned data where r: "r = (al, unique, owned, data)" by (rule prod_cases4)
  let ?d = "if owned then feed_owned al unique data d else feed al data d"
  have b: "fd_buffer ?d = fd_buffer d @ data" by simp
  obtain fs d2 where dr: "drain al ?d = (fs, d2)" by (rule prod.exhaust)
  from drain_parses [of al ?d] have p: "parse_frames (fd_buffer d @ data) = (fs, fd_buffer d2)" unfolding dr b by (simp add: prod_eq_iff)
  have i: "parse_frames (fd_buffer d2) = ([], fd_buffer d2)"
    using parse_frames_append [of "fd_buffer d @ data" "[]"] p by (simp split: prod.splits)
  have v: "read_bytes_of r = data" by (simp add: r read_bytes_of_def)
  obtain gs d3 where rc: "receive rs d2 = (gs, d3)" by (rule prod.exhaust)
  from Cons.IH [OF i] have q: "parse_frames (fd_buffer d2 @ concat (map read_bytes_of rs)) = (gs, fd_buffer d3)"
    unfolding rc by (simp add: prod_eq_iff)
  have "receive (r # rs) d = (fs @ gs, d3)" using dr rc by (simp add: r Let_def)
  moreover have "parse_frames (fd_buffer d @ concat (map read_bytes_of (r # rs))) = (fs @ gs, fd_buffer d3)"
    using parse_frames_append [of "fd_buffer d @ data" "concat (map read_bytes_of rs)"] p q by (simp add: v)
  ultimately show ?case by simp
qed simp

section \<open>Memory\<close>

text \<open>What the documentation of the buffer promises: a reservation grants at least what was asked for, taking bytes off
  the front takes at most their room, and a new buffer has the capacity it was made with, up to the idle limit.\<close>

definition alloc_ok :: "allocator \<Rightarrow> bool" where
  "alloc_ok al \<longleftrightarrow> (\<forall>len cap add. len + add \<le> al_reserve al len cap add) \<and>
     (\<forall>cap n. cap - n \<le> al_split al cap n \<and> al_split al cap n \<le> cap) \<and>
     CHUNK_SIZE \<le> al_fresh al CHUNK_SIZE \<and> al_fresh al CHUNK_SIZE \<le> MAX_IDLE_CAPACITY"

text \<open>The contents fit, and a capacity over the idle limit is remembered.\<close>

definition decoder_ok :: "frame_decoder \<Rightarrow> bool" where
  "decoder_ok d \<longleftrightarrow> length (fd_buffer d) \<le> fd_capacity d \<and> (fd_capacity d \<le> MAX_IDLE_CAPACITY \<or> grew_oversized d)"

lemma alloc_okD:
  assumes "alloc_ok al"
  shows "len + add \<le> al_reserve al len cap add" "cap - n \<le> al_split al cap n" "al_split al cap n \<le> cap"
    "CHUNK_SIZE \<le> al_fresh al CHUNK_SIZE" "al_fresh al CHUNK_SIZE \<le> MAX_IDLE_CAPACITY"
  using assms unfolding alloc_ok_def by blast+

lemma decoder_ok_reserve:
  assumes "alloc_ok al" "decoder_ok d"
  shows "decoder_ok (reserve_for al n d)" "length (fd_buffer d) + n \<le> fd_capacity (reserve_for al n d)"
  using assms(2) alloc_okD(1) [OF assms(1), of "length (fd_buffer d)" "max n CHUNK_SIZE" "fd_capacity d"]
  by (auto simp: decoder_ok_def reserve_for_def Let_def)

lemma decoder_ok_feed:
  assumes "alloc_ok al" "decoder_ok d"
  shows "decoder_ok (feed al data d)"
  using decoder_ok_reserve [OF assms, of "length data"] by (auto simp: feed_def fd_extend_def decoder_ok_def)

lemma decoder_ok_feed_owned:
  assumes "alloc_ok al" "decoder_ok d" "\<And>capacity. unique = Some capacity \<Longrightarrow> length data \<le> capacity"
  shows "decoder_ok (feed_owned al unique data d)"
  using assms(3) decoder_ok_feed [OF assms(1,2)] by (auto simp: feed_owned_def decoder_ok_def split: option.split)

lemma release_ok:
  assumes "alloc_ok al" "decoder_ok d"
  shows "decoder_ok (release al d)"
    "length (fd_buffer d) \<le> CHUNK_SIZE \<Longrightarrow> fd_capacity (release al d) \<le> MAX_IDLE_CAPACITY \<and> \<not> grew_oversized (release al d)"
  using assms(2) alloc_okD(4,5) [OF assms(1)] by (auto simp: release_def decoder_ok_def fd_extend_def)

lemma decode_frame_ok:
  assumes "alloc_ok al" "decoder_ok d"
  shows "decoder_ok (snd (fd_decode_frame al d))"
proof -
  let ?n = "3 + frame_len (fd_buffer d)"
  have "decoder_ok (d\<lparr>fd_buffer := drop (frame_len (fd_buffer d)) (drop 3 (fd_buffer d)), fd_capacity := al_split al (fd_capacity d) ?n\<rparr>)"
    using assms(2) alloc_okD(2,3) [OF assms(1), of "fd_capacity d" ?n] by (auto simp: decoder_ok_def)
  from release_ok(1) [OF assms(1) this] show ?thesis
    using decoder_ok_reserve(1) [OF assms] assms(2) by (simp add: fd_decode_frame_def Let_def)
qed

section \<open>Main results\<close>

text \<open>C10. Every frame is delivered, by the read that completes it. Let the bytes of the reads of a
  connection, cut in any way, begin with the frames of \<open>ps\<close> and then the frame of \<open>p\<close>, all encoded by \<open>append_frame_into\<close>
  one behind the other. Then the frames the decoder has handed out after these reads begin with exactly the payloads
  \<open>ps\<close> in order, followed by \<open>p\<close>; and when nothing is behind them, these are all the frames and no byte stays
  behind. This holds for reads that are copied or adopted, and for any behaviour of the allocator.\<close>

theorem frames_delivered:
  assumes "list_all (\<lambda>q. length q < FRAME_MAX_SIZE) (ps @ [p])"
    and "concat (map read_bytes_of rs) = fold (\<lambda>q out. snd (append_frame_into q None out)) (ps @ [p]) [] @ behind"
  shows "\<exists>later. fst (receive rs (frame_decoder_new al)) = ps @ [p] @ later \<and>
    (behind = [] \<longrightarrow> later = [] \<and> buffered_len (snd (receive rs (frame_decoder_new al))) = 0)"
proof -
  have wire: "fold (\<lambda>q out. snd (append_frame_into q None out)) qs out = out @ concat (map frame_bytes qs)"
    if "list_all (\<lambda>q. length q < FRAME_MAX_SIZE) qs" for qs out
    using that by (induction qs arbitrary: out) (simp_all add: append_frame_into_is)
  have nil: "parse_frames [] = ([], [])" by (subst parse_frames.simps) simp
  have "fd_buffer (frame_decoder_new al) = []" by (simp add: frame_decoder_new_def)
  with receive_parses [of "frame_decoder_new al" rs] nil assms(2) wire [OF assms(1), of "[]"]
  have "fst (receive rs (frame_decoder_new al)) = fst (parse_frames (concat (map frame_bytes (ps @ [p])) @ behind))"
    "fd_buffer (snd (receive rs (frame_decoder_new al))) = snd (parse_frames (concat (map frame_bytes (ps @ [p])) @ behind))"
    by simp_all
  then show ?thesis unfolding parse_frames_concat [OF assms(1)]
    by (cases "parse_frames behind") (auto simp: buffered_len_def nil)
qed

definition plain_alloc :: allocator where
  "plain_alloc = \<lparr>al_reserve = (\<lambda>len cap add. max cap (len + add)), al_split = (\<lambda>cap n. cap - n), al_fresh = (\<lambda>n. n)\<rparr>"

theorem frames_delivered_witness:
  "fst (receive [(plain_alloc, None, False, [0, 0, 2, 7]), (plain_alloc, Some 9, True, [8, 0, 0]), (plain_alloc, None, True, [0])]
     (frame_decoder_new plain_alloc)) = [[7, 8], []]"
proof -
  let ?rs = "[(plain_alloc, None, False, [0, 0, 2, 7]), (plain_alloc, Some 9, True, [8, 0, 0]), (plain_alloc, None, True, [0])] :: read list"
  have "be_bytes 3 (Suc (Suc 0)) = [0, 0, 2]" "be_bytes 3 0 = [0, 0, 0]" by (simp_all add: numeral_3_eq_3)
  then show ?thesis using frames_delivered [of "[[7, 8]]" "[]" ?rs "[]" plain_alloc]
    by (auto simp: read_bytes_of_def append_frame_into_is frame_bytes_def simp del: receive.simps)
qed

text \<open>C19. Memory of the decoder. The contents always fit the capacity, and a capacity over 64 KiB is
  always remembered in \<open>grew_oversized\<close>; every operation keeps this, whatever the allocator grants. A frame cut out
  of such a buffer gives the memory back: when at most a chunk of bytes stays behind, the decoder is
  left with a capacity of at most 64 KiB. An announced frame that has not arrived makes the decoder
  ask for at most 64 KiB.\<close>

theorem decoder_memory:
  assumes "alloc_ok al" "decoder_ok d"
  shows "decoder_ok (frame_decoder_new al) \<and> decoder_ok (feed al data d) \<and>
    (length data \<le> capacity \<longrightarrow> decoder_ok (feed_owned al (Some capacity) data d)) \<and> decoder_ok (feed_owned al None data d) \<and>
    decoder_ok (snd (fd_decode_frame al d)) \<and> decoder_ok (fd_clear d) \<and>
    (fst (fd_decode_frame al d) \<noteq> None \<and> buffered_len (snd (fd_decode_frame al d)) \<le> CHUNK_SIZE \<longrightarrow>
      fd_capacity (snd (fd_decode_frame al d)) \<le> MAX_IDLE_CAPACITY \<and> \<not> grew_oversized (snd (fd_decode_frame al d))) \<and>
    (fst (fd_decode_frame al d) = None \<longrightarrow> snd (fd_decode_frame al d) = d \<or>
      (\<exists>n \<le> MAX_EAGER_RESERVE. fd_capacity (snd (fd_decode_frame al d)) = al_reserve al (buffered_len d) (fd_capacity d) n))"
proof (intro conjI impI)
  show "decoder_ok (frame_decoder_new al)" using alloc_okD(5) [OF assms(1)] by (simp add: decoder_ok_def frame_decoder_new_def)
  show "decoder_ok (feed al data d)" by (rule decoder_ok_feed [OF assms])
  show "length data \<le> capacity \<Longrightarrow> decoder_ok (feed_owned al (Some capacity) data d)"
    by (rule decoder_ok_feed_owned [OF assms]) simp
  show "decoder_ok (feed_owned al None data d)" by (rule decoder_ok_feed_owned [OF assms]) simp
  show "decoder_ok (snd (fd_decode_frame al d))" by (rule decode_frame_ok [OF assms])
  show "decoder_ok (fd_clear d)" using assms(2) by (auto simp: decoder_ok_def fd_clear_def)
  let ?n = "3 + frame_len (fd_buffer d)"
  let ?d = "d\<lparr>fd_buffer := drop (frame_len (fd_buffer d)) (drop 3 (fd_buffer d)), fd_capacity := al_split al (fd_capacity d) ?n\<rparr>"
  {
    assume "fst (fd_decode_frame al d) \<noteq> None \<and> buffered_len (snd (fd_decode_frame al d)) \<le> CHUNK_SIZE"
    then have s: "snd (fd_decode_frame al d) = release al ?d" "length (fd_buffer ?d) \<le> CHUNK_SIZE"
      by (auto simp: fd_decode_frame_def buffered_len_def Let_def split: if_splits)
    have "decoder_ok ?d"
      using assms(2) alloc_okD(2,3) [OF assms(1), of "fd_capacity d" ?n] by (auto simp: decoder_ok_def)
    from release_ok(2) [OF assms(1) this s(2)]
    show "fd_capacity (snd (fd_decode_frame al d)) \<le> MAX_IDLE_CAPACITY" "\<not> grew_oversized (snd (fd_decode_frame al d))"
      unfolding s(1) by blast+
  next
    assume "fst (fd_decode_frame al d) = None"
    then have "snd (fd_decode_frame al d) = d \<or> (\<exists>m \<le> MAX_EAGER_RESERVE. snd (fd_decode_frame al d) = reserve_for al m d)"
      by (auto simp: fd_decode_frame_def Let_def split: if_splits intro!: exI [of _ "min _ _"])
    moreover have "reserve_for al m d = d \<or> (\<exists>n \<le> MAX_EAGER_RESERVE. fd_capacity (reserve_for al m d) = al_reserve al (buffered_len d) (fd_capacity d) n)"
      if "m \<le> MAX_EAGER_RESERVE" for m
      using that by (auto simp: reserve_for_def buffered_len_def Let_def intro!: exI [of _ "max m CHUNK_SIZE"])
    ultimately show "snd (fd_decode_frame al d) = d \<or>
      (\<exists>n \<le> MAX_EAGER_RESERVE. fd_capacity (snd (fd_decode_frame al d)) = al_reserve al (buffered_len d) (fd_capacity d) n)" by metis
  }
qed

theorem decoder_memory_witness:
  "fd_capacity (feed plain_alloc [0, 0, 1, 9] (frame_decoder_new plain_alloc)) \<le> MAX_IDLE_CAPACITY \<or>
   grew_oversized (feed plain_alloc [0, 0, 1, 9] (frame_decoder_new plain_alloc))"
proof -
  have al: "alloc_ok plain_alloc" by (auto simp: alloc_ok_def plain_alloc_def)
  have "decoder_ok (frame_decoder_new plain_alloc)" by (simp add: decoder_ok_def frame_decoder_new_def plain_alloc_def)
  from decoder_memory [OF al this, of "[0, 0, 1, 9]" 0] show ?thesis unfolding decoder_ok_def by blast
qed

end
