(* ===== verification/Aes_Gcm.thy ===== *)
theory Aes_Gcm
  imports Prelude
begin

text \<open>
  AES-256-GCM: \<open>aes_ctr.rs\<close>, \<open>aes_gcm.rs\<close> and the GCM operations of \<open>provider.rs\<close>.

  The block cipher, its CTR key stream and the block function of GHASH are the crates \<open>aes\<close>, \<open>ctr\<close> and \<open>ghash\<close>,
  a parameter (\<open>prims\<close>). Nothing is assumed of them but what \<open>ghash_ok\<close> says: blocks have 16 bytes, and a padded
  update is the update with the zero-padded blocks. The mode of operation, that is the buffering of
  partial blocks, the length block, the tag and the in-place buffers, is defined here, and opening what
  was sealed is proved.
\<close>

unbundle bit_operations_syntax

section \<open>Primitives\<close>

record 'g prims =
  pr_aes :: "u8 list \<Rightarrow> u8 list \<Rightarrow> u8 list"
  pr_keystream :: "u8 list \<Rightarrow> u8 list \<Rightarrow> nat \<Rightarrow> u8"
  pr_keystream_len :: nat
  pr_ghash_new :: "u8 list \<Rightarrow> 'g"
  pr_ghash_block :: "'g \<Rightarrow> u8 list \<Rightarrow> 'g"
  pr_ghash_padded :: "'g \<Rightarrow> u8 list \<Rightarrow> 'g"
  pr_ghash_final :: "'g \<Rightarrow> u8 list"

datatype crypto_error = UnknownAlgorithm str str | InvalidKeySize | InvalidNonceSize | InvalidInputSize | InvalidTag |
  OutputBufferTooSmall nat nat

datatype crypto_provider_error = BadInput | AuthFailed | BackendFailed

abbreviation (input) TAG_SIZE :: nat where "TAG_SIZE \<equiv> 16"
abbreviation (input) NONCE_SIZE :: nat where "NONCE_SIZE \<equiv> 12"

section \<open>Counter mode\<close>

text \<open>\<open>apply_keystream\<close> panics when the key stream is used up.\<close>

record ctr32 =
  ctr_key :: "u8 list"
  ctr_block :: "u8 list"
  ctr_pos :: nat

definition ctr32_new :: "u8 list \<Rightarrow> u8 list \<Rightarrow> nat \<Rightarrow> (crypto_error, ctr32) outcome" where
  "ctr32_new aes256 nonce init_ctr =
     (if length nonce \<noteq> NONCE_SIZE then Err InvalidNonceSize
      else Ok \<lparr>ctr_key = aes256, ctr_block = nonce @ replicate 4 0, ctr_pos = 16 * init_ctr\<rparr>)"

definition ctr32_from_key :: "u8 list \<Rightarrow> u8 list \<Rightarrow> nat \<Rightarrow> (crypto_error, ctr32) outcome" where
  "ctr32_from_key key nonce init_ctr =
     (if length key \<noteq> 32 then Err InvalidKeySize else ctr32_new key nonce init_ctr)"

definition ctr_process :: "'g prims \<Rightarrow> u8 list \<Rightarrow> ctr32 \<Rightarrow> (crypto_error, u8 list \<times> ctr32) outcome" where
  "ctr_process P buf c =
     (if pr_keystream_len P < ctr_pos c + length buf then Panic
      else Ok (map (\<lambda>i. buf ! i XOR pr_keystream P (ctr_key c) (ctr_block c) (ctr_pos c + i)) [0..<length buf],
               c\<lparr>ctr_pos := ctr_pos c + length buf\<rparr>))"

section \<open>The authenticator\<close>

record 'g gcm_ghash =
  gg_ghash :: 'g
  gg_pad :: "u8 list"
  gg_buf :: "u8 list"
  gg_offset :: nat
  gg_ad_len :: nat
  gg_msg_len :: nat

definition gg_from_keyed :: "'g prims \<Rightarrow> 'g \<Rightarrow> u8 list \<Rightarrow> u8 list \<Rightarrow> 'g gcm_ghash" where
  "gg_from_keyed P ghash ghash_pad associated_data =
     \<lparr>gg_ghash = pr_ghash_padded P ghash associated_data, gg_pad = ghash_pad, gg_buf = replicate TAG_SIZE 0,
      gg_offset = 0, gg_ad_len = length associated_data, gg_msg_len = 0\<rparr>"

definition gg_new :: "'g prims \<Rightarrow> u8 list \<Rightarrow> u8 list \<Rightarrow> u8 list \<Rightarrow> 'g gcm_ghash" where
  "gg_new P h ghash_pad associated_data = gg_from_keyed P (pr_ghash_new P h) ghash_pad associated_data"

text \<open>\<open>self.msg_buf[at..at + n].copy_from_slice(src)\<close>.\<close>

definition splice_at :: "nat \<Rightarrow> u8 list \<Rightarrow> u8 list \<Rightarrow> u8 list" where
  "splice_at i src buf = take i buf @ src @ drop (i + length src) buf"

function gg_update :: "'g prims \<Rightarrow> u8 list \<Rightarrow> 'g gcm_ghash \<Rightarrow> (crypto_error, 'g gcm_ghash) outcome" where
  "gg_update P msg s =
     (if 0 < gg_offset s then
        (let taking = min (length msg) (TAG_SIZE - gg_offset s);
             s = s\<lparr>gg_buf := splice_at (gg_offset s) (take taking msg) (gg_buf s), gg_offset := gg_offset s + taking\<rparr>
         in
         if TAG_SIZE < gg_offset s then Panic
         else
           (let s = s\<lparr>gg_msg_len := gg_msg_len s + taking\<rparr> in
            if gg_offset s = TAG_SIZE
            then gg_update P (drop taking msg) (s\<lparr>gg_ghash := pr_ghash_block P (gg_ghash s) (gg_buf s), gg_offset := 0\<rparr>)
            else Ok s))
      else
        (let full_blocks = length msg div 16;
             leftover = length msg - 16 * full_blocks
         in
         if TAG_SIZE \<le> leftover then Panic
         else
           Ok (s\<lparr>gg_msg_len := gg_msg_len s + length msg,
                 gg_ghash := pr_ghash_padded P (gg_ghash s) (take (16 * full_blocks) msg),
                 gg_buf := splice_at 0 (drop (full_blocks * 16) msg) (gg_buf s),
                 gg_offset := leftover\<rparr>)))"
  by pat_completeness auto
termination
  by (relation "measure (\<lambda>(P, msg, s). gg_offset s)") auto

declare gg_update.simps [simp del]

definition gg_finalize :: "'g prims \<Rightarrow> 'g gcm_ghash \<Rightarrow> u8 list" where
  "gg_finalize P s =
     (let ghash = (if 0 < gg_offset s then pr_ghash_padded P (gg_ghash s) (take (gg_offset s) (gg_buf s)) else gg_ghash s);
          final_block = be_bytes 8 (8 * gg_ad_len s) @ be_bytes 8 (8 * gg_msg_len s);
          hash = pr_ghash_final P (pr_ghash_block P ghash final_block)
      in map2 (XOR) hash (gg_pad s))"

section \<open>Sealing and opening\<close>

definition setup_gcm :: "'g prims \<Rightarrow> u8 list \<Rightarrow> u8 list \<Rightarrow> u8 list \<Rightarrow> (crypto_error, ctr32 \<times> 'g gcm_ghash) outcome" where
  "setup_gcm P key nonce associated_data =
     (if length nonce \<noteq> NONCE_SIZE then Err InvalidNonceSize
      else if length key \<noteq> 32 then Err InvalidKeySize
      else
        (let h = pr_aes P key (replicate TAG_SIZE 0) in
         obind (ctr32_new key nonce 1) (\<lambda>ctr.
         obind (ctr_process P (replicate 16 0) ctr) (\<lambda>(ghash_pad, ctr).
         Ok (ctr, gg_new P h ghash_pad associated_data)))))"

record 'g gcm_key =
  gk_cipher :: "u8 list"
  gk_keyed_ghash :: 'g

definition gcm_key_new :: "'g prims \<Rightarrow> u8 list \<Rightarrow> (crypto_error, 'g gcm_key) outcome" where
  "gcm_key_new P key =
     (if length key \<noteq> 32 then Err InvalidKeySize
      else Ok \<lparr>gk_cipher = key, gk_keyed_ghash = pr_ghash_new P (pr_aes P key (replicate TAG_SIZE 0))\<rparr>)"

definition gcm_key_setup :: "'g prims \<Rightarrow> 'g gcm_key \<Rightarrow> u8 list \<Rightarrow> u8 list \<Rightarrow> (crypto_error, ctr32 \<times> 'g gcm_ghash) outcome" where
  "gcm_key_setup P k nonce associated_data =
     (if length nonce \<noteq> NONCE_SIZE then Err InvalidNonceSize
      else
        obind (ctr32_new (gk_cipher k) nonce 1) (\<lambda>ctr.
        obind (ctr_process P (replicate 16 0) ctr) (\<lambda>(ghash_pad, ctr).
        Ok (ctr, gg_from_keyed P (gk_keyed_ghash k) ghash_pad associated_data))))"

text \<open>An \<open>Aes256GcmEncryption\<close> or \<open>Aes256GcmDecryption\<close> is the counter and the authenticator.\<close>

type_synonym 'g gcm = "ctr32 \<times> 'g gcm_ghash"

definition gcm_encrypt :: "'g prims \<Rightarrow> u8 list \<Rightarrow> 'g gcm \<Rightarrow> (crypto_error, u8 list \<times> 'g gcm) outcome" where
  "gcm_encrypt P buf = (\<lambda>(ctr, ghash).
     obind (ctr_process P buf ctr) (\<lambda>(buf, ctr).
     obind (gg_update P buf ghash) (\<lambda>ghash. Ok (buf, ctr, ghash))))"

definition compute_tag :: "'g prims \<Rightarrow> 'g gcm \<Rightarrow> u8 list" where
  "compute_tag P = (\<lambda>(ctr, ghash). gg_finalize P ghash)"

definition gcm_decrypt :: "'g prims \<Rightarrow> u8 list \<Rightarrow> 'g gcm \<Rightarrow> (crypto_error, u8 list \<times> 'g gcm) outcome" where
  "gcm_decrypt P buf = (\<lambda>(ctr, ghash).
     obind (gg_update P buf ghash) (\<lambda>ghash.
     obind (ctr_process P buf ctr) (\<lambda>(buf, ctr). Ok (buf, ctr, ghash))))"

definition verify_tag :: "'g prims \<Rightarrow> u8 list \<Rightarrow> 'g gcm \<Rightarrow> (crypto_error, unit) outcome" where
  "verify_tag P tag = (\<lambda>(ctr, ghash).
     if length tag \<noteq> TAG_SIZE then Err InvalidTag
     else if tag \<noteq> gg_finalize P ghash then Err InvalidTag
     else Ok ())"

fun bad_input :: "(crypto_error, 'a) outcome \<Rightarrow> (crypto_provider_error, 'a) outcome" where
  "bad_input (Ok x) = Ok x"
| "bad_input (Err e) = Err BadInput"
| "bad_input Panic = Panic"

text \<open>The operations of the provider. A vector that grows is returned; on an error it is left as it was.\<close>

definition aes_256_gcm_encrypt :: "'g prims \<Rightarrow> u8 list \<Rightarrow> u8 list \<Rightarrow> u8 list \<Rightarrow> u8 list \<Rightarrow> u8 list \<Rightarrow>
    (crypto_provider_error, u8 list) outcome" where
  "aes_256_gcm_encrypt P key nonce aad plaintext out =
     obind (bad_input (setup_gcm P key nonce aad)) (\<lambda>enc.
     obind (bad_input (gcm_encrypt P plaintext enc)) (\<lambda>(sealed, enc).
     Ok (out @ sealed @ compute_tag P enc)))"

definition aes_256_gcm_decrypt :: "'g prims \<Rightarrow> u8 list \<Rightarrow> u8 list \<Rightarrow> u8 list \<Rightarrow> u8 list \<Rightarrow> u8 list \<Rightarrow>
    (crypto_provider_error, u8 list) outcome" where
  "aes_256_gcm_decrypt P key nonce aad ciphertext_with_tag out =
     (if length ciphertext_with_tag < 16 then Err BadInput
      else
        (let ct = take (length ciphertext_with_tag - 16) ciphertext_with_tag;
             tag = drop (length ciphertext_with_tag - 16) ciphertext_with_tag
         in
         obind (bad_input (setup_gcm P key nonce aad)) (\<lambda>dec.
         obind (bad_input (gcm_decrypt P ct dec)) (\<lambda>(opened, dec).
         (case verify_tag P tag dec of
            Ok () \<Rightarrow> Ok (out @ opened)
          | Err e \<Rightarrow> Err AuthFailed
          | Panic \<Rightarrow> Panic)))))"

text \<open>In place the buffer of a failed opening is indeterminate, so only its result is kept.\<close>

definition seal_in_place :: "'g prims \<Rightarrow> (crypto_error, 'g gcm) outcome \<Rightarrow> u8 list \<Rightarrow> (crypto_provider_error, u8 list) outcome" where
  "seal_in_place P setup buffer =
     obind (bad_input setup) (\<lambda>enc.
     obind (bad_input (gcm_encrypt P buffer enc)) (\<lambda>(sealed, enc).
     Ok (sealed @ compute_tag P enc)))"

definition open_in_place :: "'g prims \<Rightarrow> (crypto_error, 'g gcm) outcome \<Rightarrow> u8 list \<Rightarrow> (crypto_provider_error, u8 list) outcome" where
  "open_in_place P setup buffer =
     (let total = length buffer in
      if total < 16 then Err BadInput
      else
        (let pt_len = total - 16; tag = drop pt_len buffer in
         obind (bad_input setup) (\<lambda>dec.
         obind (bad_input (gcm_decrypt P (take pt_len buffer) dec)) (\<lambda>(opened, dec).
         (case verify_tag P tag dec of
            Ok () \<Rightarrow> Ok opened
          | Err e \<Rightarrow> Err AuthFailed
          | Panic \<Rightarrow> Panic)))))"

definition aes_256_gcm_encrypt_in_place :: "'g prims \<Rightarrow> u8 list \<Rightarrow> u8 list \<Rightarrow> u8 list \<Rightarrow> u8 list \<Rightarrow> (crypto_provider_error, u8 list) outcome" where
  "aes_256_gcm_encrypt_in_place P key nonce aad buffer = seal_in_place P (setup_gcm P key nonce aad) buffer"

definition aes_256_gcm_decrypt_in_place :: "'g prims \<Rightarrow> u8 list \<Rightarrow> u8 list \<Rightarrow> u8 list \<Rightarrow> u8 list \<Rightarrow> (crypto_provider_error, u8 list) outcome" where
  "aes_256_gcm_decrypt_in_place P key nonce aad buffer = open_in_place P (setup_gcm P key nonce aad) buffer"

definition transport_aead :: "'g prims \<Rightarrow> u8 list \<Rightarrow> (crypto_provider_error, 'g gcm_key) outcome" where
  "transport_aead P key = bad_input (gcm_key_new P key)"

definition encrypt_in_place :: "'g prims \<Rightarrow> 'g gcm_key \<Rightarrow> u8 list \<Rightarrow> u8 list \<Rightarrow> u8 list \<Rightarrow> (crypto_provider_error, u8 list) outcome" where
  "encrypt_in_place P k nonce aad buffer = seal_in_place P (gcm_key_setup P k nonce aad) buffer"

definition decrypt_in_place :: "'g prims \<Rightarrow> 'g gcm_key \<Rightarrow> u8 list \<Rightarrow> u8 list \<Rightarrow> u8 list \<Rightarrow> (crypto_provider_error, u8 list) outcome" where
  "decrypt_in_place P k nonce aad buffer = open_in_place P (gcm_key_setup P k nonce aad) buffer"

section \<open>The reference\<close>

text \<open>The zero-padded blocks of a byte string.\<close>

function blocks16 :: "u8 list \<Rightarrow> u8 list list" where
  "blocks16 xs = (if xs = [] then [] else (take 16 xs @ replicate (16 - length xs) 0) # blocks16 (drop 16 xs))"
  by pat_completeness auto
termination by (relation "measure length") auto

declare blocks16.simps [simp del]

lemma blocks16_Nil [simp]: "blocks16 [] = []"
  by (simp add: blocks16.simps)

lemma blocks16_append: "length us = 16 * k \<Longrightarrow> blocks16 (us @ vs) = blocks16 us @ blocks16 vs"
proof (induction k arbitrary: us)
  case (Suc k)
  then have l: "16 \<le> length us" "us \<noteq> []" by auto
  have "blocks16 (drop 16 us @ vs) = blocks16 (drop 16 us) @ blocks16 vs" using Suc by simp
  then show ?case using l by (simp add: blocks16.simps [of us] blocks16.simps [of "us @ vs"])
qed simp

lemma blocks16_single: "length us = 16 \<Longrightarrow> blocks16 us = [us]"
  by (subst blocks16.simps) auto

definition ghash_ok :: "'g prims \<Rightarrow> bool" where
  "ghash_ok P \<longleftrightarrow> (\<forall>g xs. pr_ghash_padded P g xs = fold (\<lambda>b g. pr_ghash_block P g b) (blocks16 xs) g) \<and>
     (\<forall>g. length (pr_ghash_final P g) = 16)"

abbreviation (input) absorb :: "'g prims \<Rightarrow> u8 list \<Rightarrow> 'g \<Rightarrow> 'g" where
  "absorb P xs g \<equiv> fold (\<lambda>b g. pr_ghash_block P g b) (blocks16 xs) g"

lemma padded_is: "ghash_ok P \<Longrightarrow> pr_ghash_padded P g xs = absorb P xs g"
  by (simp add: ghash_ok_def)

text \<open>GCM as it is specified: the key stream from counter 1 masks the tag, from counter 2 on the message; the
  tag authenticates the padded associated data, the padded ciphertext and their lengths in bits.\<close>

definition keystream :: "'g prims \<Rightarrow> u8 list \<Rightarrow> u8 list \<Rightarrow> nat \<Rightarrow> nat \<Rightarrow> u8 list" where
  "keystream P key nonce pos n = map (\<lambda>i. pr_keystream P key (nonce @ replicate 4 0) (pos + i)) [0..<n]"

definition xor_stream :: "'g prims \<Rightarrow> u8 list \<Rightarrow> u8 list \<Rightarrow> nat \<Rightarrow> u8 list \<Rightarrow> u8 list" where
  "xor_stream P key nonce pos xs = map2 (XOR) xs (keystream P key nonce pos (length xs))"

definition gcm_tag :: "'g prims \<Rightarrow> u8 list \<Rightarrow> u8 list \<Rightarrow> u8 list \<Rightarrow> u8 list \<Rightarrow> u8 list" where
  "gcm_tag P key nonce aad ct =
     map2 (XOR)
       (pr_ghash_final P (pr_ghash_block P
          (absorb P ct (absorb P aad (pr_ghash_new P (pr_aes P key (replicate 16 0)))))
          (be_bytes 8 (8 * length aad) @ be_bytes 8 (8 * length ct))))
       (keystream P key nonce 16 16)"

definition gcm_seal :: "'g prims \<Rightarrow> u8 list \<Rightarrow> u8 list \<Rightarrow> u8 list \<Rightarrow> u8 list \<Rightarrow> u8 list" where
  "gcm_seal P key nonce aad pt =
     xor_stream P key nonce 32 pt @ gcm_tag P key nonce aad (xor_stream P key nonce 32 pt)"

lemma length_keystream [simp]: "length (keystream P key nonce pos n) = n"
  by (simp add: keystream_def)

lemma length_xor_stream [simp]: "length (xor_stream P key nonce pos xs) = length xs"
  by (simp add: xor_stream_def)

lemma length_gcm_tag: "ghash_ok P \<Longrightarrow> length (gcm_tag P key nonce aad ct) = 16"
  by (simp add: gcm_tag_def ghash_ok_def)

lemma length_gcm_seal: "ghash_ok P \<Longrightarrow> length (gcm_seal P key nonce aad pt) = length pt + 16"
  by (simp add: gcm_seal_def length_gcm_tag)

lemma xor_stream_twice [simp]: "xor_stream P key nonce pos (xor_stream P key nonce pos xs) = xs"
  by (rule nth_equalityI) (simp_all add: xor_stream_def xor.assoc)

lemma xor_stream_append:
  "xor_stream P key nonce pos (xs @ ys) = xor_stream P key nonce pos xs @ xor_stream P key nonce (pos + length xs) ys"
  by (rule nth_equalityI) (auto simp: xor_stream_def keystream_def nth_append add.assoc)

section \<open>The authenticator absorbs a message in any pieces\<close>

text \<open>The state after the ciphertext bytes \<open>m\<close>, having begun with \<open>g\<close> behind the associated data.\<close>

definition absorbed :: "'g prims \<Rightarrow> 'g \<Rightarrow> u8 list \<Rightarrow> nat \<Rightarrow> u8 list \<Rightarrow> 'g gcm_ghash \<Rightarrow> bool" where
  "absorbed P g pad ad m s \<longleftrightarrow>
     (\<exists>full part. m = full @ part \<and> length full mod 16 = 0 \<and> length part < 16 \<and>
        gg_ghash s = absorb P full g \<and> gg_offset s = length part \<and> take (length part) (gg_buf s) = part \<and>
        length (gg_buf s) = 16 \<and> gg_msg_len s = length m \<and> gg_pad s = pad \<and> gg_ad_len s = ad)"

lemma absorbedE:
  assumes "absorbed P g pad ad m s"
  obtains full part k where "m = full @ part" "length full = 16 * k" "length part < 16" "gg_ghash s = absorb P full g"
    "gg_offset s = length part" "take (length part) (gg_buf s) = part" "length (gg_buf s) = 16" "gg_msg_len s = length m"
    "gg_pad s = pad" "gg_ad_len s = ad"
  using assms unfolding absorbed_def by (metis mult_div_mod_eq add_0_right)

lemma update_aligned:
  assumes "ghash_ok P" "absorbed P g pad ad m s" "gg_offset s = 0"
  shows "\<exists>s'. gg_update P x s = Ok s' \<and> absorbed P g pad ad (m @ x) s'"
proof -
  from assms(2) obtain full part k where f: "m = full @ part" "length full = 16 * k" "length part < 16" "gg_ghash s = absorb P full g"
    "gg_offset s = length part" "take (length part) (gg_buf s) = part" "length (gg_buf s) = 16" "gg_msg_len s = length m"
    "gg_pad s = pad" "gg_ad_len s = ad" by (rule absorbedE)
  then have m: "m = full" using assms(3) by simp
  let ?n = "16 * (length x div 16)"
  have n: "?n \<le> length x" "length x - ?n < 16" by simp_all
  have t: "length (take ?n x) = 16 * (length x div 16)" using n(1) by simp
  let ?s = "s\<lparr>gg_msg_len := gg_msg_len s + length x, gg_ghash := pr_ghash_padded P (gg_ghash s) (take ?n x),
      gg_buf := splice_at 0 (drop ?n x) (gg_buf s), gg_offset := length x - ?n\<rparr>"
  have "gg_update P x s = Ok ?s"
    using assms(3) n(2) by (subst gg_update.simps) (simp add: Let_def mult.commute)
  moreover have "absorbed P g pad ad (m @ x) ?s"
    unfolding absorbed_def
  proof (intro exI conjI)
    show "m @ x = (full @ take ?n x) @ drop ?n x" by (simp add: m)
    show "gg_ghash ?s = absorb P (full @ take ?n x) g"
      by (simp add: padded_is [OF assms(1)] f(4) blocks16_append [OF f(2)])
  qed (use f n in \<open>auto simp: m splice_at_def t mod_mult_self1_is_0\<close>)
  ultimately show ?thesis by blast
qed

lemma update_absorbs:
  assumes "ghash_ok P" "absorbed P g pad ad m s"
  shows "\<exists>s'. gg_update P x s = Ok s' \<and> absorbed P g pad ad (m @ x) s'"
proof (cases "gg_offset s = 0")
  case False
  from assms(2) obtain full part k where f: "m = full @ part" "length full = 16 * k" "length part < 16" "gg_ghash s = absorb P full g"
    "gg_offset s = length part" "take (length part) (gg_buf s) = part" "length (gg_buf s) = 16" "gg_msg_len s = length m"
    "gg_pad s = pad" "gg_ad_len s = ad" by (rule absorbedE)
  let ?t = "min (length x) (16 - length part)"
  have o: "0 < gg_offset s" using False by simp
  let ?b = "splice_at (length part) (take ?t x) (gg_buf s)"
  have b: "take (length part + ?t) ?b = part @ take ?t x" "length ?b = 16"
    using f(3,6,7) by (auto simp: splice_at_def)
  show ?thesis
  proof (cases "length part + ?t = 16")
    case True
    let ?s = "s\<lparr>gg_buf := ?b, gg_msg_len := gg_msg_len s + ?t, gg_ghash := pr_ghash_block P (gg_ghash s) ?b, gg_offset := 0\<rparr>"
    have u: "gg_update P x s = gg_update P (drop ?t x) ?s"
      using o True f(5) by (subst gg_update.simps) (simp add: Let_def)
    have p: "?b = part @ take ?t x" "length (part @ take ?t x) = 16" using b True f(3) by auto
    have "absorbed P g pad ad (m @ take ?t x) ?s"
      unfolding absorbed_def
    proof (intro exI conjI)
      show "m @ take ?t x = (full @ (part @ take ?t x)) @ []" by (simp add: f(1))
      show "gg_ghash ?s = absorb P (full @ (part @ take ?t x)) g"
        using p by (simp add: f(4) blocks16_append [OF f(2)] blocks16_single)
    qed (use f p b in \<open>auto simp del: length_append\<close>, auto simp: f)
    from update_aligned [OF assms(1) this, of "drop ?t x"] show ?thesis unfolding u by simp
  next
    case False
    then have l: "length part + ?t < 16" "?t = length x" using f(3) by auto
    let ?s = "s\<lparr>gg_buf := ?b, gg_offset := length part + ?t, gg_msg_len := gg_msg_len s + ?t\<rparr>"
    have "gg_update P x s = Ok ?s" using o False l f(5) by (subst gg_update.simps) (simp add: Let_def)
    moreover have "absorbed P g pad ad (m @ x) ?s"
      unfolding absorbed_def
    proof (intro exI conjI)
      show "m @ x = full @ (part @ x)" by (simp add: f(1))
    qed (use f l b in auto)
    ultimately show ?thesis by blast
  qed
qed (rule update_aligned [OF assms])

lemma finalize_is:
  assumes "ghash_ok P" "absorbed P g pad ad m s"
  shows "gg_finalize P s =
    map2 (XOR) (pr_ghash_final P (pr_ghash_block P (absorb P m g) (be_bytes 8 (8 * ad) @ be_bytes 8 (8 * length m)))) pad"
proof -
  from assms(2) obtain full part k where f: "m = full @ part" "length full = 16 * k" "length part < 16" "gg_ghash s = absorb P full g"
    "gg_offset s = length part" "take (length part) (gg_buf s) = part" "length (gg_buf s) = 16" "gg_msg_len s = length m"
    "gg_pad s = pad" "gg_ad_len s = ad" by (rule absorbedE)
  have "(if 0 < gg_offset s then pr_ghash_padded P (gg_ghash s) (take (gg_offset s) (gg_buf s)) else gg_ghash s) = absorb P m g"
    by (simp add: padded_is [OF assms(1)] f(1,4,5,6) blocks16_append [OF f(2)])
  then show ?thesis by (simp add: gg_finalize_def f(8-10))
qed

section \<open>Sealing in any pieces\<close>

lemma ctr_process_is:
  assumes "pos + length buf \<le> pr_keystream_len P"
  shows "ctr_process P buf \<lparr>ctr_key = key, ctr_block = nonce @ replicate 4 0, ctr_pos = pos\<rparr> =
    Ok (xor_stream P key nonce pos buf, \<lparr>ctr_key = key, ctr_block = nonce @ replicate 4 0, ctr_pos = pos + length buf\<rparr>)"
proof -
  have "map (\<lambda>i. buf ! i XOR pr_keystream P key (nonce @ replicate 4 0) (pos + i)) [0..<length buf] = xor_stream P key nonce pos buf"
    by (rule nth_equalityI) (simp_all add: xor_stream_def keystream_def)
  then show ?thesis using assms by (simp add: ctr_process_def)
qed

text \<open>A cipher that has sealed or opened a message with the ciphertext \<open>m\<close> so far.\<close>

definition running :: "'g prims \<Rightarrow> u8 list \<Rightarrow> u8 list \<Rightarrow> u8 list \<Rightarrow> u8 list \<Rightarrow> 'g gcm \<Rightarrow> bool" where
  "running P key nonce aad m c \<longleftrightarrow>
     fst c = \<lparr>ctr_key = key, ctr_block = nonce @ replicate 4 0, ctr_pos = 32 + length m\<rparr> \<and>
     absorbed P (absorb P aad (pr_ghash_new P (pr_aes P key (replicate 16 0)))) (keystream P key nonce 16 16) (length aad) m (snd c)"

lemma setup_running:
  assumes "ghash_ok P" "length key = 32" "length nonce = 12" "32 \<le> pr_keystream_len P"
  obtains c where "setup_gcm P key nonce aad = Ok c" "running P key nonce aad [] c"
    "\<And>k. gcm_key_new P key = Ok k \<Longrightarrow> gcm_key_setup P k nonce aad = Ok c"
proof -
  have pad: "xor_stream P key nonce 16 (replicate 16 0) = keystream P key nonce 16 16"
    by (rule nth_equalityI) (simp_all add: xor_stream_def)
  have "ctr_process P (replicate 16 0) \<lparr>ctr_key = key, ctr_block = nonce @ replicate 4 0, ctr_pos = 16\<rparr> =
      Ok (keystream P key nonce 16 16, \<lparr>ctr_key = key, ctr_block = nonce @ replicate 4 0, ctr_pos = 32\<rparr>)"
    using ctr_process_is [of 16 "replicate 16 0" P key nonce] assms(4) unfolding pad by simp
  moreover have "absorbed P (absorb P aad g) pad (length aad) [] (gg_from_keyed P g pad aad)" for g pad
    by (simp add: absorbed_def gg_from_keyed_def padded_is [OF assms(1)])
  ultimately show thesis using assms(2,3)
    by (intro that) (auto simp: setup_gcm_def gcm_key_new_def gcm_key_setup_def ctr32_new_def gg_new_def running_def Let_def)
qed

lemma encrypt_running:
  assumes "ghash_ok P" "running P key nonce aad (xor_stream P key nonce 32 m) c" "32 + length m + length x \<le> pr_keystream_len P"
  obtains c' where "gcm_encrypt P x c = Ok (xor_stream P key nonce (32 + length m) x, c')"
    "running P key nonce aad (xor_stream P key nonce 32 (m @ x)) c'"
proof -
  obtain ctr s where c: "c = (ctr, s)" by (cases c)
  note r = assms(2) [unfolded running_def c fst_conv snd_conv length_xor_stream]
  obtain s' where "gg_update P (xor_stream P key nonce (32 + length m) x) s = Ok s'"
    "absorbed P (absorb P aad (pr_ghash_new P (pr_aes P key (replicate 16 0)))) (keystream P key nonce 16 16) (length aad)
      (xor_stream P key nonce 32 m @ xor_stream P key nonce (32 + length m) x) s'"
    using update_absorbs [OF assms(1) r [THEN conjunct2]] by blast
  then show thesis using r ctr_process_is [OF assms(3), of key nonce]
    by (intro that) (auto simp: gcm_encrypt_def c running_def xor_stream_append add.assoc)
qed

lemma decrypt_running:
  assumes "ghash_ok P" "running P key nonce aad [] c" "32 + length y \<le> pr_keystream_len P"
  obtains c' where "gcm_decrypt P y c = Ok (xor_stream P key nonce 32 y, c')" "running P key nonce aad y c'"
proof -
  obtain ctr s where c: "c = (ctr, s)" by (cases c)
  note r = assms(2) [unfolded running_def c fst_conv snd_conv]
  obtain s' where "gg_update P y s = Ok s'"
    "absorbed P (absorb P aad (pr_ghash_new P (pr_aes P key (replicate 16 0)))) (keystream P key nonce 16 16) (length aad) y s'"
    using update_absorbs [OF assms(1) r [THEN conjunct2], of y] by auto
  then show thesis using r ctr_process_is [OF assms(3), of key nonce]
    by (intro that) (auto simp: gcm_decrypt_def c running_def)
qed

lemma tag_running: "ghash_ok P \<Longrightarrow> running P key nonce aad m c \<Longrightarrow> gg_finalize P (snd c) = gcm_tag P key nonce aad m"
  unfolding running_def gcm_tag_def by (erule finalize_is, erule conjunct2)

text \<open>The message in pieces, one call of \<open>encrypt\<close> each.\<close>

fun encrypt_pieces :: "'g prims \<Rightarrow> u8 list list \<Rightarrow> 'g gcm \<Rightarrow> (crypto_error, u8 list \<times> 'g gcm) outcome" where
  "encrypt_pieces P [] c = Ok ([], c)"
| "encrypt_pieces P (x # xs) c =
     obind (gcm_encrypt P x c) (\<lambda>(y, c). obind (encrypt_pieces P xs c) (\<lambda>(ys, c). Ok (y @ ys, c)))"

lemma pieces_running:
  assumes "ghash_ok P"
  shows "running P key nonce aad (xor_stream P key nonce 32 m) c \<Longrightarrow> 32 + length m + length (concat xs) \<le> pr_keystream_len P \<Longrightarrow>
    \<exists>c'. encrypt_pieces P xs c = Ok (xor_stream P key nonce (32 + length m) (concat xs), c') \<and>
      running P key nonce aad (xor_stream P key nonce 32 (m @ concat xs)) c'"
proof (induction xs arbitrary: m c)
  case Nil
  then show ?case by (simp add: xor_stream_def)
next
  case (Cons x xs)
  have "32 + length m + length x \<le> pr_keystream_len P" using Cons.prems(2) by simp
  then obtain c' where c: "gcm_encrypt P x c = Ok (xor_stream P key nonce (32 + length m) x, c')"
    "running P key nonce aad (xor_stream P key nonce 32 (m @ x)) c'"
    by (rule encrypt_running [OF assms Cons.prems(1)]) (rule that)
  from Cons.IH [OF c(2)] Cons.prems(2) show ?case by (auto simp: c(1) xor_stream_append add.assoc)
qed

lemma seal_is:
  assumes "ghash_ok P" "running P key nonce aad [] c" "32 + length pt \<le> pr_keystream_len P"
  shows "\<exists>c'. gcm_encrypt P pt c = Ok (xor_stream P key nonce 32 pt, c') \<and> compute_tag P c' = gcm_tag P key nonce aad (xor_stream P key nonce 32 pt)"
proof -
  have "running P key nonce aad (xor_stream P key nonce 32 []) c" using assms(2) by (simp add: xor_stream_def)
  from encrypt_running [OF assms(1) this, of pt] assms(3) obtain c' where
    "gcm_encrypt P pt c = Ok (xor_stream P key nonce 32 pt, c')" "running P key nonce aad (xor_stream P key nonce 32 pt) c'"
    by auto
  then show ?thesis using tag_running [OF assms(1)] by (auto simp: compute_tag_def split: prod.split)
qed

lemma open_is:
  assumes "ghash_ok P" "running P key nonce aad [] c" "32 + length ct \<le> pr_keystream_len P" "length tag = 16"
  shows "\<exists>c'. gcm_decrypt P ct c = Ok (xor_stream P key nonce 32 ct, c') \<and>
    verify_tag P tag c' = (if tag = gcm_tag P key nonce aad ct then Ok () else Err InvalidTag)"
proof -
  obtain c' where "gcm_decrypt P ct c = Ok (xor_stream P key nonce 32 ct, c')" "running P key nonce aad ct c'"
    by (rule decrypt_running [OF assms(1,2,3)]) (rule that)
  then show ?thesis using tag_running [OF assms(1)] assms(4) by (auto simp: verify_tag_def split: prod.split)
qed

text \<open>What every entry point of the provider computes, in the terms of the reference.\<close>

lemma in_place_is:
  assumes "ghash_ok P" "setup = Ok c" "running P key nonce aad [] c"
  shows "32 + length pt \<le> pr_keystream_len P \<Longrightarrow> seal_in_place P setup pt = Ok (gcm_seal P key nonce aad pt)"
    and "32 + length ct \<le> pr_keystream_len P \<Longrightarrow> length tag = 16 \<Longrightarrow> open_in_place P setup (ct @ tag) =
      (if tag = gcm_tag P key nonce aad ct then Ok (xor_stream P key nonce 32 ct) else Err AuthFailed)"
proof -
  assume "32 + length pt \<le> pr_keystream_len P"
  from seal_is [OF assms(1,3) this] show "seal_in_place P setup pt = Ok (gcm_seal P key nonce aad pt)"
    by (auto simp: seal_in_place_def assms(2) gcm_seal_def)
next
  assume "32 + length ct \<le> pr_keystream_len P" "length tag = 16"
  from open_is [OF assms(1,3) this] this(2) show "open_in_place P setup (ct @ tag) =
      (if tag = gcm_tag P key nonce aad ct then Ok (xor_stream P key nonce 32 ct) else Err AuthFailed)"
    by (auto simp: open_in_place_def assms(2) Let_def)
qed

lemma one_shot_is_in_place:
  "aes_256_gcm_encrypt P key nonce aad pt out = omap (\<lambda>x. out @ x) (aes_256_gcm_encrypt_in_place P key nonce aad pt)"
  "aes_256_gcm_decrypt P key nonce aad ct out = omap (\<lambda>x. out @ x) (aes_256_gcm_decrypt_in_place P key nonce aad ct)"
proof -
  show "aes_256_gcm_encrypt P key nonce aad pt out = omap (\<lambda>x. out @ x) (aes_256_gcm_encrypt_in_place P key nonce aad pt)"
    by (simp add: aes_256_gcm_encrypt_def aes_256_gcm_encrypt_in_place_def seal_in_place_def omap_obind obind_assoc split_def)
  have c: "(case v of Ok () \<Rightarrow> Ok (out @ x) | Err e \<Rightarrow> Err AuthFailed | Panic \<Rightarrow> Panic) =
      obind (case v of Ok () \<Rightarrow> Ok x | Err e \<Rightarrow> Err AuthFailed | Panic \<Rightarrow> Panic) (\<lambda>x. Ok (out @ x))"
    for v :: "(crypto_error, unit) outcome" and x by (cases v) simp_all
  show "aes_256_gcm_decrypt P key nonce aad ct out = omap (\<lambda>x. out @ x) (aes_256_gcm_decrypt_in_place P key nonce aad ct)"
    by (simp add: aes_256_gcm_decrypt_def aes_256_gcm_decrypt_in_place_def open_in_place_def omap_obind obind_assoc split_def Let_def c)
qed

lemma seal_exact:
  assumes "ghash_ok P" "length key = 32" "length nonce = 12" "32 + length pt \<le> pr_keystream_len P"
  shows "aes_256_gcm_encrypt_in_place P key nonce aad pt = Ok (gcm_seal P key nonce aad pt)"
    and "transport_aead P key = Ok k \<Longrightarrow> encrypt_in_place P k nonce aad pt = Ok (gcm_seal P key nonce aad pt)"
proof -
  have "32 \<le> pr_keystream_len P" using assms(4) by simp
  then obtain c where c: "setup_gcm P key nonce aad = Ok c" "running P key nonce aad [] c"
    "\<And>k. gcm_key_new P key = Ok k \<Longrightarrow> gcm_key_setup P k nonce aad = Ok c"
    by (rule setup_running [OF assms(1,2,3)]) (rule that)
  show "aes_256_gcm_encrypt_in_place P key nonce aad pt = Ok (gcm_seal P key nonce aad pt)"
    unfolding aes_256_gcm_encrypt_in_place_def by (rule in_place_is(1) [OF assms(1) c(1,2) assms(4)])
  assume "transport_aead P key = Ok k"
  then have "gcm_key_new P key = Ok k" unfolding transport_aead_def by (cases "gcm_key_new P key") simp_all
  from c(3) [OF this] show "encrypt_in_place P k nonce aad pt = Ok (gcm_seal P key nonce aad pt)"
    unfolding encrypt_in_place_def by (rule in_place_is(1) [OF assms(1) _ c(2) assms(4)])
qed

lemma open_exact:
  assumes "ghash_ok P" "length key = 32" "length nonce = 12" "32 + length ct \<le> pr_keystream_len P" "length tag = 16"
  shows "aes_256_gcm_decrypt_in_place P key nonce aad (ct @ tag) =
      (if tag = gcm_tag P key nonce aad ct then Ok (xor_stream P key nonce 32 ct) else Err AuthFailed)"
    and "transport_aead P key = Ok k \<Longrightarrow> decrypt_in_place P k nonce aad (ct @ tag) =
      (if tag = gcm_tag P key nonce aad ct then Ok (xor_stream P key nonce 32 ct) else Err AuthFailed)"
proof -
  have "32 \<le> pr_keystream_len P" using assms(4) by simp
  then obtain c where c: "setup_gcm P key nonce aad = Ok c" "running P key nonce aad [] c"
    "\<And>k. gcm_key_new P key = Ok k \<Longrightarrow> gcm_key_setup P k nonce aad = Ok c"
    by (rule setup_running [OF assms(1,2,3)]) (rule that)
  show "aes_256_gcm_decrypt_in_place P key nonce aad (ct @ tag) =
      (if tag = gcm_tag P key nonce aad ct then Ok (xor_stream P key nonce 32 ct) else Err AuthFailed)"
    unfolding aes_256_gcm_decrypt_in_place_def by (rule in_place_is(2) [OF assms(1) c(1,2) assms(4,5)])
  assume "transport_aead P key = Ok k"
  then have "gcm_key_new P key = Ok k" unfolding transport_aead_def by (cases "gcm_key_new P key") simp_all
  from c(3) [OF this] show "decrypt_in_place P k nonce aad (ct @ tag) =
      (if tag = gcm_tag P key nonce aad ct then Ok (xor_stream P key nonce 32 ct) else Err AuthFailed)"
    unfolding decrypt_in_place_def by (rule in_place_is(2) [OF assms(1) _ c(2) assms(4,5)])
qed

lemma open_sealed:
  assumes "ghash_ok P" "length key = 32" "length nonce = 12" "32 + length pt \<le> pr_keystream_len P"
  shows "aes_256_gcm_decrypt_in_place P key nonce aad (gcm_seal P key nonce aad pt) = Ok pt"
    and "transport_aead P key = Ok k \<Longrightarrow> decrypt_in_place P k nonce aad (gcm_seal P key nonce aad pt) = Ok pt"
  using open_exact [OF assms(1,2,3) _ length_gcm_tag [OF assms(1)]] assms(4) by (simp_all add: gcm_seal_def)

section \<open>Main results\<close>

text \<open>C11. AES-256-GCM is the specified mode, and opening inverts sealing. For every key, nonce,
  associated data and plaintext within the key stream, both entry points of the provider (the one that
  appends to a vector and the one with a precomputed key handle working in place) return the counter-mode ciphertext
  followed by the tag over the padded data and the lengths; feeding the plaintext in any pieces gives the
  same bytes and the same tag; opening gives the plaintext back; and a buffer with any other tag is
  rejected as unauthentic. Nothing is assumed of the block cipher.\<close>

theorem gcm_exact:
  assumes "ghash_ok P" "length key = 32" "length nonce = 12" "32 + length (concat pieces) \<le> pr_keystream_len P"
    "transport_aead P key = Ok k" "length tag = 16"
  shows "aes_256_gcm_encrypt P key nonce aad (concat pieces) out = Ok (out @ gcm_seal P key nonce aad (concat pieces)) \<and>
    encrypt_in_place P k nonce aad (concat pieces) = Ok (gcm_seal P key nonce aad (concat pieces)) \<and>
    obind (setup_gcm P key nonce aad) (\<lambda>c. obind (encrypt_pieces P pieces c) (\<lambda>(ct, c). Ok (ct @ compute_tag P c))) =
      Ok (gcm_seal P key nonce aad (concat pieces)) \<and>
    aes_256_gcm_decrypt P key nonce aad (gcm_seal P key nonce aad (concat pieces)) out = Ok (out @ concat pieces) \<and>
    decrypt_in_place P k nonce aad (gcm_seal P key nonce aad (concat pieces)) = Ok (concat pieces) \<and>
    (tag \<noteq> gcm_tag P key nonce aad (concat pieces) \<longrightarrow>
      aes_256_gcm_decrypt P key nonce aad (concat pieces @ tag) out = Err AuthFailed \<and>
      decrypt_in_place P k nonce aad (concat pieces @ tag) = Err AuthFailed)"
proof -
  have "32 \<le> pr_keystream_len P" using assms(4) by simp
  then obtain c where c: "setup_gcm P key nonce aad = Ok c" "running P key nonce aad [] c"
    by (rule setup_running [OF assms(1,2,3)]) (rule that)
  have "running P key nonce aad (xor_stream P key nonce 32 []) c" using c(2) by (simp add: xor_stream_def)
  from pieces_running [OF assms(1) this, of pieces] assms(4) obtain c' where
    "encrypt_pieces P pieces c = Ok (xor_stream P key nonce 32 (concat pieces), c')"
    "running P key nonce aad (xor_stream P key nonce 32 (concat pieces)) c'" by auto
  then have "obind (setup_gcm P key nonce aad) (\<lambda>c. obind (encrypt_pieces P pieces c) (\<lambda>(ct, c). Ok (ct @ compute_tag P c))) =
      Ok (gcm_seal P key nonce aad (concat pieces))"
    using tag_running [OF assms(1)] by (auto simp: c(1) gcm_seal_def compute_tag_def split: prod.split)
  moreover note seal_exact [OF assms(1-4), where aad = aad] open_sealed [OF assms(1-4), where aad = aad]
    open_exact [OF assms(1-4,6), where aad = aad]
  ultimately show ?thesis using assms(5) by (simp add: one_shot_is_in_place)
qed

text \<open>Primitives that meet the contract: a key stream of counters and a GHASH that adds up its blocks.\<close>

definition toy_prims :: "u8 list prims" where
  "toy_prims = \<lparr>pr_aes = (\<lambda>key block. map2 (+) (take 16 key) block), pr_keystream = (\<lambda>key block i. of_nat i + hd key),
     pr_keystream_len = 1000, pr_ghash_new = (\<lambda>h. take 16 (h @ replicate 16 0)),
     pr_ghash_block = (\<lambda>g b. map2 (+) g (take 16 (b @ replicate 16 0))),
     pr_ghash_padded = (\<lambda>g xs. fold (\<lambda>b g. map2 (+) g (take 16 (b @ replicate 16 0))) (blocks16 xs) g),
     pr_ghash_final = (\<lambda>g. take 16 (g @ replicate 16 0))\<rparr>"

lemma toy_ok: "ghash_ok toy_prims"
  by (simp add: ghash_ok_def toy_prims_def min_def)

theorem gcm_exact_witness:
  "aes_256_gcm_decrypt toy_prims (replicate 32 7) (replicate 12 1) [9] (gcm_seal toy_prims (replicate 32 7) (replicate 12 1) [9] [1, 2, 3]) [] = Ok [1, 2, 3]"
proof -
  obtain k where k: "transport_aead toy_prims (replicate 32 7) = Ok k" by (simp add: transport_aead_def gcm_key_new_def)
  show ?thesis
    using gcm_exact [OF toy_ok, of "replicate 32 7" "replicate 12 1" "[[1], [2, 3]]" k "replicate 16 0" "[9]" "[]"] k
    by (simp add: toy_prims_def)
qed

end
