(* ===== verification/Noise.thy ===== *)
theory Noise
  imports Aes_Gcm
begin

text \<open>
  The Noise protocol state: \<open>state.rs\<close> and \<open>error.rs\<close> of the noise crate, and the \<open>NoiseHandshake\<close> of \<open>handshake.rs\<close>
  that mixes key agreements into it.

  SHA-256, HKDF and X25519 are crates and a parameter (\<open>suite\<close>) next to the primitives of AES-GCM.
  An operation that changes the state returns its result and the new state, also when it fails;
  \<open>sbind\<close> is the \<open>?\<close> operator there.
\<close>

section \<open>Results that carry a state\<close>

type_synonym ('s, 'e, 'a) act = "'s \<Rightarrow> ('e, 'a) outcome \<times> 's"

definition sbind :: "('s, 'e, 'a) act \<Rightarrow> ('a \<Rightarrow> ('s, 'e, 'b) act) \<Rightarrow> ('s, 'e, 'b) act" where
  "sbind m f s = (case m s of (Ok x, s) \<Rightarrow> f x s | (Err e, s) \<Rightarrow> (Err e, s) | (Panic, s) \<Rightarrow> (Panic, s))"

definition sret :: "('e, 'a) outcome \<Rightarrow> ('s, 'e, 'a) act" where
  "sret r s = (r, s)"

definition smodify :: "('s \<Rightarrow> 's) \<Rightarrow> ('s, 'e, unit) act" where
  "smodify f s = (Ok (), f s)"

fun omap_err :: "('e \<Rightarrow> 'f) \<Rightarrow> ('e, 'a) outcome \<Rightarrow> ('f, 'a) outcome" where
  "omap_err f (Ok x) = Ok x"
| "omap_err f (Err e) = Err (f e)"
| "omap_err f Panic = Panic"

definition smap_err :: "('e \<Rightarrow> 'f) \<Rightarrow> ('s, 'e, 'a) act \<Rightarrow> ('s, 'f, 'a) act" where
  "smap_err f m s = map_prod (omap_err f) id (m s)"

lemmas act_defs = sbind_def sret_def smodify_def smap_err_def

lemma omap_err_eq_Ok [simp]: "omap_err f r = Ok x \<longleftrightarrow> r = Ok x"
  by (cases r) simp_all

section \<open>Primitives\<close>

record 'g suite =
  su_prims :: "'g prims"
  su_sha256 :: "u8 list \<Rightarrow> u8 list"
  su_hkdf :: "u8 list \<Rightarrow> u8 list \<Rightarrow> nat \<Rightarrow> u8 list option"
  su_clamp :: "u8 list \<Rightarrow> u8 list"
  su_agree :: "u8 list \<Rightarrow> u8 list \<Rightarrow> u8 list"
  su_public :: "u8 list \<Rightarrow> u8 list"
  su_verify :: "u8 list \<Rightarrow> u8 list \<Rightarrow> u8 list \<Rightarrow> bool"

datatype noise_error = InvalidPatternLength nat nat | Encrypt crypto_provider_error | Decrypt crypto_provider_error |
  CiphertextTooShort | HkdfExpandFailed | InvalidKeyLength str nat nat | CounterExhausted

section \<open>Ciphers\<close>

definition generate_iv :: "u32 \<Rightarrow> u8 list" where
  "generate_iv counter = replicate 8 0 @ be_bytes 4 (unat counter)"

text \<open>A \<open>NoiseCipher\<close> is its transport handle.\<close>

type_synonym 'g noise_cipher = "'g gcm_key"

definition noise_cipher_new :: "'g suite \<Rightarrow> u8 list \<Rightarrow> (noise_error, 'g noise_cipher) outcome" where
  "noise_cipher_new S key = omap_err Encrypt (transport_aead (su_prims S) key)"

definition encrypt_with_counter :: "'g suite \<Rightarrow> 'g noise_cipher \<Rightarrow> u32 \<Rightarrow> u8 list \<Rightarrow> (noise_error, u8 list) outcome" where
  "encrypt_with_counter S aead counter plaintext =
     omap_err Encrypt (encrypt_in_place (su_prims S) aead (generate_iv counter) [] plaintext)"

definition encrypt_in_place_with_counter :: "'g suite \<Rightarrow> 'g noise_cipher \<Rightarrow> u32 \<Rightarrow> u8 list \<Rightarrow> (noise_error, u8 list) outcome" where
  "encrypt_in_place_with_counter S aead counter buffer =
     omap_err Encrypt (encrypt_in_place (su_prims S) aead (generate_iv counter) [] buffer)"

definition decrypt_in_place_with_counter :: "'g suite \<Rightarrow> 'g noise_cipher \<Rightarrow> u32 \<Rightarrow> u8 list \<Rightarrow> (noise_error, u8 list) outcome" where
  "decrypt_in_place_with_counter S aead counter buffer =
     omap_err Decrypt (decrypt_in_place (su_prims S) aead (generate_iv counter) [] buffer)"

section \<open>The state\<close>

record noise_state =
  ns_hash :: "u8 list"
  ns_salt :: "u8 list"
  ns_key :: "u8 list"
  ns_counter :: u32

definition authenticate :: "'g suite \<Rightarrow> u8 list \<Rightarrow> noise_state \<Rightarrow> noise_state" where
  "authenticate S data st = st\<lparr>ns_hash := su_sha256 S (ns_hash st @ data)\<rparr>"

definition noise_state_new :: "'g suite \<Rightarrow> u8 list \<Rightarrow> u8 list \<Rightarrow> noise_state" where
  "noise_state_new S pattern prologue =
     (let h = (if length pattern \<le> 32 then pattern @ replicate (32 - length pattern) 0 else su_sha256 S pattern)
      in authenticate S prologue \<lparr>ns_hash = h, ns_salt = h, ns_key = h, ns_counter = 0\<rparr>)"

definition post_increment_counter :: "(noise_state, noise_error, u32) act" where
  "post_increment_counter st =
     (if ns_counter st = - 1 then (Err CounterExhausted, st)
      else (Ok (ns_counter st), st\<lparr>ns_counter := ns_counter st + 1\<rparr>))"

definition noise_encrypt :: "'g suite \<Rightarrow> u8 list \<Rightarrow> (noise_state, noise_error, u8 list) act" where
  "noise_encrypt S plaintext =
     sbind post_increment_counter (\<lambda>n.
     sbind (\<lambda>st. (omap_err Encrypt (aes_256_gcm_encrypt (su_prims S) (ns_key st) (generate_iv n) (ns_hash st) plaintext []), st)) (\<lambda>out.
     sbind (smodify (authenticate S out)) (\<lambda>_.
     sret (Ok out))))"

definition noise_encrypt_into :: "'g suite \<Rightarrow> u8 list \<Rightarrow> u8 list \<Rightarrow> (noise_state, noise_error, u8 list) act" where
  "noise_encrypt_into S plaintext out =
     sbind post_increment_counter (\<lambda>n.
     sbind (\<lambda>st. (omap_err Encrypt (aes_256_gcm_encrypt (su_prims S) (ns_key st) (generate_iv n) (ns_hash st) plaintext out), st)) (\<lambda>out'.
     sbind (smodify (authenticate S (drop (length out) out'))) (\<lambda>_.
     sret (Ok out'))))"

definition noise_decrypt :: "'g suite \<Rightarrow> u8 list \<Rightarrow> (noise_state, noise_error, u8 list) act" where
  "noise_decrypt S ciphertext =
     sbind post_increment_counter (\<lambda>n.
     sbind (\<lambda>st. (omap_err Decrypt (aes_256_gcm_decrypt (su_prims S) (ns_key st) (generate_iv n) (ns_hash st) ciphertext []), st)) (\<lambda>out.
     sbind (smodify (authenticate S ciphertext)) (\<lambda>_.
     sret (Ok out))))"

definition noise_decrypt_into :: "'g suite \<Rightarrow> u8 list \<Rightarrow> u8 list \<Rightarrow> (noise_state, noise_error, u8 list) act" where
  "noise_decrypt_into S ciphertext out =
     (if length ciphertext < 16 then sret (Err CiphertextTooShort)
      else
        sbind post_increment_counter (\<lambda>n.
        sbind (\<lambda>st. (omap_err Decrypt (aes_256_gcm_decrypt (su_prims S) (ns_key st) (generate_iv n) (ns_hash st) ciphertext out), st)) (\<lambda>out.
        sbind (smodify (authenticate S ciphertext)) (\<lambda>_.
        sret (Ok out)))))"

definition extract_and_expand :: "'g suite \<Rightarrow> u8 list option \<Rightarrow> noise_state \<Rightarrow> (noise_error, u8 list \<times> u8 list) outcome" where
  "extract_and_expand S ikm st =
     (case su_hkdf S (ns_salt st) (case ikm of Some k \<Rightarrow> k | None \<Rightarrow> []) 64 of
        None \<Rightarrow> Err HkdfExpandFailed
      | Some okm \<Rightarrow> Ok (take 32 okm, drop 32 okm))"

definition mix_key :: "'g suite \<Rightarrow> u8 list \<Rightarrow> (noise_state, noise_error, unit) act" where
  "mix_key S input_key_material =
     sbind (smodify (\<lambda>st. st\<lparr>ns_counter := 0\<rparr>)) (\<lambda>_.
     sbind (\<lambda>st. (extract_and_expand S (Some input_key_material) st, st)) (\<lambda>(new_salt, new_key).
     smodify (\<lambda>st. st\<lparr>ns_salt := new_salt, ns_key := new_key\<rparr>)))"

definition noise_split :: "'g suite \<Rightarrow> noise_state \<Rightarrow> (noise_error, 'g noise_cipher \<times> 'g noise_cipher) outcome" where
  "noise_split S st =
     obind (extract_and_expand S None st) (\<lambda>(write_bytes, read_bytes).
     obind (noise_cipher_new S write_bytes) (\<lambda>wr.
     obind (noise_cipher_new S read_bytes) (\<lambda>rd. Ok (wr, rd))))"

section \<open>Key agreement\<close>

datatype curve_error = NoKeyTypeIdentifier | BadKeyType u8 | BadKeyLength nat | AgreementFailed crypto_provider_error

definition private_deserialize :: "'g suite \<Rightarrow> u8 list \<Rightarrow> (curve_error, u8 list) outcome" where
  "private_deserialize S value = (if length value \<noteq> 32 then Err (BadKeyLength (length value)) else Ok (su_clamp S value))"

definition from_djb_public_key_bytes :: "u8 list \<Rightarrow> (curve_error, u8 list) outcome" where
  "from_djb_public_key_bytes bytes = (if length bytes \<noteq> 32 then Err (BadKeyLength (length bytes)) else Ok bytes)"

definition calculate_agreement :: "'g suite \<Rightarrow> u8 list \<Rightarrow> u8 list \<Rightarrow> (curve_error, u8 list) outcome" where
  "calculate_agreement S our_key their_key = Ok (su_agree S our_key their_key)"

definition hex_digit :: "u8 \<Rightarrow> u8" where
  "hex_digit n = (if n < 10 then 48 + n else 87 + n)"

fun curve_error_fmt :: "curve_error \<Rightarrow> str" where
  "curve_error_fmt NoKeyTypeIdentifier = lit ''no key type identifier''"
| "curve_error_fmt (BadKeyType t) = lit ''bad key type <0x'' @ [hex_digit (t div 16), hex_digit (t mod 16)] @ lit ''>''"
| "curve_error_fmt (BadKeyLength n) = lit ''bad key length <'' @ dec n @ lit ''> for key with type <Djb>''"
| "curve_error_fmt (AgreementFailed e) = lit ''the active crypto provider failed the key agreement''"

definition mix_shared_secret :: "'g suite \<Rightarrow> u8 list \<Rightarrow> u8 list \<Rightarrow> (noise_state, str + noise_error, unit) act" where
  "mix_shared_secret S priv_key_bytes pub_key_bytes =
     sbind (sret (omap_err (Inl \<circ> curve_error_fmt) (private_deserialize S priv_key_bytes))) (\<lambda>our_private_key.
     sbind (sret (omap_err (Inl \<circ> curve_error_fmt) (from_djb_public_key_bytes pub_key_bytes))) (\<lambda>their_public_key.
     sbind (sret (omap_err (Inl \<circ> curve_error_fmt) (calculate_agreement S our_private_key their_public_key))) (\<lambda>shared_secret.
     smap_err Inr (mix_key S shared_secret))))"

section \<open>Two states in step\<close>

text \<open>What is relied on: the sizes of digests and keys, that HKDF expands 64 bytes, and that an agreement is the
  same from both sides.\<close>

definition suite_ok :: "'g suite \<Rightarrow> bool" where
  "suite_ok S \<longleftrightarrow> ghash_ok (su_prims S) \<and> (\<forall>xs. length (su_sha256 S xs) = 32) \<and>
     (\<forall>salt ikm. \<exists>okm. su_hkdf S salt ikm 64 = Some okm \<and> length okm = 64) \<and>
     (\<forall>k. length k = 32 \<longrightarrow> length (su_public S k) = 32) \<and>
     (\<forall>a b. length a = 32 \<and> length b = 32 \<longrightarrow> su_agree S (su_clamp S a) (su_public S b) = su_agree S (su_clamp S b) (su_public S a))"

lemma suite_okD:
  assumes "suite_ok S"
  shows "ghash_ok (su_prims S)" "length (su_sha256 S xs) = 32" "\<exists>okm. su_hkdf S salt ikm 64 = Some okm \<and> length okm = 64"
    "length k = 32 \<Longrightarrow> length (su_public S k) = 32"
    "length a = 32 \<Longrightarrow> length b = 32 \<Longrightarrow> su_agree S (su_clamp S a) (su_public S b) = su_agree S (su_clamp S b) (su_public S a)"
  using assms unfolding suite_ok_def by blast+

lemma length_generate_iv [simp]: "length (generate_iv n) = 12"
  by (simp add: generate_iv_def)

lemma generate_iv_inj: "generate_iv m = generate_iv n \<longleftrightarrow> m = n"
proof
  assume "generate_iv m = generate_iv n"
  then have "be_nat (be_bytes 4 (unat m)) = be_nat (be_bytes 4 (unat n))" by (simp add: generate_iv_def)
  moreover have "unat k < 256 ^ 4" for k :: u32 using unsigned_less [of k] by simp
  ultimately have "unat m = unat n" by (simp add: be_nat_be_bytes_id)
  then show "m = n" by (simp add: word_unat_eq_iff)
qed simp

text \<open>Sealing on one side and opening on the other leaves both in the same state.\<close>

lemma encrypt_decrypt_step:
  assumes "suite_ok S" "length (ns_key st) = 32" "ns_counter st \<noteq> - 1" "32 + length pt \<le> pr_keystream_len (su_prims S)"
  obtains ct where "noise_encrypt S pt st = (Ok ct, authenticate S ct (st\<lparr>ns_counter := ns_counter st + 1\<rparr>))"
    "noise_decrypt S ct st = (Ok pt, authenticate S ct (st\<lparr>ns_counter := ns_counter st + 1\<rparr>))" "length ct = length pt + 16"
proof -
  note g = suite_okD(1) [OF assms(1)]
  let ?iv = "generate_iv (ns_counter st)"
  let ?ct = "gcm_seal (su_prims S) (ns_key st) ?iv (ns_hash st) pt"
  note f = seal_exact(1) [OF g assms(2) length_generate_iv assms(4), of "ns_counter st" "ns_hash st"]
    open_sealed(1) [OF g assms(2) length_generate_iv assms(4), of "ns_counter st" "ns_hash st"]
  show thesis
  proof (rule that [of ?ct])
    show "noise_encrypt S pt st = (Ok ?ct, authenticate S ?ct (st\<lparr>ns_counter := ns_counter st + 1\<rparr>))"
      using assms(3) f(1) by (simp add: noise_encrypt_def act_defs post_increment_counter_def one_shot_is_in_place)
    show "noise_decrypt S ?ct st = (Ok pt, authenticate S ?ct (st\<lparr>ns_counter := ns_counter st + 1\<rparr>))"
      using assms(3) f(2) by (simp add: noise_decrypt_def act_defs post_increment_counter_def one_shot_is_in_place)
    show "length ?ct = length pt + 16" by (rule length_gcm_seal [OF g])
  qed
qed

lemma mix_shared_secret_step:
  assumes "suite_ok S" "length a = 32" "length b = 32"
  obtains st' where "mix_shared_secret S a (su_public S b) st = (Ok (), st')" "mix_shared_secret S b (su_public S a) st = (Ok (), st')"
    "length (ns_key st') = 32" "ns_counter st' = 0" "ns_hash st' = ns_hash st"
proof -
  let ?k = "su_agree S (su_clamp S a) (su_public S b)"
  obtain okm where o: "su_hkdf S (ns_salt st) ?k 64 = Some okm" "length okm = 64" using suite_okD(3) [OF assms(1)] by blast
  note l = suite_okD(4) [OF assms(1)] and c = suite_okD(5) [OF assms(1,3,2)]
  show thesis
    by (rule that [of "st\<lparr>ns_counter := 0, ns_salt := take 32 okm, ns_key := drop 32 okm\<rparr>"])
      (simp_all add: mix_shared_secret_def act_defs private_deserialize_def from_djb_public_key_bytes_def calculate_agreement_def
        mix_key_def extract_and_expand_def assms l o c)
qed

lemma split_total:
  assumes "suite_ok S"
  obtains wr rd wk rk where "noise_split S st = Ok (wr, rd)" "length wk = 32" "length rk = 32" "transport_aead (su_prims S) wk = Ok wr"
    "transport_aead (su_prims S) rk = Ok rd"
proof -
  obtain okm where o: "su_hkdf S (ns_salt st) [] 64 = Some okm" "length okm = 64" using suite_okD(3) [OF assms] by blast
  have ex: "\<exists>k. transport_aead (su_prims S) key = Ok k" if "length key = 32" for key
    using that by (simp add: transport_aead_def gcm_key_new_def)
  have "length (take 32 okm) = 32" "length (drop 32 okm) = 32" using o(2) by simp_all
  from ex [OF this(1)] ex [OF this(2)] obtain wr rd where
    "transport_aead (su_prims S) (take 32 okm) = Ok wr" "transport_aead (su_prims S) (drop 32 okm) = Ok rd" by blast
  then show thesis using o
    by (intro that [of wr rd "take 32 okm" "drop 32 okm"]) (simp_all add: noise_split_def extract_and_expand_def noise_cipher_new_def)
qed

text \<open>A frame sealed under a counter opens under the same counter.\<close>

lemma cipher_step:
  assumes "suite_ok S" "length key = 32" "transport_aead (su_prims S) key = Ok k" "32 + length pt \<le> pr_keystream_len (su_prims S)"
  obtains ct where "encrypt_with_counter S k n pt = Ok ct" "encrypt_in_place_with_counter S k n pt = Ok ct"
    "decrypt_in_place_with_counter S k n ct = Ok pt" "length ct = length pt + 16"
  by (rule that [of "gcm_seal (su_prims S) key (generate_iv n) [] pt"])
    (simp_all add: encrypt_with_counter_def encrypt_in_place_with_counter_def decrypt_in_place_with_counter_def
      seal_exact(2) [OF suite_okD(1) [OF assms(1)] assms(2) length_generate_iv assms(4,3)]
      open_sealed(2) [OF suite_okD(1) [OF assms(1)] assms(2) length_generate_iv assms(4,3)]
      length_gcm_seal [OF suite_okD(1) [OF assms(1)]])

end
