(* ===== verification/Handshake.thy ===== *)
theory Handshake
  imports Noise
begin

text \<open>
  The handshakes of \<open>handshake.rs\<close>: XX, IK and XXfallback as an initiator runs them, and the verification of the
  certificate chain of the server.

  The messages are generated from a protobuf schema; their encoding is a parameter (\<open>codec\<close>), and so
  are the random ephemeral keys. \<open>respond_hello\<close> and \<open>respond_finish\<close> are the server of the test module of the same file.
\<close>

section \<open>Messages\<close>

record client_hello =
  ch_ephemeral :: "u8 list option"
  ch_static :: "u8 list option"
  ch_payload :: "u8 list option"

record server_hello =
  sh_ephemeral :: "u8 list option"
  sh_static :: "u8 list option"
  sh_payload :: "u8 list option"

record client_finish =
  cf_static :: "u8 list option"
  cf_payload :: "u8 list option"

record handshake_message =
  hm_client_hello :: "client_hello option"
  hm_server_hello :: "server_hello option"
  hm_client_finish :: "client_finish option"

record noise_certificate =
  nc_details :: "u8 list option"
  nc_signature :: "u8 list option"

record cert_chain =
  cc_leaf :: "noise_certificate option"
  cc_intermediate :: "noise_certificate option"

record certificate_details =
  cd_serial :: "u32 option"
  cd_issuer_serial :: "u32 option"
  cd_key :: "u8 list option"
  cd_not_before :: "64 word option"
  cd_not_after :: "64 word option"

record codec =
  handshake_message_to_vec :: "handshake_message \<Rightarrow> u8 list"
  handshake_message_decode :: "u8 list \<Rightarrow> (str, handshake_message) outcome"
  cert_chain_decode :: "u8 list \<Rightarrow> (str, cert_chain) outcome"
  certificate_details_decode :: "u8 list \<Rightarrow> (str, certificate_details) outcome"

definition no_message :: handshake_message where
  "no_message = \<lparr>hm_client_hello = None, hm_server_hello = None, hm_client_finish = None\<rparr>"

section \<open>Errors\<close>

datatype handshake_error = ProtoDecode str | IncompleteResponse | CryptoFailed str | CertVerification str |
  InvalidLength str nat nat | HandshakeKeyLength | NoiseFailed noise_error

fun noise_error_fmt :: "noise_error \<Rightarrow> str" where
  "noise_error_fmt (InvalidPatternLength e g) = lit ''invalid pattern length: expected '' @ dec e @ lit '', got '' @ dec g"
| "noise_error_fmt (Encrypt e) = lit ''AES-GCM encryption failed''"
| "noise_error_fmt (Decrypt e) = lit ''AES-GCM decryption failed''"
| "noise_error_fmt CiphertextTooShort = lit ''ciphertext too short to contain authentication tag''"
| "noise_error_fmt HkdfExpandFailed = lit ''HKDF expansion failed''"
| "noise_error_fmt (InvalidKeyLength name e g) =
     lit ''invalid key length for '' @ name @ lit '': expected '' @ dec e @ lit '', got '' @ dec g"
| "noise_error_fmt CounterExhausted = lit ''counter exhausted: nonce would be reused after 2^32 messages''"

fun handshake_error_fmt :: "handshake_error \<Rightarrow> str" where
  "handshake_error_fmt (ProtoDecode e) = lit ''Protobuf decoding error: '' @ e"
| "handshake_error_fmt IncompleteResponse = lit ''Handshake response is missing required parts''"
| "handshake_error_fmt (CryptoFailed e) = lit ''Crypto operation failed: '' @ e"
| "handshake_error_fmt (CertVerification e) = lit ''Server certificate verification failed: '' @ e"
| "handshake_error_fmt (InvalidLength name e g) =
     lit ''Unexpected data length: expected '' @ dec e @ lit '', got '' @ dec g @ lit '' for '' @ name"
| "handshake_error_fmt HandshakeKeyLength = lit ''Invalid key length''"
| "handshake_error_fmt (NoiseFailed e) = lit ''Noise protocol error: '' @ noise_error_fmt e"

section \<open>The certificate chain\<close>

datatype noise_cert_policy = Strict | DangerSkipCertChainVerify

definition skip_signature_check :: "noise_cert_policy \<Rightarrow> bool" where
  "skip_signature_check p = (case p of Strict \<Rightarrow> False | DangerSkipCertChainVerify \<Rightarrow> True)"

definition reuse_cached_chain :: "noise_cert_policy \<Rightarrow> bool" where
  "reuse_cached_chain p = (case p of Strict \<Rightarrow> True | DangerSkipCertChainVerify \<Rightarrow> False)"

definition WA_CERT_PUB_KEY :: "u8 list" where
  "WA_CERT_PUB_KEY =
     [0x14, 0x23, 0x75, 0x57, 0x4d, 0x0a, 0x58, 0x71, 0x66, 0xaa, 0xe7, 0x1e, 0xbe, 0x51, 0x64, 0x37,
      0xc4, 0xa2, 0x8b, 0x73, 0xe3, 0x69, 0x5c, 0x6c, 0xe1, 0xf7, 0xf9, 0x54, 0x5d, 0xa8, 0xee, 0x6b]"

definition verify_signature :: "'g suite \<Rightarrow> u8 list \<Rightarrow> u8 list \<Rightarrow> u8 list \<Rightarrow> bool" where
  "verify_signature S pub_key message signature \<longleftrightarrow> length signature = 64 \<and> su_verify S pub_key message signature"

definition verify_cert_step :: "'g suite \<Rightarrow> u8 list \<Rightarrow> u8 list \<Rightarrow> u8 list option \<Rightarrow> str \<Rightarrow> noise_cert_policy \<Rightarrow>
    (handshake_error, unit) outcome" where
  "verify_cert_step S issuer_key details signature label cert_policy =
     (if skip_signature_check cert_policy then Ok ()
      else
        obind (ok_or (CertVerification (lit ''Missing '' @ label @ lit '' signature'')) signature) (\<lambda>signature.
        obind (omap_err (\<lambda>_. CertVerification (lit ''Invalid '' @ label @ lit '' issuer key (not Djb/Curve25519)''))
          (from_djb_public_key_bytes issuer_key)) (\<lambda>pk.
        if verify_signature S pk details signature then Ok ()
        else Err (CertVerification (label @ lit '' signature failed XEdDSA verify'')))))"

record verified_chain =
  vc_intermediate_key :: "u8 list"
  vc_intermediate_not_before :: int
  vc_intermediate_not_after :: int
  vc_leaf_key :: "u8 list"
  vc_leaf_not_before :: int
  vc_leaf_not_after :: int

datatype chain_acceptance = Trusted verified_chain | Untrusted

definition debug_serial :: "u32 option \<Rightarrow> str" where
  "debug_serial s = (case s of None \<Rightarrow> lit ''None'' | Some n \<Rightarrow> lit ''Some('' @ dec (unat n) @ lit '')'')"

definition as_i64 :: "64 word option \<Rightarrow> int" where
  "as_i64 w = (case w of Some x \<Rightarrow> sint x | None \<Rightarrow> 0)"

definition verify_chain :: "'g suite \<Rightarrow> codec \<Rightarrow> u8 list \<Rightarrow> u8 list \<Rightarrow> noise_cert_policy \<Rightarrow> (handshake_error, chain_acceptance) outcome" where
  "verify_chain S C cert_decrypted static_decrypted cert_policy =
     obind (omap_err ProtoDecode (cert_chain_decode C cert_decrypted)) (\<lambda>chain.
     obind (ok_or (CertVerification (lit ''Missing intermediate cert'')) (cc_intermediate chain)) (\<lambda>intermediate.
     obind (ok_or (CertVerification (lit ''Missing leaf cert'')) (cc_leaf chain)) (\<lambda>leaf.
     obind (ok_or (CertVerification (lit ''Missing intermediate details'')) (nc_details intermediate)) (\<lambda>intermediate_details_bytes.
     obind (omap_err ProtoDecode (certificate_details_decode C intermediate_details_bytes)) (\<lambda>intermediate_details.
     let issuer_serial = (case cd_issuer_serial intermediate_details of Some n \<Rightarrow> n | None \<Rightarrow> 0) in
     if issuer_serial \<noteq> 0 then
       Err (CertVerification (lit ''Unexpected intermediate issuer serial: got '' @ dec (unat issuer_serial) @ lit '', expected 0''))
     else
     let intermediate_pk_bytes = (case cd_key intermediate_details of Some k \<Rightarrow> k | None \<Rightarrow> []) in
     if intermediate_pk_bytes = [] then Err (CertVerification (lit ''Intermediate details missing key''))
     else if length intermediate_pk_bytes \<noteq> 32 then Err (CertVerification (lit ''Intermediate details key is not 32 bytes''))
     else
     obind (verify_cert_step S WA_CERT_PUB_KEY intermediate_details_bytes (nc_signature intermediate) (lit ''intermediate'') cert_policy) (\<lambda>_.
     obind (ok_or (CertVerification (lit ''Missing leaf details'')) (nc_details leaf)) (\<lambda>leaf_details_bytes.
     obind (omap_err ProtoDecode (certificate_details_decode C leaf_details_bytes)) (\<lambda>leaf_details.
     if cd_issuer_serial leaf_details \<noteq> cd_serial intermediate_details then
       Err (CertVerification (lit ''Leaf issuer serial mismatch: got '' @ debug_serial (cd_issuer_serial leaf_details) @
         lit '', expected '' @ debug_serial (cd_serial intermediate_details)))
     else if (case cd_key leaf_details of Some k \<Rightarrow> k | None \<Rightarrow> []) \<noteq> static_decrypted then
       Err (CertVerification (lit ''Cert key does not match decrypted static key''))
     else
     obind (verify_cert_step S intermediate_pk_bytes leaf_details_bytes (nc_signature leaf) (lit ''leaf'') cert_policy) (\<lambda>_.
     if skip_signature_check cert_policy then Ok Untrusted
     else Ok (Trusted
       \<lparr>vc_intermediate_key = intermediate_pk_bytes,
        vc_intermediate_not_before = as_i64 (cd_not_before intermediate_details),
        vc_intermediate_not_after = as_i64 (cd_not_after intermediate_details),
        vc_leaf_key = static_decrypted,
        vc_leaf_not_before = as_i64 (cd_not_before leaf_details),
        vc_leaf_not_after = as_i64 (cd_not_after leaf_details)\<rparr>))))))))))"

definition verify_server_cert :: "'g suite \<Rightarrow> codec \<Rightarrow> u8 list \<Rightarrow> u8 list \<Rightarrow> (handshake_error, verified_chain) outcome" where
  "verify_server_cert S C cert_decrypted static_decrypted =
     (case verify_chain S C cert_decrypted static_decrypted Strict of
        Ok (Trusted chain) \<Rightarrow> Ok chain
      | Ok Untrusted \<Rightarrow> Err (CertVerification (lit ''chain accepted without signature checks cannot be verified''))
      | Err e \<Rightarrow> Err e
      | Panic \<Rightarrow> Panic)"

section \<open>Building and parsing messages\<close>

definition build_client_hello_msg :: "u8 list \<Rightarrow> handshake_message" where
  "build_client_hello_msg ephemeral_key =
     no_message\<lparr>hm_client_hello := Some \<lparr>ch_ephemeral = Some ephemeral_key, ch_static = None, ch_payload = None\<rparr>\<rparr>"

definition build_ik_client_hello_msg :: "u8 list \<Rightarrow> u8 list \<Rightarrow> u8 list \<Rightarrow> handshake_message" where
  "build_ik_client_hello_msg ephemeral_key encrypted_static encrypted_payload =
     no_message\<lparr>hm_client_hello :=
       Some \<lparr>ch_ephemeral = Some ephemeral_key, ch_static = Some encrypted_static, ch_payload = Some encrypted_payload\<rparr>\<rparr>"

definition build_client_finish_msg :: "u8 list \<Rightarrow> u8 list \<Rightarrow> handshake_message" where
  "build_client_finish_msg encrypted_pubkey encrypted_payload =
     no_message\<lparr>hm_client_finish := Some \<lparr>cf_static = Some encrypted_pubkey, cf_payload = Some encrypted_payload\<rparr>\<rparr>"

definition parse_server_hello_body :: "codec \<Rightarrow> u8 list \<Rightarrow> (handshake_error, server_hello) outcome" where
  "parse_server_hello_body C response_bytes =
     obind (omap_err ProtoDecode (handshake_message_decode C response_bytes)) (\<lambda>handshake_response.
     obind (ok_or IncompleteResponse (hm_server_hello handshake_response)) (\<lambda>hello.
     case sh_ephemeral hello of
       Some ephemeral \<Rightarrow>
         if length ephemeral \<noteq> 32 then Err (InvalidLength (lit ''server ephemeral key'') 32 (length ephemeral)) else Ok hello
     | None \<Rightarrow> Ok hello))"

definition parse_server_hello :: "codec \<Rightarrow> u8 list \<Rightarrow> (handshake_error, u8 list \<times> u8 list \<times> u8 list) outcome" where
  "parse_server_hello C response_bytes =
     obind (parse_server_hello_body C response_bytes) (\<lambda>hello.
     obind (ok_or IncompleteResponse (sh_ephemeral hello)) (\<lambda>server_ephemeral.
     obind (ok_or IncompleteResponse (sh_static hello)) (\<lambda>server_static_ciphertext.
     obind (ok_or IncompleteResponse (sh_payload hello)) (\<lambda>certificate_ciphertext.
     Ok (server_ephemeral, server_static_ciphertext, certificate_ciphertext)))))"

section \<open>XX\<close>

record key_pair =
  kp_public :: "u8 list"
  kp_private :: "u8 list"

definition hs_encrypt :: "'g suite \<Rightarrow> u8 list \<Rightarrow> (noise_state, handshake_error, u8 list) act" where
  "hs_encrypt S plaintext = smap_err NoiseFailed (noise_encrypt S plaintext)"

definition hs_decrypt :: "'g suite \<Rightarrow> u8 list \<Rightarrow> (noise_state, handshake_error, u8 list) act" where
  "hs_decrypt S ciphertext = smap_err NoiseFailed (noise_decrypt S ciphertext)"

definition hs_mix_shared_secret :: "'g suite \<Rightarrow> u8 list \<Rightarrow> u8 list \<Rightarrow> (noise_state, handshake_error, unit) act" where
  "hs_mix_shared_secret S priv_key_bytes pub_key_bytes =
     smap_err (case_sum CryptoFailed NoiseFailed) (mix_shared_secret S priv_key_bytes pub_key_bytes)"

definition to_key :: "u8 list \<Rightarrow> (handshake_error, u8 list) outcome" where
  "to_key bytes = (if length bytes = 32 then Ok bytes else Err HandshakeKeyLength)"

text \<open>The noise state next to the verdict on the chain.\<close>

definition on_noise :: "('s, 'e, 'a) act \<Rightarrow> ('s \<times> 't, 'e, 'a) act" where
  "on_noise m = (\<lambda>(st, t). case m st of (r, st) \<Rightarrow> (r, (st, t)))"

definition process_xx_server_hello_into :: "'g suite \<Rightarrow> codec \<Rightarrow> key_pair \<Rightarrow> key_pair \<Rightarrow> u8 list \<Rightarrow> u8 list \<Rightarrow> u8 list \<Rightarrow> u8 list \<Rightarrow>
    noise_cert_policy \<Rightarrow> (noise_state \<times> chain_acceptance option, handshake_error, u8 list) act" where
  "process_xx_server_hello_into S C ephemeral_kp static_kp payload server_ephemeral server_static_ciphertext certificate_ciphertext cert_policy =
     sbind (on_noise (smodify (authenticate S server_ephemeral))) (\<lambda>_.
     sbind (on_noise (hs_mix_shared_secret S (kp_private ephemeral_kp) server_ephemeral)) (\<lambda>_.
     sbind (on_noise (hs_decrypt S server_static_ciphertext)) (\<lambda>static_decrypted.
     sbind (sret (to_key static_decrypted)) (\<lambda>static_decrypted_arr.
     sbind (on_noise (hs_mix_shared_secret S (kp_private ephemeral_kp) static_decrypted_arr)) (\<lambda>_.
     sbind (on_noise (hs_decrypt S certificate_ciphertext)) (\<lambda>cert_decrypted.
     sbind (sret (omap_err (\<lambda>e. CertVerification (lit ''Error verifying server cert: '' @ handshake_error_fmt e))
       (verify_chain S C cert_decrypted static_decrypted_arr cert_policy))) (\<lambda>chain.
     sbind (smodify (\<lambda>(st, _). (st, Some chain))) (\<lambda>_.
     sbind (on_noise (hs_encrypt S (kp_public static_kp))) (\<lambda>encrypted_pubkey.
     sbind (on_noise (hs_mix_shared_secret S (kp_private static_kp) server_ephemeral)) (\<lambda>_.
     sbind (on_noise (hs_encrypt S payload)) (\<lambda>encrypted_payload.
     sret (Ok (handshake_message_to_vec C (build_client_finish_msg encrypted_pubkey encrypted_payload))))))))))))))"

record 'g xx_outcome =
  xo_write_cipher :: "'g noise_cipher"
  xo_read_cipher :: "'g noise_cipher"
  xo_server_cert_chain :: "verified_chain option"

definition finish_xx_outcome :: "'g suite \<Rightarrow> noise_state \<Rightarrow> chain_acceptance option \<Rightarrow> (handshake_error, 'g xx_outcome) outcome" where
  "finish_xx_outcome S noise chain =
     obind (case chain of
              Some (Trusted c) \<Rightarrow> Ok (Some c)
            | Some Untrusted \<Rightarrow> Ok None
            | None \<Rightarrow> Err IncompleteResponse) (\<lambda>server_cert_chain.
     obind (omap_err NoiseFailed (noise_split S noise)) (\<lambda>(write_cipher, read_cipher).
     Ok \<lparr>xo_write_cipher = write_cipher, xo_read_cipher = read_cipher, xo_server_cert_chain = server_cert_chain\<rparr>))"

record xx_state =
  xx_noise :: noise_state
  xx_ephemeral_kp :: key_pair
  xx_static_kp :: key_pair
  xx_payload :: "u8 list"
  xx_cert_policy :: noise_cert_policy
  xx_cert_chain :: "chain_acceptance option"

definition NOISE_PATTERN_XX :: "u8 list" where
  "NOISE_PATTERN_XX = lit ''Noise_XX_25519_AESGCM_SHA256'' @ replicate 4 0"

definition NOISE_PATTERN_IK :: "u8 list" where
  "NOISE_PATTERN_IK = lit ''Noise_IK_25519_AESGCM_SHA256'' @ replicate 4 0"

definition NOISE_PATTERN_XXFALLBACK :: "u8 list" where
  "NOISE_PATTERN_XXFALLBACK = lit ''Noise_XXfallback_25519_AESGCM_SHA256''"

text \<open>The random ephemeral key is an argument.\<close>

definition xx_new_with_cert_policy :: "'g suite \<Rightarrow> key_pair \<Rightarrow> key_pair \<Rightarrow> u8 list \<Rightarrow> u8 list \<Rightarrow> noise_cert_policy \<Rightarrow> xx_state" where
  "xx_new_with_cert_policy S ephemeral_kp static_kp client_payload prologue cert_policy =
     \<lparr>xx_noise = authenticate S (kp_public ephemeral_kp) (noise_state_new S NOISE_PATTERN_XX prologue),
      xx_ephemeral_kp = ephemeral_kp, xx_static_kp = static_kp, xx_payload = client_payload, xx_cert_policy = cert_policy,
      xx_cert_chain = None\<rparr>"

definition xx_new :: "'g suite \<Rightarrow> key_pair \<Rightarrow> key_pair \<Rightarrow> u8 list \<Rightarrow> u8 list \<Rightarrow> xx_state" where
  "xx_new S ephemeral_kp static_kp client_payload prologue =
     xx_new_with_cert_policy S ephemeral_kp static_kp client_payload prologue Strict"

definition xx_build_client_hello :: "codec \<Rightarrow> xx_state \<Rightarrow> u8 list" where
  "xx_build_client_hello C st = handshake_message_to_vec C (build_client_hello_msg (kp_public (xx_ephemeral_kp st)))"

definition parse_hello_or :: "codec \<Rightarrow> u8 list \<Rightarrow> (handshake_error, u8 list \<times> u8 list \<times> u8 list) outcome" where
  "parse_hello_or C response_bytes =
     obind (omap_err (\<lambda>e. CertVerification (lit ''Error parsing server hello: '' @ handshake_error_fmt e)) (parse_server_hello C response_bytes))
       (\<lambda>(server_ephemeral_raw, s, c). obind (to_key server_ephemeral_raw) (\<lambda>server_ephemeral. Ok (server_ephemeral, s, c)))"

definition read_server_hello_and_build_client_finish :: "'g suite \<Rightarrow> codec \<Rightarrow> u8 list \<Rightarrow> (xx_state, handshake_error, u8 list) act" where
  "read_server_hello_and_build_client_finish S C response_bytes st =
     (case parse_hello_or C response_bytes of
        Err e \<Rightarrow> (Err e, st)
      | Panic \<Rightarrow> (Panic, st)
      | Ok (server_ephemeral, server_static_ciphertext, certificate_ciphertext) \<Rightarrow>
          (case process_xx_server_hello_into S C (xx_ephemeral_kp st) (xx_static_kp st) (xx_payload st) server_ephemeral
                  server_static_ciphertext certificate_ciphertext (xx_cert_policy st) (xx_noise st, xx_cert_chain st) of
             (r, noise, chain) \<Rightarrow> (r, st\<lparr>xx_noise := noise, xx_cert_chain := chain\<rparr>)))"

definition xx_finish :: "'g suite \<Rightarrow> xx_state \<Rightarrow> (handshake_error, 'g xx_outcome) outcome" where
  "xx_finish S st = finish_xx_outcome S (xx_noise st) (xx_cert_chain st)"

section \<open>IK\<close>

record ik_state =
  ik_noise :: noise_state
  ik_ephemeral_kp :: key_pair
  ik_static_kp :: key_pair
  ik_server_static_pub :: "u8 list"
  ik_payload :: "u8 list"

record fallback_inputs =
  fi_ephemeral_kp :: key_pair
  fi_static_kp :: key_pair
  fi_client_payload :: "u8 list"
  fi_server_hello_bytes :: "u8 list"

datatype 'g ik_server_hello_outcome = Continue "'g noise_cipher" "'g noise_cipher" | Fallback fallback_inputs

definition ik_new :: "'g suite \<Rightarrow> key_pair \<Rightarrow> key_pair \<Rightarrow> u8 list \<Rightarrow> u8 list \<Rightarrow> u8 list \<Rightarrow> ik_state" where
  "ik_new S ephemeral_kp static_kp server_static_pub client_payload prologue =
     \<lparr>ik_noise = noise_state_new S NOISE_PATTERN_IK prologue, ik_ephemeral_kp = ephemeral_kp, ik_static_kp = static_kp,
      ik_server_static_pub = server_static_pub, ik_payload = client_payload\<rparr>"

definition ik_client_hello :: "'g suite \<Rightarrow> codec \<Rightarrow> key_pair \<Rightarrow> key_pair \<Rightarrow> u8 list \<Rightarrow> u8 list \<Rightarrow> (noise_state, handshake_error, u8 list) act" where
  "ik_client_hello S C ephemeral_kp static_kp server_static_pub payload =
     sbind (smodify (authenticate S server_static_pub)) (\<lambda>_.
     sbind (smodify (authenticate S (kp_public ephemeral_kp))) (\<lambda>_.
     sbind (hs_mix_shared_secret S (kp_private ephemeral_kp) server_static_pub) (\<lambda>_.
     sbind (hs_encrypt S (kp_public static_kp)) (\<lambda>encrypted_static.
     sbind (hs_mix_shared_secret S (kp_private static_kp) server_static_pub) (\<lambda>_.
     sbind (hs_encrypt S payload) (\<lambda>encrypted_payload.
     sret (Ok (handshake_message_to_vec C (build_ik_client_hello_msg (kp_public ephemeral_kp) encrypted_static encrypted_payload)))))))))"

definition ik_build_client_hello :: "'g suite \<Rightarrow> codec \<Rightarrow> (ik_state, handshake_error, u8 list) act" where
  "ik_build_client_hello S C st =
     (case ik_client_hello S C (ik_ephemeral_kp st) (ik_static_kp st) (ik_server_static_pub st) (ik_payload st) (ik_noise st) of
        (r, noise) \<Rightarrow> (r, st\<lparr>ik_noise := noise\<rparr>))"

definition ik_read_server_hello :: "'g suite \<Rightarrow> codec \<Rightarrow> u8 list \<Rightarrow> ik_state \<Rightarrow> (handshake_error, 'g ik_server_hello_outcome) outcome" where
  "ik_read_server_hello S C response_bytes st =
     obind (parse_server_hello_body C response_bytes) (\<lambda>hello.
     if sh_static hello \<noteq> None then
       Ok (Fallback \<lparr>fi_ephemeral_kp = ik_ephemeral_kp st, fi_static_kp = ik_static_kp st, fi_client_payload = ik_payload st,
         fi_server_hello_bytes = response_bytes\<rparr>)
     else
     obind (ok_or IncompleteResponse (sh_ephemeral hello)) (\<lambda>server_ephemeral.
     obind (ok_or IncompleteResponse (sh_payload hello)) (\<lambda>cert_payload.
     obind (to_key server_ephemeral) (\<lambda>server_ephemeral.
     fst (sbind (smodify (authenticate S server_ephemeral)) (\<lambda>_.
          sbind (hs_mix_shared_secret S (kp_private (ik_ephemeral_kp st)) server_ephemeral) (\<lambda>_.
          sbind (hs_mix_shared_secret S (kp_private (ik_static_kp st)) server_ephemeral) (\<lambda>_.
          sbind (hs_decrypt S cert_payload) (\<lambda>cert_plaintext noise.
          (omap (\<lambda>(wr, rd). Continue wr rd) (omap_err NoiseFailed (noise_split S noise)), noise))))) (ik_noise st))))))"

section \<open>XXfallback\<close>

record fallback_state =
  fs_noise :: noise_state
  fs_ephemeral_kp :: key_pair
  fs_static_kp :: key_pair
  fs_payload :: "u8 list"
  fs_server_hello_bytes :: "u8 list"
  fs_cert_policy :: noise_cert_policy
  fs_cert_chain :: "chain_acceptance option"

definition from_ik_failure_with_cert_policy :: "'g suite \<Rightarrow> fallback_inputs \<Rightarrow> u8 list \<Rightarrow> noise_cert_policy \<Rightarrow> fallback_state" where
  "from_ik_failure_with_cert_policy S inputs prologue cert_policy =
     \<lparr>fs_noise = authenticate S (kp_public (fi_ephemeral_kp inputs)) (noise_state_new S NOISE_PATTERN_XXFALLBACK prologue),
      fs_ephemeral_kp = fi_ephemeral_kp inputs, fs_static_kp = fi_static_kp inputs, fs_payload = fi_client_payload inputs,
      fs_server_hello_bytes = fi_server_hello_bytes inputs, fs_cert_policy = cert_policy, fs_cert_chain = None\<rparr>"

definition from_ik_failure :: "'g suite \<Rightarrow> fallback_inputs \<Rightarrow> u8 list \<Rightarrow> fallback_state" where
  "from_ik_failure S inputs prologue = from_ik_failure_with_cert_policy S inputs prologue Strict"

definition fallback_build_client_finish :: "'g suite \<Rightarrow> codec \<Rightarrow> (fallback_state, handshake_error, u8 list) act" where
  "fallback_build_client_finish S C st =
     (case parse_hello_or C (fs_server_hello_bytes st) of
        Err e \<Rightarrow> (Err e, st)
      | Panic \<Rightarrow> (Panic, st)
      | Ok (server_ephemeral, server_static_ciphertext, certificate_ciphertext) \<Rightarrow>
          (case process_xx_server_hello_into S C (fs_ephemeral_kp st) (fs_static_kp st) (fs_payload st) server_ephemeral
                  server_static_ciphertext certificate_ciphertext (fs_cert_policy st) (fs_noise st, fs_cert_chain st) of
             (r, noise, chain) \<Rightarrow> (r, st\<lparr>fs_noise := noise, fs_cert_chain := chain\<rparr>)))"

definition fallback_finish :: "'g suite \<Rightarrow> fallback_state \<Rightarrow> (handshake_error, 'g xx_outcome) outcome" where
  "fallback_finish S st = finish_xx_outcome S (fs_noise st) (fs_cert_chain st)"

section \<open>The server of the tests\<close>

text \<open>\<open>expect\<close> and \<open>unwrap\<close> panic on an error.\<close>

fun expect :: "('e, 'a) outcome \<Rightarrow> ('f, 'a) outcome" where
  "expect (Ok x) = Ok x"
| "expect (Err e) = Panic"
| "expect Panic = Panic"

definition sexpect :: "('s, 'e, 'a) act \<Rightarrow> ('s, 'f, 'a) act" where
  "sexpect m s = map_prod expect id (m s)"

definition respond_hello :: "'g suite \<Rightarrow> codec \<Rightarrow> key_pair \<Rightarrow> u8 list \<Rightarrow> key_pair \<Rightarrow> u8 list \<Rightarrow> u8 list \<Rightarrow> u8 list \<Rightarrow>
    (handshake_error, u8 list) outcome \<times> noise_state" where
  "respond_hello S C identity_kp cert_chain_bytes server_eph client_hello_bytes pattern prologue =
     sbind (sret (expect (handshake_message_decode C client_hello_bytes))) (\<lambda>msg.
     sbind (sret (expect (ok_or () (hm_client_hello msg)))) (\<lambda>hello.
     sbind (sret (expect (ok_or () (ch_ephemeral hello)))) (\<lambda>client_eph_pub.
     sbind (sret (expect (to_key client_eph_pub))) (\<lambda>client_eph_pub.
     sbind (smodify (authenticate S client_eph_pub)) (\<lambda>_.
     sbind (smodify (authenticate S (kp_public server_eph))) (\<lambda>_.
     sbind (sexpect (hs_mix_shared_secret S (kp_private server_eph) client_eph_pub)) (\<lambda>_.
     sbind (sexpect (hs_encrypt S (kp_public identity_kp))) (\<lambda>encrypted_static.
     sbind (sexpect (hs_mix_shared_secret S (kp_private identity_kp) client_eph_pub)) (\<lambda>_.
     sbind (sexpect (hs_encrypt S cert_chain_bytes)) (\<lambda>encrypted_payload.
     sret (Ok (handshake_message_to_vec C (no_message\<lparr>hm_server_hello :=
       Some \<lparr>sh_ephemeral = Some (kp_public server_eph), sh_static = Some encrypted_static, sh_payload = Some encrypted_payload\<rparr>\<rparr>)))
     )))))))))) (noise_state_new S pattern prologue)"

definition respond_finish :: "'g suite \<Rightarrow> codec \<Rightarrow> key_pair \<Rightarrow> u8 list \<Rightarrow> (noise_state, handshake_error, u8 list \<times> u8 list) act" where
  "respond_finish S C server_eph client_finish_bytes =
     sbind (sret (expect (handshake_message_decode C client_finish_bytes))) (\<lambda>msg.
     sbind (sret (expect (ok_or () (hm_client_finish msg)))) (\<lambda>cf.
     sbind (sret (expect (ok_or () (cf_static cf)))) (\<lambda>encrypted_static.
     sbind (sexpect (hs_decrypt S encrypted_static)) (\<lambda>client_static.
     sbind (sret (expect (to_key client_static))) (\<lambda>client_static.
     sbind (sexpect (hs_mix_shared_secret S (kp_private server_eph) client_static)) (\<lambda>_.
     sbind (sret (expect (ok_or () (cf_payload cf)))) (\<lambda>encrypted_payload.
     sbind (sexpect (hs_decrypt S encrypted_payload)) (\<lambda>payload.
     sret (Ok (client_static, payload))))))))))"

end
