(* ===== verification/Noise_Session.thy ===== *)
theory Noise_Session
  imports Marshal Framing Handshake
begin

text \<open>
  The session of the JavaScript bridge: \<open>src/noise_session.rs\<close>, and the conversion of JavaScript nodes of
  \<open>src/binary.rs\<close>.

  A JavaScript value is what the conversion asks of it; the text of a number is a parameter. An error
  is the text the bridge throws. The counters are \<open>u32\<close> and wrap, as they do in a release build.
\<close>

unbundle bit_operations_syntax

section \<open>JavaScript nodes\<close>

datatype js_attr = JsString str | JsNumber "64 word" | JsBool bool | JsOther

datatype js_node = JsNode (js_tag: str) (js_attrs: "(str \<times> js_attr) list") (js_content: js_content)
  and js_content = JsUndefined | JsText str | JsBytes "u8 list" | JsArray "js_node list" | JsInvalid

text \<open>A message, or a message in front of the text of an error of the codec.\<close>

datatype js_error = JsError str | JsErrorOf str binary_error

text \<open>\<open>char::is_whitespace\<close> on UTF-8: the number of bytes of the white space at the front.\<close>

fun whitespace_len :: "str \<Rightarrow> nat" where
  "whitespace_len [] = 0"
| "whitespace_len (a # s) =
     (if 9 \<le> a \<and> a \<le> 13 \<or> a = 32 then 1
      else
        (case s of
           b # t \<Rightarrow>
             if a = 0xC2 \<and> (b = 0x85 \<or> b = 0xA0) then 2
             else
               (case t of
                  c # _ \<Rightarrow>
                    if a = 0xE1 \<and> b = 0x9A \<and> c = 0x80 \<or>
                       a = 0xE2 \<and> b = 0x80 \<and> (0x80 \<le> c \<and> c \<le> 0x8A \<or> c = 0xA8 \<or> c = 0xA9 \<or> c = 0xAF) \<or>
                       a = 0xE2 \<and> b = 0x81 \<and> c = 0x9F \<or>
                       a = 0xE3 \<and> b = 0x80 \<and> c = 0x80
                    then 3 else 0
                | [] \<Rightarrow> 0)
         | [] \<Rightarrow> 0))"

function all_whitespace :: "str \<Rightarrow> bool" where
  "all_whitespace s = (if s = [] then True else if whitespace_len s = 0 then False else all_whitespace (drop (whitespace_len s) s))"
  by pat_completeness auto
termination by (relation "measure length") (auto simp: diff_less)

declare all_whitespace.simps [simp del]

definition attr_text :: "(64 word \<Rightarrow> str) \<Rightarrow> js_attr \<Rightarrow> str option" where
  "attr_text f64_to_string v =
     (case v of
        JsString s \<Rightarrow> if s = [] \<or> all_whitespace s then None else Some s
      | JsNumber n \<Rightarrow> Some (f64_to_string n)
      | JsBool b \<Rightarrow> Some (if b then lit ''true'' else lit ''false'')
      | JsOther \<Rightarrow> None)"

fun js_to_node_ref :: "(64 word \<Rightarrow> str) \<Rightarrow> js_node \<Rightarrow> (js_error, node) outcome"
  and js_to_content :: "(64 word \<Rightarrow> str) \<Rightarrow> js_content \<Rightarrow> (js_error, content option) outcome"
  and js_to_nodes :: "(64 word \<Rightarrow> str) \<Rightarrow> js_node list \<Rightarrow> (js_error, node list) outcome" where
  "js_to_node_ref F (JsNode t as c) =
     obind (js_to_content F c) (\<lambda>content.
     Ok (Node t (concat (map (\<lambda>(k, v). case attr_text F v of Some s \<Rightarrow> [(k, VString s)] | None \<Rightarrow> []) as)) content))"
| "js_to_content F JsUndefined = Ok None"
| "js_to_content F (JsText s) = Ok (Some (CString s))"
| "js_to_content F (JsBytes bs) = Ok (Some (Bytes bs))"
| "js_to_content F (JsArray ns) = omap (\<lambda>ns. Some (Nodes ns)) (js_to_nodes F ns)"
| "js_to_content F JsInvalid = Err (JsError (lit ''Invalid content type''))"
| "js_to_nodes F [] = Ok []"
| "js_to_nodes F (n # ns) = obind (js_to_node_ref F n) (\<lambda>x. obind (js_to_nodes F ns) (\<lambda>xs. Ok (x # xs)))"

definition encode_node :: "token_tables \<Rightarrow> (64 word \<Rightarrow> str) \<Rightarrow> js_node \<Rightarrow> (js_error, u8 list) outcome" where
  "encode_node T F node_val =
     obind (js_to_node_ref F node_val) (\<lambda>n. omap_err (JsErrorOf []) (marshal_ref T n))"

definition decode_node :: "(u8 list \<Rightarrow> (str, u8 list) outcome) \<Rightarrow> codec_env \<Rightarrow> u8 list \<Rightarrow> (js_error, node) outcome" where
  "decode_node zlib E data =
     (if data = [] then Err (JsError (lit ''Input data cannot be empty''))
      else
        obind (omap_err (JsErrorOf []) (unpack zlib data)) (\<lambda>unpacked.
        omap_err (JsErrorOf []) (unmarshal_ref E unpacked)))"

section \<open>Sessions\<close>

record 'g session =
  se_handshake :: "noise_state option"
  se_enc_cipher :: "'g noise_cipher option"
  se_dec_cipher :: "'g noise_cipher option"
  se_read_counter :: u32
  se_write_counter :: u32
  se_is_finished :: bool
  se_intro_header :: "u8 list option"
  se_frame_decoder :: frame_decoder
  se_encode_scratch :: "u8 list"

definition session_new :: "'g suite \<Rightarrow> u8 \<Rightarrow> allocator \<Rightarrow> u8 list \<Rightarrow> u8 list \<Rightarrow> u8 list option \<Rightarrow> 'g session" where
  "session_new S dict_version al public_key noise_header routing_info =
     \<lparr>se_handshake = Some (authenticate S public_key (noise_state_new S NOISE_PATTERN_XX noise_header)),
      se_enc_cipher = None, se_dec_cipher = None, se_read_counter = 0, se_write_counter = 0, se_is_finished = False,
      se_intro_header = Some (fst (build_handshake_header dict_version routing_info)),
      se_frame_decoder = frame_decoder_new al, se_encode_scratch = []\<rparr>"

definition from_ciphers :: "u8 \<Rightarrow> allocator \<Rightarrow> 'g noise_cipher \<Rightarrow> 'g noise_cipher \<Rightarrow> u8 list option \<Rightarrow> 'g session" where
  "from_ciphers dict_version al enc dec_cipher routing_info =
     \<lparr>se_handshake = None, se_enc_cipher = Some enc, se_dec_cipher = Some dec_cipher, se_read_counter = 0, se_write_counter = 0,
      se_is_finished = True, se_intro_header = Some (fst (build_handshake_header dict_version routing_info)),
      se_frame_decoder = frame_decoder_new al, se_encode_scratch = []\<rparr>"

definition session_authenticate :: "'g suite \<Rightarrow> u8 list \<Rightarrow> 'g session \<Rightarrow> 'g session" where
  "session_authenticate S data s = s\<lparr>se_handshake := map_option (authenticate S data) (se_handshake s)\<rparr>"

definition with_handshake :: "str \<Rightarrow> (noise_state, js_error, 'a) act \<Rightarrow> ('g session, js_error, 'a) act" where
  "with_handshake missing m s =
     (case se_handshake s of
        None \<Rightarrow> (Err (JsError missing), s)
      | Some st \<Rightarrow> (case m st of (r, st) \<Rightarrow> (r, s\<lparr>se_handshake := Some st\<rparr>)))"

definition failing :: "str \<Rightarrow> (noise_state, handshake_error, 'a) act \<Rightarrow> (noise_state, js_error, 'a) act" where
  "failing msg m = smap_err (\<lambda>e. JsError (msg @ handshake_error_fmt e)) m"

definition encrypt_vec :: "'g suite \<Rightarrow> u8 list \<Rightarrow> ('g session, js_error, u8 list) act" where
  "encrypt_vec S plaintext s =
     (if se_is_finished s then
        (case se_enc_cipher s of
           None \<Rightarrow> (Err (JsError (lit ''Encryption cipher not initialized'')), s)
         | Some cipher \<Rightarrow>
             (let counter = se_write_counter s; s = s\<lparr>se_write_counter := se_write_counter s + 1\<rparr> in
              (omap_err (\<lambda>e. JsError (lit ''Encryption failed: '' @ noise_error_fmt e)) (encrypt_with_counter S cipher counter plaintext), s)))
      else with_handshake (lit ''Handshake not initialized'') (failing (lit ''Encryption failed: '') (hs_encrypt S plaintext)) s)"

definition decrypt_vec :: "'g suite \<Rightarrow> u8 list \<Rightarrow> ('g session, js_error, u8 list) act" where
  "decrypt_vec S ciphertext s =
     (if se_is_finished s then
        (case se_dec_cipher s of
           None \<Rightarrow> (Err (JsError (lit ''Decryption cipher not initialized'')), s)
         | Some cipher \<Rightarrow>
             (let counter = se_read_counter s; s = s\<lparr>se_read_counter := se_read_counter s + 1\<rparr> in
              (omap_err (\<lambda>e. JsError (lit ''Decryption failed: '' @ noise_error_fmt e)) (decrypt_in_place_with_counter S cipher counter ciphertext), s)))
      else with_handshake (lit ''Handshake not initialized'') (failing (lit ''Decryption failed: '') (hs_decrypt S ciphertext)) s)"

definition mix_into_key :: "'g suite \<Rightarrow> u8 list \<Rightarrow> ('g session, js_error, unit) act" where
  "mix_into_key S data =
     with_handshake (lit ''NoiseHandshake not initialized'') (failing (lit ''mixIntoKey failed: '') (smap_err NoiseFailed (mix_key S data)))"

definition finish_init :: "'g suite \<Rightarrow> ('g session, js_error, unit) act" where
  "finish_init S s =
     (case se_handshake s of
        None \<Rightarrow> (Err (JsError (lit ''NoiseHandshake not initialized'')), s)
      | Some handshake \<Rightarrow>
          (let s = s\<lparr>se_handshake := None\<rparr> in
           case noise_split S handshake of
             Ok (write_cipher, read_cipher) \<Rightarrow>
               (Ok (), s\<lparr>se_enc_cipher := Some write_cipher, se_dec_cipher := Some read_cipher, se_read_counter := 0, se_write_counter := 0,
                 se_is_finished := True\<rparr>)
           | Err e \<Rightarrow> (Err (JsError (lit ''finishInit failed: '' @ handshake_error_fmt (NoiseFailed e))), s)
           | Panic \<Rightarrow> (Panic, s)))"

definition session_frame :: "u8 list \<Rightarrow> ('g session, js_error, u8 list) act" where
  "session_frame encrypted s =
     (let header = se_intro_header s; s = s\<lparr>se_intro_header := None\<rparr> in
      case encode_frame_into encrypted header (se_encode_scratch s) of
        (r, scratch) \<Rightarrow>
          (omap (\<lambda>_. scratch) (omap_err (\<lambda>e. JsError (lit ''Frame encoding failed: '' @ e)) r), s\<lparr>se_encode_scratch := scratch\<rparr>))"

definition encode_frame_raw :: "'g suite \<Rightarrow> u8 list \<Rightarrow> ('g session, js_error, u8 list) act" where
  "encode_frame_raw S data =
     sbind (\<lambda>s. if se_is_finished s then encrypt_vec S data s else (Ok data, s)) session_frame"

definition session_encode_frame :: "'g suite \<Rightarrow> token_tables \<Rightarrow> (64 word \<Rightarrow> str) \<Rightarrow> js_node \<Rightarrow> ('g session, js_error, u8 list) act" where
  "session_encode_frame S T F node =
     sbind (sret (js_to_node_ref F node)) (\<lambda>node_ref.
     sbind (sret (omap_err (JsErrorOf (lit ''Marshal error: '')) (marshal_ref T node_ref))) (\<lambda>encoded_bytes.
     sbind (\<lambda>s. if se_is_finished s then encrypt_vec S encoded_bytes s else (Ok encoded_bytes, s)) session_frame))"

text \<open>A received frame is a decoded node, or the raw bytes before the handshake is finished.\<close>

datatype received = ReceivedNode node | ReceivedRaw "u8 list"

definition receive_frame :: "'g suite \<Rightarrow> (u8 list \<Rightarrow> (str, u8 list) outcome) \<Rightarrow> codec_env \<Rightarrow> u8 list \<Rightarrow> ('g session, js_error, received) act" where
  "receive_frame S zlib E frame_data s =
     (if se_is_finished s then
        sbind (decrypt_vec S frame_data) (\<lambda>decrypted_bytes. sret (omap ReceivedNode (decode_node zlib E decrypted_bytes))) s
      else (Ok (ReceivedRaw frame_data), s))"

lemma decoder_decrypt_vec [simp]: "se_frame_decoder (snd (decrypt_vec S x s)) = se_frame_decoder s"
  by (simp add: decrypt_vec_def with_handshake_def Let_def split: option.split prod.split)

lemma decoder_receive_frame [simp]: "se_frame_decoder (snd (receive_frame S zlib E f s)) = se_frame_decoder s"
proof (cases "decrypt_vec S f s")
  case (Pair r s')
  then have "se_frame_decoder s' = se_frame_decoder s" using decoder_decrypt_vec [of S f s] by simp
  then show ?thesis using Pair by (cases r) (simp_all add: receive_frame_def sbind_def sret_def)
qed

function decode_loop :: "'g suite \<Rightarrow> (u8 list \<Rightarrow> (str, u8 list) outcome) \<Rightarrow> codec_env \<Rightarrow> allocator \<Rightarrow> ('g session, js_error, received list) act" where
  "decode_loop S zlib E al s =
     (case fd_decode_frame al (se_frame_decoder s) of
        (None, d) \<Rightarrow> (Ok [], s\<lparr>se_frame_decoder := d\<rparr>)
      | (Some frame_data, d) \<Rightarrow>
          (case receive_frame S zlib E frame_data (s\<lparr>se_frame_decoder := d\<rparr>) of
             (Ok x, s) \<Rightarrow> (case decode_loop S zlib E al s of (r, s) \<Rightarrow> (omap (\<lambda>xs. x # xs) r, s))
           | (Err e, s) \<Rightarrow> (Err e, s)
           | (Panic, s) \<Rightarrow> (Panic, s)))"
  by pat_completeness auto
termination
proof (relation "measure (\<lambda>(S, zlib, E, al, s). length (fd_buffer (se_frame_decoder s)))")
  fix S zlib E al s o' d f r s' x
  assume "(o', d) = fd_decode_frame al (se_frame_decoder s)" "o' = Some f"
    "(r, s') = receive_frame S zlib E f (s\<lparr>se_frame_decoder := d\<rparr>)" "r = Ok x"
  moreover from this(3) have "se_frame_decoder s' = d"
    using decoder_receive_frame [of S zlib E f "s\<lparr>se_frame_decoder := d\<rparr>"] by (metis session.select_convs(8) session.surjective session.update_convs(8) snd_conv)
  ultimately show "((S, zlib, E, al, s'), S, zlib, E, al, s) \<in> measure (\<lambda>(S, zlib, E, al, s). length (fd_buffer (se_frame_decoder s)))"
    using decode_frame_parses [of "se_frame_decoder s" al] by (cases "fd_decode_frame al (se_frame_decoder s)") auto
qed simp

declare decode_loop.simps [simp del]

definition session_decode_frame :: "'g suite \<Rightarrow> (u8 list \<Rightarrow> (str, u8 list) outcome) \<Rightarrow> codec_env \<Rightarrow> allocator \<Rightarrow> u8 list \<Rightarrow>
    ('g session, js_error, received list) act" where
  "session_decode_frame S zlib E al new_data s =
     decode_loop S zlib E al (s\<lparr>se_frame_decoder := feed al new_data (se_frame_decoder s)\<rparr>)"

definition buffered_bytes :: "'g session \<Rightarrow> nat" where
  "buffered_bytes s = buffered_len (se_frame_decoder s)"

definition clear_buffer :: "'g session \<Rightarrow> 'g session" where
  "clear_buffer s = s\<lparr>se_frame_decoder := fd_clear (se_frame_decoder s)\<rparr>"

definition get_hash :: "'g session \<Rightarrow> u8 list" where
  "get_hash s = (case se_handshake s of Some st \<Rightarrow> ns_hash st | None \<Rightarrow> [])"

definition process_handshake_init :: "'g suite \<Rightarrow> u8 list \<Rightarrow> u8 list \<Rightarrow> u8 list \<Rightarrow> u8 list \<Rightarrow> ('g session, js_error, u8 list) act" where
  "process_handshake_init S server_ephemeral server_static_encrypted server_payload_encrypted private_key =
     with_handshake (lit ''NoiseHandshake not initialized'')
       (sbind (smodify (authenticate S server_ephemeral)) (\<lambda>_.
        sbind (failing (lit ''mix_shared_secret failed: '') (hs_mix_shared_secret S private_key server_ephemeral)) (\<lambda>_.
        sbind (failing (lit ''decrypt static failed: '') (hs_decrypt S server_static_encrypted)) (\<lambda>dec_static.
        sbind (failing (lit ''mix_shared_secret failed: '') (hs_mix_shared_secret S private_key dec_static)) (\<lambda>_.
        failing (lit ''decrypt payload failed: '') (hs_decrypt S server_payload_encrypted))))))"

definition process_handshake_finish :: "'g suite \<Rightarrow> u8 list \<Rightarrow> u8 list \<Rightarrow> u8 list \<Rightarrow> ('g session, js_error, u8 list) act" where
  "process_handshake_finish S noise_public_key noise_private_key server_ephemeral =
     with_handshake (lit ''NoiseHandshake not initialized'')
       (sbind (failing (lit ''encrypt failed: '') (hs_encrypt S noise_public_key)) (\<lambda>encrypted_key.
        sbind (failing (lit ''mix_shared_secret failed: '') (hs_mix_shared_secret S noise_private_key server_ephemeral)) (\<lambda>_.
        sret (Ok encrypted_key))))"

section \<open>IK and fallback sessions\<close>

definition public_deserialize :: "u8 list \<Rightarrow> (curve_error, u8 list) outcome" where
  "public_deserialize value =
     (case value of
        [] \<Rightarrow> Err NoKeyTypeIdentifier
      | t # key \<Rightarrow>
          if t \<noteq> 5 then Err (BadKeyType t)
          else if length value < 33 then Err (BadKeyLength (length value))
          else Ok (take 32 key))"

record ik_session =
  iks_state :: "ik_state option"
  iks_prologue :: "u8 list"

record fallback_session =
  fbs_state :: "fallback_state option"
  fbs_routing_info :: "u8 list option"

definition ik_session_new :: "'g suite \<Rightarrow> key_pair \<Rightarrow> u8 list \<Rightarrow> u8 list \<Rightarrow> u8 list \<Rightarrow> u8 list \<Rightarrow> u8 list \<Rightarrow> (js_error, ik_session) outcome" where
  "ik_session_new S ephemeral static_pub static_priv server_static_pub client_payload prologue =
     obind (omap_err (\<lambda>e. JsError (lit ''Invalid static pub key: '' @ curve_error_fmt e)) (public_deserialize static_pub)) (\<lambda>pub_key.
     obind (omap_err (\<lambda>e. JsError (lit ''Invalid static priv key: '' @ curve_error_fmt e)) (private_deserialize S static_priv)) (\<lambda>priv_key.
     if length server_static_pub \<noteq> 32 then Err (JsError (lit ''Server static pub key must be 32 bytes''))
     else
       Ok \<lparr>iks_state = Some (ik_new S ephemeral \<lparr>kp_public = pub_key, kp_private = priv_key\<rparr> server_static_pub client_payload prologue),
         iks_prologue = prologue\<rparr>))"

definition ik_session_build_client_hello :: "'g suite \<Rightarrow> codec \<Rightarrow> (ik_session, js_error, u8 list) act" where
  "ik_session_build_client_hello S C s =
     (case iks_state s of
        None \<Rightarrow> (Err (JsError (lit ''IK session already consumed'')), s)
      | Some st \<Rightarrow>
          (case ik_build_client_hello S C st of
             (r, st) \<Rightarrow> (omap_err (\<lambda>e. JsError (lit ''buildClientHello failed: '' @ handshake_error_fmt e)) r, s\<lparr>iks_state := Some st\<rparr>)))"

definition fallback_session_new :: "'g suite \<Rightarrow> fallback_inputs \<Rightarrow> u8 list \<Rightarrow> u8 list option \<Rightarrow> fallback_session" where
  "fallback_session_new S inputs prologue routing_info =
     \<lparr>fbs_state = Some (from_ik_failure S inputs prologue), fbs_routing_info = routing_info\<rparr>"

text \<open>The object the caller gets: a session, or the fallback to go on with.\<close>

definition ik_session_read_server_hello :: "'g suite \<Rightarrow> codec \<Rightarrow> u8 \<Rightarrow> allocator \<Rightarrow> u8 list \<Rightarrow> u8 list option \<Rightarrow>
    (ik_session, js_error, 'g session + fallback_session) act" where
  "ik_session_read_server_hello S C dict_version al response_bytes routing_info s =
     (case iks_state s of
        None \<Rightarrow> (Err (JsError (lit ''IK session already consumed'')), s)
      | Some st \<Rightarrow>
          (omap (\<lambda>r. case r of
               Continue write_cipher read_cipher \<Rightarrow> Inl (from_ciphers dict_version al write_cipher read_cipher routing_info)
             | Fallback inputs \<Rightarrow> Inr (fallback_session_new S inputs (iks_prologue s) routing_info))
             (omap_err (\<lambda>e. JsError (lit ''readServerHello failed: '' @ handshake_error_fmt e)) (ik_read_server_hello S C response_bytes st)),
           s\<lparr>iks_state := None\<rparr>))"

definition fallback_session_build_client_finish :: "'g suite \<Rightarrow> codec \<Rightarrow> (fallback_session, js_error, u8 list) act" where
  "fallback_session_build_client_finish S C s =
     (case fbs_state s of
        None \<Rightarrow> (Err (JsError (lit ''XxFallback already consumed'')), s)
      | Some st \<Rightarrow>
          (case fallback_build_client_finish S C st of
             (r, st) \<Rightarrow> (omap_err (\<lambda>e. JsError (lit ''buildClientFinish failed: '' @ handshake_error_fmt e)) r, s\<lparr>fbs_state := Some st\<rparr>)))"

definition fallback_session_finish :: "'g suite \<Rightarrow> u8 \<Rightarrow> allocator \<Rightarrow> (fallback_session, js_error, 'g session) act" where
  "fallback_session_finish S dict_version al s =
     (case fbs_state s of
        None \<Rightarrow> (Err (JsError (lit ''XxFallback already consumed'')), s)
      | Some st \<Rightarrow>
          (let s = s\<lparr>fbs_state := None\<rparr> in
           case omap_err (\<lambda>e. JsError (lit ''XxFallback finish failed: '' @ handshake_error_fmt e)) (fallback_finish S st) of
             Ok outcome \<Rightarrow>
               (Ok (from_ciphers dict_version al (xo_write_cipher outcome) (xo_read_cipher outcome) (fbs_routing_info s)), s\<lparr>fbs_routing_info := None\<rparr>)
           | Err e \<Rightarrow> (Err e, s)
           | Panic \<Rightarrow> (Panic, s)))"

end
