(* ===== verification/Handshake_Laws.thy ===== *)
theory Handshake_Laws
  imports Handshake
begin

text \<open>
  Laws of the handshakes: which certificate chains are trusted, and that both sides of XX and of XXfallback
  come to the same transport ciphers.
\<close>

section \<open>What is trusted\<close>

text \<open>A chain is handed out only after both of its signatures were checked.\<close>

definition chain_signed :: "'g suite \<Rightarrow> codec \<Rightarrow> u8 list \<Rightarrow> verified_chain \<Rightarrow> bool" where
  "chain_signed S C cert chain \<longleftrightarrow>
     (\<exists>msg intermediate leaf idb ldb id ld isig lsig.
        cert_chain_decode C cert = Ok msg \<and> cc_intermediate msg = Some intermediate \<and> cc_leaf msg = Some leaf \<and>
        nc_details intermediate = Some idb \<and> certificate_details_decode C idb = Ok id \<and>
        nc_signature intermediate = Some isig \<and> verify_signature S WA_CERT_PUB_KEY idb isig \<and>
        cd_key id = Some (vc_intermediate_key chain) \<and>
        nc_details leaf = Some ldb \<and> certificate_details_decode C ldb = Ok ld \<and> cd_issuer_serial ld = cd_serial id \<and>
        nc_signature leaf = Some lsig \<and> verify_signature S (vc_intermediate_key chain) ldb lsig \<and>
        cd_key ld = Some (vc_leaf_key chain))"

lemma verify_cert_step_Ok:
  "verify_cert_step S k details sig label policy = Ok u \<Longrightarrow> \<not> skip_signature_check policy \<Longrightarrow>
    \<exists>s. sig = Some s \<and> verify_signature S k details s"
  by (cases sig) (auto simp: verify_cert_step_def from_djb_public_key_bytes_def split: if_splits)

lemma option_key: "(case k of Some x \<Rightarrow> x | None \<Rightarrow> []) = y \<Longrightarrow> y \<noteq> [] \<Longrightarrow> k = Some y"
  by (cases k) simp_all

lemma verify_chain_Trusted:
  assumes "verify_chain S C cert static policy = Ok (Trusted chain)" "static \<noteq> []"
  shows "policy = Strict \<and> vc_leaf_key chain = static \<and> chain_signed S C cert chain"
proof -
  from assms(1) have p: "policy = Strict" by (cases policy) (auto simp: verify_chain_def skip_signature_check_def obind_eq_Ok Let_def split: if_splits)
  then have s: "\<not> skip_signature_check policy" by (simp add: skip_signature_check_def)
  from assms(1) obtain msg intermediate leaf idb id ldb ld u v where
    d: "cert_chain_decode C cert = Ok msg" "cc_intermediate msg = Some intermediate" "cc_leaf msg = Some leaf"
      "nc_details intermediate = Some idb" "certificate_details_decode C idb = Ok id"
      "verify_cert_step S WA_CERT_PUB_KEY idb (nc_signature intermediate) (lit ''intermediate'') policy = Ok u"
      "nc_details leaf = Some ldb" "certificate_details_decode C ldb = Ok ld" "cd_issuer_serial ld = cd_serial id"
      "(case cd_key ld of Some k \<Rightarrow> k | None \<Rightarrow> []) = static"
      "verify_cert_step S (case cd_key id of Some k \<Rightarrow> k | None \<Rightarrow> []) ldb (nc_signature leaf) (lit ''leaf'') policy = Ok v"
      "vc_intermediate_key chain = (case cd_key id of Some k \<Rightarrow> k | None \<Rightarrow> [])" "(case cd_key id of Some k \<Rightarrow> k | None \<Rightarrow> []) \<noteq> []"
      "vc_leaf_key chain = static"
    unfolding verify_chain_def Let_def using s by (auto simp: obind_eq_Ok split: if_splits)
  obtain isig where i: "nc_signature intermediate = Some isig" "verify_signature S WA_CERT_PUB_KEY idb isig"
    using verify_cert_step_Ok [OF d(6) s] by blast
  obtain lsig where l: "nc_signature leaf = Some lsig" "verify_signature S (vc_intermediate_key chain) ldb lsig"
    using verify_cert_step_Ok [OF d(11) s] d(12) by auto
  have ki: "cd_key id = Some (vc_intermediate_key chain)" using option_key [OF d(12) [symmetric]] d(12,13) by simp
  have kl: "cd_key ld = Some (vc_leaf_key chain)" using option_key [OF d(10) assms(2)] d(14) by simp
  have "chain_signed S C cert chain" unfolding chain_signed_def
    by (intro exI conjI, rule d(1), rule d(2), rule d(3), rule d(4), rule d(5), rule i(1), rule i(2), rule ki,
      rule d(7), rule d(8), rule d(9), rule l(1), rule l(2), rule kl)
  then show ?thesis using p d(14) by blast
qed

lemma sbind_OkE:
  assumes "sbind m f s = (Ok y, s'')"
  obtains x s' where "m s = (Ok x, s')" "f x s' = (Ok y, s'')"
  using assms by (cases "m s"; cases "fst (m s)") (auto simp: sbind_def)

text \<open>What a completed exchange with the server leaves as the verdict.\<close>

lemma on_noise_keeps: "on_noise m s = (r, s') \<Longrightarrow> snd s' = snd s"
  by (auto simp: on_noise_def split: prod.splits)

text \<open>The static key and the certificates a server has shown to the holder of \<open>eph\<close>.\<close>

definition peer_identity :: "'g suite \<Rightarrow> key_pair \<Rightarrow> u8 list \<Rightarrow> u8 list \<Rightarrow> u8 list \<Rightarrow> (noise_state, handshake_error, u8 list \<times> u8 list) act" where
  "peer_identity S eph se ssc cc =
     sbind (smodify (authenticate S se)) (\<lambda>_.
     sbind (hs_mix_shared_secret S (kp_private eph) se) (\<lambda>_.
     sbind (hs_decrypt S ssc) (\<lambda>key.
     sbind (hs_mix_shared_secret S (kp_private eph) key) (\<lambda>_.
     sbind (hs_decrypt S cc) (\<lambda>cert.
     sret (Ok (key, cert)))))))"

lemma on_noiseD: "on_noise m s = (r, s') \<Longrightarrow> m (fst s) = (r, fst s') \<and> snd s' = snd s"
  by (auto simp: on_noise_def split: prod.splits)

lemma process_xx_chain:
  assumes "process_xx_server_hello_into S C eph stat payload se ssc cc policy (noise, chain) = (Ok cf, noise', chain')"
  obtains cert key verdict where "chain' = Some verdict" "verify_chain S C cert key policy = Ok verdict" "length key = 32"
    "fst (peer_identity S eph se ssc cc noise) = Ok (key, cert)"
proof -
  from assms show thesis unfolding process_xx_server_hello_into_def
    by (elim sbind_OkE)
      (auto simp: sret_def smodify_def to_key_def peer_identity_def sbind_def split: if_splits prod.splits dest!: on_noiseD intro: that)
qed

section \<open>Both sides of XX\<close>

definition kp_ok :: "'g suite \<Rightarrow> key_pair \<Rightarrow> bool" where
  "kp_ok S kp \<longleftrightarrow> length (kp_private kp) = 32 \<and> kp_public kp = su_public S (kp_private kp)"

lemma sbind_step: "m s = (Ok x, s') \<Longrightarrow> sbind m f s = f x s'"
  by (simp add: sbind_def)

lemma on_noise_step: "m st = (r, st') \<Longrightarrow> on_noise m (st, t) = (r, st', t)"
  by (simp add: on_noise_def)

lemma authenticate_sel [simp]:
  "ns_key (authenticate S x st) = ns_key st" "ns_counter (authenticate S x st) = ns_counter st" "ns_salt (authenticate S x st) = ns_salt st"
  by (simp_all add: authenticate_def)

lemma hs_mix_step:
  assumes "suite_ok S" "kp_ok S a" "kp_ok S b"
  obtains st' where "hs_mix_shared_secret S (kp_private a) (kp_public b) st = (Ok (), st')"
    "hs_mix_shared_secret S (kp_private b) (kp_public a) st = (Ok (), st')" "length (ns_key st') = 32" "ns_counter st' = 0"
proof -
  obtain st' where "mix_shared_secret S (kp_private a) (su_public S (kp_private b)) st = (Ok (), st')"
    "mix_shared_secret S (kp_private b) (su_public S (kp_private a)) st = (Ok (), st')" "length (ns_key st') = 32" "ns_counter st' = 0"
    using mix_shared_secret_step [OF assms(1), of "kp_private a" "kp_private b" st] assms(2,3) unfolding kp_ok_def by metis
  then show thesis using assms(2,3) by (intro that [of st']) (simp_all add: hs_mix_shared_secret_def smap_err_def kp_ok_def)
qed

lemma hs_crypt_step:
  assumes "suite_ok S" "length (ns_key st) = 32" "ns_counter st \<noteq> - 1" "32 + length pt \<le> pr_keystream_len (su_prims S)"
  obtains ct st' where "hs_encrypt S pt st = (Ok ct, st')" "hs_decrypt S ct st = (Ok pt, st')" "ns_key st' = ns_key st"
    "ns_counter st' = ns_counter st + 1"
proof -
  obtain ct where "noise_encrypt S pt st = (Ok ct, authenticate S ct (st\<lparr>ns_counter := ns_counter st + 1\<rparr>))"
    "noise_decrypt S ct st = (Ok pt, authenticate S ct (st\<lparr>ns_counter := ns_counter st + 1\<rparr>))"
    by (rule encrypt_decrypt_step [OF assms]) (rule that)
  then show thesis by (intro that [of ct "authenticate S ct (st\<lparr>ns_counter := ns_counter st + 1\<rparr>)"]) (simp_all add: hs_encrypt_def hs_decrypt_def smap_err_def)
qed

lemma sexpect_step: "m s = (Ok x, s') \<Longrightarrow> sexpect m s = (Ok x, s')"
  by (simp add: sexpect_def)

text \<open>From a state both sides have after the first ephemeral key, the exchange of XX succeeds and ends in
  one state.\<close>

lemma xx_exchange:
  assumes "suite_ok S" "kp_ok S eph" "kp_ok S stat" "kp_ok S ident" "kp_ok S se"
    and "\<And>m. handshake_message_decode C (handshake_message_to_vec C m) = Ok m"
    and "handshake_message_decode C hello = Ok msg" "hm_client_hello msg = Some h" "ch_ephemeral h = Some (kp_public eph)"
    and "verify_chain S C cert (kp_public ident) policy = Ok verdict"
    and "64 + length cert \<le> pr_keystream_len (su_prims S)" "32 + length payload \<le> pr_keystream_len (su_prims S)"
  obtains ssc cc cf srv fin where
    "respond_hello S C ident cert se hello pattern prologue =
       (Ok (handshake_message_to_vec C (no_message\<lparr>hm_server_hello :=
         Some \<lparr>sh_ephemeral = Some (kp_public se), sh_static = Some ssc, sh_payload = Some cc\<rparr>\<rparr>)), srv)"
    "process_xx_server_hello_into S C eph stat payload (kp_public se) ssc cc policy
       (authenticate S (kp_public eph) (noise_state_new S pattern prologue), chain) = (Ok cf, fin, Some verdict)"
    "respond_finish S C se cf srv = (Ok (kp_public stat, payload), fin)"
proof -
  have l: "length (kp_public kp) = 32" if "kp_ok S kp" for kp
    using that suite_okD(4) [OF assms(1)] by (simp add: kp_ok_def)
  note k = l [OF assms(2)] l [OF assms(3)] l [OF assms(4)] l [OF assms(5)]
  let ?n0 = "authenticate S (kp_public eph) (noise_state_new S pattern prologue)"
  let ?n1 = "authenticate S (kp_public se) ?n0"
  obtain n2 where n2: "hs_mix_shared_secret S (kp_private eph) (kp_public se) ?n1 = (Ok (), n2)"
    "hs_mix_shared_secret S (kp_private se) (kp_public eph) ?n1 = (Ok (), n2)" "length (ns_key n2) = 32" "ns_counter n2 = 0"
    by (rule hs_mix_step [OF assms(1,2,5)]) (rule that)
  have "ns_counter n2 \<noteq> - 1" "32 + length (kp_public ident) \<le> pr_keystream_len (su_prims S)" using n2(4) k(3) assms(11) by simp_all
  then obtain ssc n3 where n3: "hs_encrypt S (kp_public ident) n2 = (Ok ssc, n3)" "hs_decrypt S ssc n2 = (Ok (kp_public ident), n3)"
    by (rule hs_crypt_step [OF assms(1) n2(3)]) (rule that)
  obtain n4 where n4: "hs_mix_shared_secret S (kp_private eph) (kp_public ident) n3 = (Ok (), n4)"
    "hs_mix_shared_secret S (kp_private ident) (kp_public eph) n3 = (Ok (), n4)" "length (ns_key n4) = 32" "ns_counter n4 = 0"
    by (rule hs_mix_step [OF assms(1,2,4)]) (rule that)
  have "ns_counter n4 \<noteq> - 1" "32 + length cert \<le> pr_keystream_len (su_prims S)" using n4(4) assms(11) by simp_all
  then obtain cc n5 where n5: "hs_encrypt S cert n4 = (Ok cc, n5)" "hs_decrypt S cc n4 = (Ok cert, n5)" "ns_key n5 = ns_key n4"
    "ns_counter n5 = ns_counter n4 + 1"
    by (rule hs_crypt_step [OF assms(1) n4(3)]) (rule that)
  have "length (ns_key n5) = 32" "ns_counter n5 \<noteq> - 1" "32 + length (kp_public stat) \<le> pr_keystream_len (su_prims S)"
    using n4(3,4) n5(3,4) k(2) assms(11) by simp_all
  then obtain es n6 where n6: "hs_encrypt S (kp_public stat) n5 = (Ok es, n6)" "hs_decrypt S es n5 = (Ok (kp_public stat), n6)"
    by (rule hs_crypt_step [OF assms(1)]) (rule that)
  obtain n7 where n7: "hs_mix_shared_secret S (kp_private stat) (kp_public se) n6 = (Ok (), n7)"
    "hs_mix_shared_secret S (kp_private se) (kp_public stat) n6 = (Ok (), n7)" "length (ns_key n7) = 32" "ns_counter n7 = 0"
    by (rule hs_mix_step [OF assms(1,3,5)]) (rule that)
  have "ns_counter n7 \<noteq> - 1" using n7(4) by simp
  then obtain ep n8 where n8: "hs_encrypt S payload n7 = (Ok ep, n8)" "hs_decrypt S ep n7 = (Ok payload, n8)"
    by (rule hs_crypt_step [OF assms(1) n7(3) _ assms(12)]) (rule that)
  show thesis
  proof (rule that [of ssc cc n5 "handshake_message_to_vec C (build_client_finish_msg es ep)" n8])
    show "respond_hello S C ident cert se hello pattern prologue =
       (Ok (handshake_message_to_vec C (no_message\<lparr>hm_server_hello :=
         Some \<lparr>sh_ephemeral = Some (kp_public se), sh_static = Some ssc, sh_payload = Some cc\<rparr>\<rparr>)), n5)"
      using n2(2) n3(1) n4(2) n5(1) k(1)
      by (simp add: respond_hello_def sbind_def sret_def smodify_def assms(7-9) to_key_def sexpect_step)
    show "process_xx_server_hello_into S C eph stat payload (kp_public se) ssc cc policy (?n0, chain) =
        (Ok (handshake_message_to_vec C (build_client_finish_msg es ep)), n8, Some verdict)"
      using n2(1) n3(2) n4(1) n5(2) n6(1) n7(1) n8(1) k(3) assms(10)
      by (simp add: process_xx_server_hello_into_def sbind_def sret_def smodify_def on_noise_def to_key_def)
    show "respond_finish S C se (handshake_message_to_vec C (build_client_finish_msg es ep)) n5 = (Ok (kp_public stat, payload), n8)"
      using n6(2) n7(2) n8(2) k(2)
      by (simp add: respond_finish_def sbind_def sret_def assms(6) build_client_finish_msg_def to_key_def sexpect_step)
  qed
qed

section \<open>Main results\<close>

text \<open>C12. Only signed chains are trusted. When an XX handshake, or the XX fallback of a failed IK, finishes after the
  hello of a server, it hands out a certificate chain exactly under the strict policy; the leaf key of
  this chain is the static key the server has shown in the handshake, the root key has signed the intermediate
  certificate and the key of the intermediate certificate has signed the leaf. A new XX handshake, or fallback, that has
  not processed the hello of a server does not finish.\<close>

theorem only_signed_chains_trusted:
  assumes "parse_hello_or C response = Ok (se, ssc, cc)" "parse_hello_or C (fs_server_hello_bytes fb) = Ok (se', ssc', cc')"
    and "read_server_hello_and_build_client_finish S C response st = (Ok cf, st')" "xx_finish S st' = Ok out"
    and "fallback_build_client_finish S C fb = (Ok cf', fb')" "fallback_finish S fb' = Ok out'"
  shows "((\<exists>chain. xo_server_cert_chain out = Some chain) \<longleftrightarrow> xx_cert_policy st = Strict) \<and>
    (\<forall>chain. xo_server_cert_chain out = Some chain \<longrightarrow>
      (\<exists>cert. fst (peer_identity S (xx_ephemeral_kp st) se ssc cc (xx_noise st)) = Ok (vc_leaf_key chain, cert) \<and> chain_signed S C cert chain)) \<and>
    ((\<exists>chain. xo_server_cert_chain out' = Some chain) \<longleftrightarrow> fs_cert_policy fb = Strict) \<and>
    (\<forall>chain. xo_server_cert_chain out' = Some chain \<longrightarrow>
      (\<exists>cert. fst (peer_identity S (fs_ephemeral_kp fb) se' ssc' cc' (fs_noise fb)) = Ok (vc_leaf_key chain, cert) \<and> chain_signed S C cert chain)) \<and>
    xx_finish S (xx_new_with_cert_policy S eph stat payload prologue policy) = Err IncompleteResponse \<and>
    fallback_finish S (from_ik_failure_with_cert_policy S inputs prologue policy) = Err IncompleteResponse"
proof -
  have verdict: "((\<exists>chain. xo_server_cert_chain out = Some chain) \<longleftrightarrow> policy = Strict) \<and>
      (\<forall>chain. xo_server_cert_chain out = Some chain \<longrightarrow>
        (\<exists>cert. fst (peer_identity S eph se ssc cc noise) = Ok (vc_leaf_key chain, cert) \<and> chain_signed S C cert chain))"
    if "process_xx_server_hello_into S C eph stat payload se ssc cc policy (noise, chain) = (Ok cf, noise', chain')"
      "finish_xx_outcome S noise' chain' = Ok out" for eph stat payload se ssc cc policy noise chain cf noise' chain' and out :: "'a xx_outcome"
  proof -
    from that(1) obtain cert key v where v: "chain' = Some v" "verify_chain S C cert key policy = Ok v" "length key = 32"
      "fst (peer_identity S eph se ssc cc noise) = Ok (key, cert)" by (rule process_xx_chain)
    have n: "key \<noteq> []" using v(3) by auto
    have u: "policy = Strict" if "v = Trusted c" for c
      using v(2) n verify_chain_Trusted [of S C cert key policy c] that by auto
    have w: "policy \<noteq> Strict" if "v = Untrusted"
      using v(2) that by (auto simp: verify_chain_def skip_signature_check_def obind_eq_Ok Let_def split: if_splits)
    show ?thesis
    proof (cases v)
      case (Trusted c)
      then have "xo_server_cert_chain out = Some c" using that(2) v(1) by (auto simp: finish_xx_outcome_def obind_eq_Ok)
      moreover have "vc_leaf_key c = key \<and> chain_signed S C cert c"
        using verify_chain_Trusted [of S C cert key policy c] v(2) n Trusted by auto
      ultimately show ?thesis using u [OF Trusted] v(4) by auto
    next
      case Untrusted
      then have "xo_server_cert_chain out = None" using that(2) v(1) by (auto simp: finish_xx_outcome_def obind_eq_Ok)
      then show ?thesis using w [OF Untrusted] by simp
    qed
  qed
  obtain n c where x: "process_xx_server_hello_into S C (xx_ephemeral_kp st) (xx_static_kp st) (xx_payload st) se ssc cc (xx_cert_policy st)
      (xx_noise st, xx_cert_chain st) = (Ok cf, n, c)" "xx_noise st' = n" "xx_cert_chain st' = c"
    using assms(1,3) by (auto simp: read_server_hello_and_build_client_finish_def split: prod.splits)
  obtain n' c' where y: "process_xx_server_hello_into S C (fs_ephemeral_kp fb) (fs_static_kp fb) (fs_payload fb) se' ssc' cc' (fs_cert_policy fb)
      (fs_noise fb, fs_cert_chain fb) = (Ok cf', n', c')" "fs_noise fb' = n'" "fs_cert_chain fb' = c'"
    using assms(2,5) by (auto simp: fallback_build_client_finish_def split: prod.splits)
  show ?thesis
    using verdict [OF x(1) assms(4) [unfolded xx_finish_def x(2,3)]] verdict [OF y(1) assms(6) [unfolded fallback_finish_def y(2,3)]]
    by (simp add: xx_finish_def xx_new_with_cert_policy_def fallback_finish_def from_ik_failure_with_cert_policy_def finish_xx_outcome_def)
qed

lemma parse_own_hello:
  assumes "\<And>m. handshake_message_decode C (handshake_message_to_vec C m) = Ok m" "length se = 32"
  shows "parse_server_hello_body C (handshake_message_to_vec C (no_message\<lparr>hm_server_hello :=
      Some \<lparr>sh_ephemeral = Some se, sh_static = Some ssc, sh_payload = Some cc\<rparr>\<rparr>)) =
      Ok \<lparr>sh_ephemeral = Some se, sh_static = Some ssc, sh_payload = Some cc\<rparr>"
    "parse_hello_or C (handshake_message_to_vec C (no_message\<lparr>hm_server_hello :=
      Some \<lparr>sh_ephemeral = Some se, sh_static = Some ssc, sh_payload = Some cc\<rparr>\<rparr>)) = Ok (se, ssc, cc)"
  using assms by (simp_all add: parse_hello_or_def parse_server_hello_def parse_server_hello_body_def to_key_def)

lemma ik_hello_is:
  assumes "ik_build_client_hello S C st = (Ok hello, st')"
  obtains es ep where "hello = handshake_message_to_vec C (build_ik_client_hello_msg (kp_public (ik_ephemeral_kp st)) es ep)"
    "\<exists>n. st' = st\<lparr>ik_noise := n\<rparr>"
  using assms unfolding ik_build_client_hello_def
  by (auto split: prod.splits simp: ik_client_hello_def elim!: sbind_OkE) (auto simp: sret_def)

lemma finish_agrees:
  assumes "suite_ok S"
  obtains wr rd where "noise_split S fin = Ok (wr, rd)"
    "finish_xx_outcome S fin (Some verdict) = Ok \<lparr>xo_write_cipher = wr, xo_read_cipher = rd,
       xo_server_cert_chain = (case verdict of Trusted c \<Rightarrow> Some c | Untrusted \<Rightarrow> None)\<rparr>"
proof -
  obtain wr rd wk rk where "noise_split S fin = Ok (wr, rd)" by (rule split_total [OF assms]) (rule that)
  then show thesis by (intro that [of wr rd]) (simp_all add: finish_xx_outcome_def split: chain_acceptance.split)
qed

lemma kp_ok_length: "suite_ok S \<Longrightarrow> kp_ok S kp \<Longrightarrow> length (kp_public kp) = 32"
  using suite_okD(4) by (auto simp: kp_ok_def)

lemma xx_sides:
  assumes "suite_ok S" "kp_ok S eph" "kp_ok S stat" "kp_ok S ident" "kp_ok S se"
    and "\<And>m. handshake_message_decode C (handshake_message_to_vec C m) = Ok m"
    and "verify_chain S C cert (kp_public ident) policy = Ok verdict"
    and "64 + length cert \<le> pr_keystream_len (su_prims S)" "32 + length payload \<le> pr_keystream_len (su_prims S)"
    and "st = xx_new_with_cert_policy S eph stat payload prologue policy"
  shows "\<exists>sh srv cf st' fin wr rd.
      respond_hello S C ident cert se (xx_build_client_hello C st) NOISE_PATTERN_XX prologue = (Ok sh, srv) \<and>
      read_server_hello_and_build_client_finish S C sh st = (Ok cf, st') \<and>
      respond_finish S C se cf srv = (Ok (kp_public stat, payload), fin) \<and> noise_split S fin = Ok (wr, rd) \<and>
      xx_finish S st' = Ok \<lparr>xo_write_cipher = wr, xo_read_cipher = rd,
        xo_server_cert_chain = (case verdict of Trusted c \<Rightarrow> Some c | Untrusted \<Rightarrow> None)\<rparr>"
proof -
  note l = kp_ok_length [OF assms(1,5)] and r = assms(6)
  let ?hello = "handshake_message_to_vec C (build_client_hello_msg (kp_public eph))"
  obtain ssc cc cf srv fin where
    x: "respond_hello S C ident cert se ?hello NOISE_PATTERN_XX prologue =
       (Ok (handshake_message_to_vec C (no_message\<lparr>hm_server_hello :=
         Some \<lparr>sh_ephemeral = Some (kp_public se), sh_static = Some ssc, sh_payload = Some cc\<rparr>\<rparr>)), srv)"
    "process_xx_server_hello_into S C eph stat payload (kp_public se) ssc cc policy
       (authenticate S (kp_public eph) (noise_state_new S NOISE_PATTERN_XX prologue), None) = (Ok cf, fin, Some verdict)"
    "respond_finish S C se cf srv = (Ok (kp_public stat, payload), fin)"
    by (rule xx_exchange [OF assms(1-6) r _ _ assms(7-9), of "build_client_hello_msg (kp_public eph)"
          "\<lparr>ch_ephemeral = Some (kp_public eph), ch_static = None, ch_payload = None\<rparr>"])
      (simp add: build_client_hello_msg_def, simp, rule that)
  obtain wr rd where f: "noise_split S fin = Ok (wr, rd)"
    "finish_xx_outcome S fin (Some verdict) = Ok \<lparr>xo_write_cipher = wr, xo_read_cipher = rd,
       xo_server_cert_chain = (case verdict of Trusted c \<Rightarrow> Some c | Untrusted \<Rightarrow> None)\<rparr>"
    by (rule finish_agrees [OF assms(1)]) (rule that)
  show ?thesis
    using x f parse_own_hello(2) [OF r l, of ssc cc]
    by (intro exI conjI)
      (auto simp: assms(10) xx_build_client_hello_def xx_new_with_cert_policy_def read_server_hello_and_build_client_finish_def xx_finish_def)
qed

lemma fallback_sides:
  assumes "suite_ok S" "kp_ok S eph" "kp_ok S stat" "kp_ok S ident" "kp_ok S se"
    and "\<And>m. handshake_message_decode C (handshake_message_to_vec C m) = Ok m"
    and "verify_chain S C cert (kp_public ident) policy = Ok verdict"
    and "64 + length cert \<le> pr_keystream_len (su_prims S)" "32 + length payload \<le> pr_keystream_len (su_prims S)"
    and "ik_build_client_hello S C (ik_new S eph stat server_pub payload prologue) = (Ok ik_hello, ik)"
  shows "\<exists>sh srv inputs cf fb fin wr rd.
      respond_hello S C ident cert se ik_hello NOISE_PATTERN_XXFALLBACK prologue = (Ok sh, srv) \<and>
      ik_read_server_hello S C sh ik = Ok (Fallback inputs) \<and>
      fallback_build_client_finish S C (from_ik_failure_with_cert_policy S inputs prologue policy) = (Ok cf, fb) \<and>
      respond_finish S C se cf srv = (Ok (kp_public stat, payload), fin) \<and> noise_split S fin = Ok (wr, rd) \<and>
      fallback_finish S fb = Ok \<lparr>xo_write_cipher = wr, xo_read_cipher = rd,
        xo_server_cert_chain = (case verdict of Trusted c \<Rightarrow> Some c | Untrusted \<Rightarrow> None)\<rparr>"
proof -
  note l = kp_ok_length [OF assms(1,5)] and r = assms(6)
  obtain es ep n where h: "ik_hello = handshake_message_to_vec C (build_ik_client_hello_msg (kp_public eph) es ep)"
    "ik = (ik_new S eph stat server_pub payload prologue)\<lparr>ik_noise := n\<rparr>"
    by (rule ik_hello_is [OF assms(10)]) (auto simp: ik_new_def intro: that)
  obtain ssc cc cf srv fin where
    x: "respond_hello S C ident cert se ik_hello NOISE_PATTERN_XXFALLBACK prologue =
       (Ok (handshake_message_to_vec C (no_message\<lparr>hm_server_hello :=
         Some \<lparr>sh_ephemeral = Some (kp_public se), sh_static = Some ssc, sh_payload = Some cc\<rparr>\<rparr>)), srv)"
    "process_xx_server_hello_into S C eph stat payload (kp_public se) ssc cc policy
       (authenticate S (kp_public eph) (noise_state_new S NOISE_PATTERN_XXFALLBACK prologue), None) = (Ok cf, fin, Some verdict)"
    "respond_finish S C se cf srv = (Ok (kp_public stat, payload), fin)"
    by (rule xx_exchange [OF assms(1-6) r [of "build_ik_client_hello_msg (kp_public eph) es ep", folded h(1)] _ _ assms(7-9),
          of "\<lparr>ch_ephemeral = Some (kp_public eph), ch_static = Some es, ch_payload = Some ep\<rparr>"])
      (simp add: build_ik_client_hello_msg_def, simp, rule that)
  obtain wr rd where f: "noise_split S fin = Ok (wr, rd)"
    "finish_xx_outcome S fin (Some verdict) = Ok \<lparr>xo_write_cipher = wr, xo_read_cipher = rd,
       xo_server_cert_chain = (case verdict of Trusted c \<Rightarrow> Some c | Untrusted \<Rightarrow> None)\<rparr>"
    by (rule finish_agrees [OF assms(1)]) (rule that)
  show ?thesis
    using x f parse_own_hello [OF r l, of ssc cc]
    by (intro exI conjI)
      (auto simp: h(2) ik_new_def ik_read_server_hello_def from_ik_failure_with_cert_policy_def fallback_build_client_finish_def fallback_finish_def)
qed

text \<open>C3. Both sides of a handshake agree. For all valid key pairs and every certificate chain the client accepts,
  the XX handshake between a client and the server of the tests succeeds: the server learns the static
  key and the payload of the client, and both derive the same pair of transport ciphers. The same holds
  for the XX fallback, in which the server answers the hello of a failed IK. The digest, the key
  derivation and the encoding of messages are arbitrary; the two sides of an agreement are assumed to match.\<close>

theorem xx_agreement:
  assumes "suite_ok S" "kp_ok S eph" "kp_ok S stat" "kp_ok S ident" "kp_ok S se"
    and "\<And>m. handshake_message_decode C (handshake_message_to_vec C m) = Ok m"
    and "verify_chain S C cert (kp_public ident) policy = Ok verdict"
    and "64 + length cert \<le> pr_keystream_len (su_prims S)" "32 + length payload \<le> pr_keystream_len (su_prims S)"
    and "st = xx_new_with_cert_policy S eph stat payload prologue policy"
    and "ik_build_client_hello S C (ik_new S eph stat server_pub payload prologue) = (Ok ik_hello, ik)"
  shows "(\<exists>sh srv cf st' fin wr rd.
      respond_hello S C ident cert se (xx_build_client_hello C st) NOISE_PATTERN_XX prologue = (Ok sh, srv) \<and>
      read_server_hello_and_build_client_finish S C sh st = (Ok cf, st') \<and>
      respond_finish S C se cf srv = (Ok (kp_public stat, payload), fin) \<and> noise_split S fin = Ok (wr, rd) \<and>
      xx_finish S st' = Ok \<lparr>xo_write_cipher = wr, xo_read_cipher = rd,
        xo_server_cert_chain = (case verdict of Trusted c \<Rightarrow> Some c | Untrusted \<Rightarrow> None)\<rparr>) \<and>
    (\<exists>sh srv inputs cf fb fin wr rd.
      respond_hello S C ident cert se ik_hello NOISE_PATTERN_XXFALLBACK prologue = (Ok sh, srv) \<and>
      ik_read_server_hello S C sh ik = Ok (Fallback inputs) \<and>
      fallback_build_client_finish S C (from_ik_failure_with_cert_policy S inputs prologue policy) = (Ok cf, fb) \<and>
      respond_finish S C se cf srv = (Ok (kp_public stat, payload), fin) \<and> noise_split S fin = Ok (wr, rd) \<and>
      fallback_finish S fb = Ok \<lparr>xo_write_cipher = wr, xo_read_cipher = rd,
        xo_server_cert_chain = (case verdict of Trusted c \<Rightarrow> Some c | Untrusted \<Rightarrow> None)\<rparr>)"
  using xx_sides [OF assms(1-10)] fallback_sides [OF assms(1-9,11)] by (rule conjI)

section \<open>A suite and a codec\<close>

text \<open>A suite that meets the contract, and a codec that writes every byte behind a marker.\<close>

definition toy_suite :: "u8 list suite" where
  "toy_suite = \<lparr>su_prims = toy_prims, su_sha256 = (\<lambda>xs. take 32 (xs @ replicate 32 0)), su_hkdf = (\<lambda>salt ikm n. Some (replicate n 3)),
     su_clamp = id, su_agree = map2 (+), su_public = id, su_verify = (\<lambda>key msg sig. True)\<rparr>"

lemma toy_suite_ok: "suite_ok toy_suite"
proof -
  have "map2 (+) a b = map2 (+) b a" if "length a = length b" for a b :: "u8 list"
    by (rule nth_equalityI) (use that in \<open>simp_all add: add.commute\<close>)
  then show ?thesis by (simp add: suite_ok_def toy_suite_def toy_ok min_def)
qed

definition put_bytes :: "u8 list \<Rightarrow> u8 list" where
  "put_bytes xs = concat (map (\<lambda>b. [1, b]) xs) @ [0]"

fun get_bytes :: "u8 list \<Rightarrow> u8 list \<times> u8 list" where
  "get_bytes (m # b # r) = (if m = 0 then ([], b # r) else case get_bytes r of (xs, r) \<Rightarrow> (b # xs, r))"
| "get_bytes r = ([], [])"

lemma get_put_bytes [simp]: "get_bytes (put_bytes xs @ r) = (xs, r)"
  by (induction xs; cases r) (simp_all add: put_bytes_def)

fun put_opt :: "('a \<Rightarrow> u8 list) \<Rightarrow> 'a option \<Rightarrow> u8 list" where
  "put_opt f None = [0]"
| "put_opt f (Some x) = 1 # f x"

fun get_opt :: "(u8 list \<Rightarrow> 'a \<times> u8 list) \<Rightarrow> u8 list \<Rightarrow> 'a option \<times> u8 list" where
  "get_opt f [] = (None, [])"
| "get_opt f (m # r) = (if m = 0 then (None, r) else case f r of (x, r) \<Rightarrow> (Some x, r))"

lemma get_put_opt: "(\<And>x r. f (g x @ r) = (x, r)) \<Longrightarrow> get_opt f (put_opt g v @ r) = (v, r)"
  by (cases v) simp_all

definition put_three :: "u8 list option \<times> u8 list option \<times> u8 list option \<Rightarrow> u8 list" where
  "put_three = (\<lambda>(a, b, c). put_opt put_bytes a @ put_opt put_bytes b @ put_opt put_bytes c)"

definition get_three :: "u8 list \<Rightarrow> (u8 list option \<times> u8 list option \<times> u8 list option) \<times> u8 list" where
  "get_three r = (let (a, r) = get_opt get_bytes r; (b, r) = get_opt get_bytes r; (c, r) = get_opt get_bytes r in ((a, b, c), r))"

lemma get_put_three: "get_three (put_three x @ r) = (x, r)"
  by (cases x) (simp add: get_three_def put_three_def get_put_opt Let_def)

definition put_message :: "handshake_message \<Rightarrow> u8 list" where
  "put_message m =
     put_opt put_three (map_option (\<lambda>h. (ch_ephemeral h, ch_static h, ch_payload h)) (hm_client_hello m)) @
     put_opt put_three (map_option (\<lambda>h. (sh_ephemeral h, sh_static h, sh_payload h)) (hm_server_hello m)) @
     put_opt put_three (map_option (\<lambda>h. (cf_static h, cf_payload h, None)) (hm_client_finish m))"

definition get_message :: "u8 list \<Rightarrow> handshake_message" where
  "get_message r =
     (let (c, r) = get_opt get_three r; (s, r) = get_opt get_three r; (f, r) = get_opt get_three r in
      \<lparr>hm_client_hello = map_option (\<lambda>(a, b, c). \<lparr>ch_ephemeral = a, ch_static = b, ch_payload = c\<rparr>) c,
       hm_server_hello = map_option (\<lambda>(a, b, c). \<lparr>sh_ephemeral = a, sh_static = b, sh_payload = c\<rparr>) s,
       hm_client_finish = map_option (\<lambda>(a, b, c). \<lparr>cf_static = a, cf_payload = b\<rparr>) f\<rparr>)"

lemma get_put_message: "get_message (put_message m) = m"
proof -
  have e: "get_opt get_three (put_opt put_three v) = (v, [])" for v using get_put_opt [OF get_put_three, of v "[]"] by simp
  show ?thesis
    by (cases m; cases "hm_client_hello m"; cases "hm_server_hello m"; cases "hm_client_finish m")
      (simp_all add: get_message_def put_message_def get_put_opt [OF get_put_three] e Let_def del: put_opt.simps)
qed

text \<open>Its certificates carry the key of the leaf as the bytes of the leaf.\<close>

definition toy_codec :: codec where
  "toy_codec = \<lparr>handshake_message_to_vec = put_message, handshake_message_decode = (\<lambda>bs. Ok (get_message bs)),
     cert_chain_decode = (\<lambda>bs. Ok \<lparr>cc_leaf = Some \<lparr>nc_details = Some bs, nc_signature = Some (replicate 64 0)\<rparr>,
       cc_intermediate = Some \<lparr>nc_details = Some [1], nc_signature = Some (replicate 64 0)\<rparr>\<rparr>),
     certificate_details_decode = (\<lambda>bs.
       if bs = [1] then Ok \<lparr>cd_serial = Some 7, cd_issuer_serial = Some 0, cd_key = Some (replicate 32 5), cd_not_before = None, cd_not_after = None\<rparr>
       else Ok \<lparr>cd_serial = None, cd_issuer_serial = Some 7, cd_key = Some bs, cd_not_before = None, cd_not_after = None\<rparr>)\<rparr>"

definition toy_chain :: "u8 list \<Rightarrow> verified_chain" where
  "toy_chain key = \<lparr>vc_intermediate_key = replicate 32 5, vc_intermediate_not_before = 0, vc_intermediate_not_after = 0,
     vc_leaf_key = key, vc_leaf_not_before = 0, vc_leaf_not_after = 0\<rparr>"

lemma toy_verify: "length key = 32 \<Longrightarrow> verify_chain toy_suite toy_codec key key Strict = Ok (Trusted (toy_chain key))"
  by (auto simp: verify_chain_def toy_codec_def toy_suite_def toy_chain_def verify_cert_step_def skip_signature_check_def verify_signature_def
      from_djb_public_key_bytes_def WA_CERT_PUB_KEY_def as_i64_def Let_def)

definition toy_kp :: "u8 \<Rightarrow> key_pair" where
  "toy_kp b = \<lparr>kp_public = replicate 32 b, kp_private = replicate 32 b\<rparr>"

lemma toy_kp_ok: "kp_ok toy_suite (toy_kp b)"
  by (simp add: kp_ok_def toy_kp_def toy_suite_def)

lemma toy_ik:
  obtains hello ik where "ik_build_client_hello toy_suite toy_codec (ik_new toy_suite (toy_kp 1) (toy_kp 2) (kp_public (toy_kp 9)) [5, 6] [7]) = (Ok hello, ik)"
proof -
  let ?n = "authenticate toy_suite (kp_public (toy_kp 1)) (authenticate toy_suite (kp_public (toy_kp 9)) (noise_state_new toy_suite NOISE_PATTERN_IK [7]))"
  have p: "pr_keystream_len (su_prims toy_suite) = 1000" by (simp add: toy_suite_def toy_prims_def)
  obtain n1 where n1: "hs_mix_shared_secret toy_suite (kp_private (toy_kp 1)) (kp_public (toy_kp 9)) ?n = (Ok (), n1)" "length (ns_key n1) = 32" "ns_counter n1 = 0"
    by (rule hs_mix_step [OF toy_suite_ok toy_kp_ok toy_kp_ok]) (rule that)
  have "ns_counter n1 \<noteq> - 1" "32 + length (kp_public (toy_kp 2)) \<le> pr_keystream_len (su_prims toy_suite)" using n1 by (simp_all add: p toy_kp_def)
  then obtain es n2 where n2: "hs_encrypt toy_suite (kp_public (toy_kp 2)) n1 = (Ok es, n2)"
    by (rule hs_crypt_step [OF toy_suite_ok n1(2)]) (rule that)
  obtain n3 where n3: "hs_mix_shared_secret toy_suite (kp_private (toy_kp 2)) (kp_public (toy_kp 9)) n2 = (Ok (), n3)" "length (ns_key n3) = 32" "ns_counter n3 = 0"
    by (rule hs_mix_step [OF toy_suite_ok toy_kp_ok toy_kp_ok]) (rule that)
  have "ns_counter n3 \<noteq> - 1" "32 + length [5, 6 :: u8] \<le> pr_keystream_len (su_prims toy_suite)" using n3 by (simp_all add: p)
  then obtain ep n4 where n4: "hs_encrypt toy_suite [5, 6] n3 = (Ok ep, n4)"
    by (rule hs_crypt_step [OF toy_suite_ok n3(2)]) (rule that)
  show thesis using n1(1) n2 n3(1) n4
    by (intro that) (simp add: ik_build_client_hello_def ik_client_hello_def ik_new_def sbind_def smodify_def sret_def)
qed

lemmas toy_facts = toy_suite_ok toy_kp_ok [of 1] toy_kp_ok [of 2] toy_kp_ok [of 9] toy_kp_ok [of 4]

theorem xx_agreement_witness:
  "\<exists>sh srv cf fin. respond_hello toy_suite toy_codec (toy_kp 9) (kp_public (toy_kp 9)) (toy_kp 4)
      (xx_build_client_hello toy_codec (xx_new_with_cert_policy toy_suite (toy_kp 1) (toy_kp 2) [5, 6] [7] Strict)) NOISE_PATTERN_XX [7] = (Ok sh, srv) \<and>
    respond_finish toy_suite toy_codec (toy_kp 4) cf srv = (Ok (kp_public (toy_kp 2), [5, 6]), fin)"
proof (rule toy_ik)
  fix hello ik
  assume ik: "ik_build_client_hello toy_suite toy_codec (ik_new toy_suite (toy_kp 1) (toy_kp 2) (kp_public (toy_kp 9)) [5, 6] [7]) = (Ok hello, ik)"
  have c: "handshake_message_decode toy_codec (handshake_message_to_vec toy_codec m) = Ok m" for m
    by (simp add: toy_codec_def get_put_message)
  have v: "verify_chain toy_suite toy_codec (kp_public (toy_kp 9)) (kp_public (toy_kp 9)) Strict = Ok (Trusted (toy_chain (kp_public (toy_kp 9))))"
    by (rule toy_verify) (simp add: toy_kp_def)
  have "64 + length (kp_public (toy_kp 9)) \<le> pr_keystream_len (su_prims toy_suite)" "32 + length [5, 6 :: u8] \<le> pr_keystream_len (su_prims toy_suite)"
    by (simp_all add: toy_suite_def toy_prims_def toy_kp_def)
  from xx_agreement [OF toy_facts c v this refl ik, THEN conjunct1] show ?thesis by blast
qed

lemma toy_round:
  obtains sh cf st' out where
    "read_server_hello_and_build_client_finish toy_suite toy_codec sh (xx_new_with_cert_policy toy_suite (toy_kp 1) (toy_kp 2) [5, 6] [7] Strict) = (Ok cf, st')"
    "xx_finish toy_suite st' = Ok out" "xo_server_cert_chain out = Some (toy_chain (kp_public (toy_kp 9)))"
proof -
  have c: "handshake_message_decode toy_codec (handshake_message_to_vec toy_codec m) = Ok m" for m
    by (simp add: toy_codec_def get_put_message)
  have v: "verify_chain toy_suite toy_codec (kp_public (toy_kp 9)) (kp_public (toy_kp 9)) Strict = Ok (Trusted (toy_chain (kp_public (toy_kp 9))))"
    by (rule toy_verify) (simp add: toy_kp_def)
  have "64 + length (kp_public (toy_kp 9)) \<le> pr_keystream_len (su_prims toy_suite)" "32 + length [5, 6 :: u8] \<le> pr_keystream_len (su_prims toy_suite)"
    by (simp_all add: toy_suite_def toy_prims_def toy_kp_def)
  from xx_sides [OF toy_facts c v this refl] show thesis using that by fastforce
qed

lemma toy_fallback_round:
  obtains fb cf fb' out where "fallback_build_client_finish toy_suite toy_codec fb = (Ok cf, fb')" "fallback_finish toy_suite fb' = Ok out"
proof (rule toy_ik)
  fix hello ik
  assume ik: "ik_build_client_hello toy_suite toy_codec (ik_new toy_suite (toy_kp 1) (toy_kp 2) (kp_public (toy_kp 9)) [5, 6] [7]) = (Ok hello, ik)"
  have c: "handshake_message_decode toy_codec (handshake_message_to_vec toy_codec m) = Ok m" for m
    by (simp add: toy_codec_def get_put_message)
  have v: "verify_chain toy_suite toy_codec (kp_public (toy_kp 9)) (kp_public (toy_kp 9)) Strict = Ok (Trusted (toy_chain (kp_public (toy_kp 9))))"
    by (rule toy_verify) (simp add: toy_kp_def)
  have "64 + length (kp_public (toy_kp 9)) \<le> pr_keystream_len (su_prims toy_suite)" "32 + length [5, 6 :: u8] \<le> pr_keystream_len (su_prims toy_suite)"
    by (simp_all add: toy_suite_def toy_prims_def toy_kp_def)
  from fallback_sides [OF toy_facts c v this ik] show thesis using that by blast
qed

theorem only_signed_chains_trusted_witness:
  "\<exists>cert. chain_signed toy_suite toy_codec cert (toy_chain (kp_public (toy_kp 9)))"
proof (rule toy_round, rule toy_fallback_round)
  fix sh cf st' out fb cf' fb' out'
  assume a: "read_server_hello_and_build_client_finish toy_suite toy_codec sh (xx_new_with_cert_policy toy_suite (toy_kp 1) (toy_kp 2) [5, 6] [7] Strict) = (Ok cf, st')"
    "xx_finish toy_suite st' = Ok out" "xo_server_cert_chain out = Some (toy_chain (kp_public (toy_kp 9)))"
    "fallback_build_client_finish toy_suite toy_codec fb = (Ok cf', fb')" "fallback_finish toy_suite fb' = Ok out'"
  obtain se ssc cc where p: "parse_hello_or toy_codec sh = Ok (se, ssc, cc)"
    using a(1) by (auto simp: read_server_hello_and_build_client_finish_def split: outcome.splits)
  obtain se' ssc' cc' where q: "parse_hello_or toy_codec (fs_server_hello_bytes fb) = Ok (se', ssc', cc')"
    using a(4) by (auto simp: fallback_build_client_finish_def split: outcome.splits)
  from only_signed_chains_trusted [OF p q a(1,2,4,5)] a(3) show ?thesis by blast
qed

end
