(* ===== verification/Noise_Session_Laws.thy ===== *)
theory Noise_Session_Laws
  imports Noise_Session Handshake_Laws
begin

text \<open>
  What two sessions of the bridge do together: every node that is \<open>sendable\<close> and that one of them encodes reaches the
  other, whatever chunks the transport cuts the frames into, and which nonces a session seals with.
\<close>

unbundle bit_operations_syntax

section \<open>Runs\<close>

fun session_send :: "'g suite \<Rightarrow> token_tables \<Rightarrow> (64 word \<Rightarrow> str) \<Rightarrow> js_node list \<Rightarrow> ('g session, js_error, u8 list) act" where
  "session_send S T F [] = sret (Ok [])"
| "session_send S T F (j # js) =
     sbind (session_encode_frame S T F j) (\<lambda>bs. sbind (session_send S T F js) (\<lambda>rest. sret (Ok (bs @ rest))))"

fun session_receive :: "'g suite \<Rightarrow> (u8 list \<Rightarrow> (str, u8 list) outcome) \<Rightarrow> codec_env \<Rightarrow> (allocator \<times> u8 list) list \<Rightarrow>
    ('g session, js_error, received list) act" where
  "session_receive S zlib E [] = sret (Ok [])"
| "session_receive S zlib E ((al, data) # chunks) =
     sbind (session_decode_frame S zlib E al data) (\<lambda>xs.
     sbind (session_receive S zlib E chunks) (\<lambda>ys. sret (Ok (xs @ ys))))"

text \<open>A node that fits the codec and a frame: it can be read back, marshals to fewer than 16 MiB with the tag, and
  does not use up the key stream.\<close>

definition sendable :: "'g suite \<Rightarrow> token_tables \<Rightarrow> node \<Rightarrow> bool" where
  "sendable S T n \<longleftrightarrow> wire_node T n \<and> node_depth n \<le> MAX_NODE_DEPTH \<and> encodable n \<and>
     (case marshal T n of
        Ok bs \<Rightarrow> length bs + 16 < FRAME_MAX_SIZE \<and> 32 + length bs \<le> pr_keystream_len (su_prims S)
      | _ \<Rightarrow> True)"

section \<open>Receiving\<close>

text \<open>Frames that open, from a counter on, to nodes.\<close>

fun sealed :: "'g suite \<Rightarrow> (u8 list \<Rightarrow> (str, u8 list) outcome) \<Rightarrow> codec_env \<Rightarrow> 'g noise_cipher \<Rightarrow> u32 \<Rightarrow> u8 list list \<Rightarrow> node list \<Rightarrow> bool" where
  "sealed S zlib E k n [] xs \<longleftrightarrow> xs = []"
| "sealed S zlib E k n (f # fs) xs \<longleftrightarrow>
     (case xs of
        [] \<Rightarrow> False
      | x # xs \<Rightarrow> obind (omap_err (\<lambda>_. JsError []) (decrypt_in_place_with_counter S k n f)) (decode_node zlib E) = Ok x \<and> sealed S zlib E k (n + 1) fs xs)"

lemma sealed_append:
  "sealed S zlib E k n (fs @ gs) zs \<Longrightarrow>
    \<exists>xs ys. zs = xs @ ys \<and> sealed S zlib E k n fs xs \<and> sealed S zlib E k (n + of_nat (length fs)) gs ys"
proof (induction fs arbitrary: n zs)
  case (Cons f fs)
  from Cons.prems obtain z zs' where z: "zs = z # zs'" "sealed S zlib E k (n + 1) (fs @ gs) zs'" by (auto split: list.splits)
  from Cons.IH [OF z(2)] obtain xs ys where "zs' = xs @ ys" "sealed S zlib E k (n + 1) fs xs"
    "sealed S zlib E k (n + 1 + of_nat (length fs)) gs ys" by blast
  then show ?case using Cons.prems z(1) by (intro exI [of _ "z # xs"] exI [of _ ys]) (simp add: add.assoc)
qed simp

lemma receive_sealed:
  assumes "se_is_finished s" "se_dec_cipher s = Some k"
    and "obind (omap_err (\<lambda>_. JsError []) (decrypt_in_place_with_counter S k (se_read_counter s) f)) (decode_node zlib E) = Ok x"
  shows "receive_frame S zlib E f s = (Ok (ReceivedNode x), s\<lparr>se_read_counter := se_read_counter s + 1\<rparr>)"
  using assms by (cases "decrypt_in_place_with_counter S k (se_read_counter s) f")
    (simp_all add: receive_frame_def decrypt_vec_def act_defs Let_def)

lemma loop_sealed:
  assumes "se_is_finished s" "se_dec_cipher s = Some k" "parse_frames (fd_buffer (se_frame_decoder s)) = (fs, r)"
    and "sealed S zlib E k (se_read_counter s) fs xs"
  shows "\<exists>d. decode_loop S zlib E al s =
      (Ok (map ReceivedNode xs), s\<lparr>se_read_counter := se_read_counter s + of_nat (length fs), se_frame_decoder := d\<rparr>) \<and> fd_buffer d = r"
  using assms
proof (induction fs arbitrary: s xs)
  case Nil
  obtain o' d where d: "fd_decode_frame al (se_frame_decoder s) = (o', d)" by (rule prod.exhaust)
  with decode_frame_parses [of "se_frame_decoder s" al] Nil(3) have "o' = None" "fd_buffer d = r"
    by (auto split: option.splits prod.splits)
  with d Nil(4) show ?case by (intro exI [of _ d]) (simp add: decode_loop.simps [of S zlib E al s])
next
  case (Cons f fs)
  obtain o' d where d: "fd_decode_frame al (se_frame_decoder s) = (o', d)" by (rule prod.exhaust)
  with decode_frame_parses [of "se_frame_decoder s" al] Cons.prems(3) have o': "o' = Some f" "parse_frames (fd_buffer d) = (fs, r)"
    by (auto split: option.splits prod.splits)
  from Cons.prems(4) obtain y ys where xs: "xs = y # ys" "sealed S zlib E k (se_read_counter s + 1) fs ys"
    "obind (omap_err (\<lambda>_. JsError []) (decrypt_in_place_with_counter S k (se_read_counter s) f)) (decode_node zlib E) = Ok y"
    by (auto split: list.splits)
  let ?s = "s\<lparr>se_frame_decoder := d\<rparr>"
  have f: "receive_frame S zlib E f ?s = (Ok (ReceivedNode y), ?s\<lparr>se_read_counter := se_read_counter s + 1\<rparr>)"
    using receive_sealed [of ?s k S f zlib E y] Cons.prems(1,2) xs(3) by simp
  from Cons.IH [of "?s\<lparr>se_read_counter := se_read_counter s + 1\<rparr>" ys] Cons.prems(1,2) o'(2) xs(2) obtain d' where
    "decode_loop S zlib E al (?s\<lparr>se_read_counter := se_read_counter s + 1\<rparr>) =
      (Ok (map ReceivedNode ys), ?s\<lparr>se_read_counter := se_read_counter s + 1 + of_nat (length fs), se_frame_decoder := d'\<rparr>)" "fd_buffer d' = r"
    by auto
  then show ?case using d o'(1) f xs(1)
    by (intro exI [of _ d']) (simp add: decode_loop.simps [of S zlib E al s] add.assoc)
qed

lemma receive_reads:
  assumes "se_is_finished s" "se_dec_cipher s = Some k" "parse_frames (fd_buffer (se_frame_decoder s)) = ([], fd_buffer (se_frame_decoder s))"
    and "parse_frames (fd_buffer (se_frame_decoder s) @ concat (map snd chunks)) = (fs, r)" "sealed S zlib E k (se_read_counter s) fs xs"
  shows "\<exists>d. session_receive S zlib E chunks s =
      (Ok (map ReceivedNode xs), s\<lparr>se_read_counter := se_read_counter s + of_nat (length fs), se_frame_decoder := d\<rparr>) \<and> fd_buffer d = r"
  using assms
proof (induction chunks arbitrary: s fs xs)
  case Nil
  then show ?case by (intro exI [of _ "se_frame_decoder s"]) (simp add: act_defs)
next
  case (Cons rd chunks)
  obtain al data where rd: "rd = (al, data)" by (rule prod.exhaust)
  let ?s = "s\<lparr>se_frame_decoder := feed al data (se_frame_decoder s)\<rparr>"
  obtain gs b where p: "parse_frames (fd_buffer (se_frame_decoder s) @ data) = (gs, b)" by (rule prod.exhaust)
  obtain hs r' where q: "parse_frames (b @ concat (map snd chunks)) = (hs, r')" by (rule prod.exhaust)
  from Cons.prems(4) parse_frames_append [of "fd_buffer (se_frame_decoder s) @ data" "concat (map snd chunks)"] p q rd
  have fs: "fs = gs @ hs" "r' = r" by simp_all
  from sealed_append [OF Cons.prems(5) [unfolded fs(1)]] obtain us vs where
    v: "xs = us @ vs" "sealed S zlib E k (se_read_counter s) gs us" "sealed S zlib E k (se_read_counter s + of_nat (length gs)) hs vs" by blast
  from loop_sealed [of ?s k gs b S zlib E us al] Cons.prems(1,2) p v(2) obtain d where
    d: "decode_loop S zlib E al ?s = (Ok (map ReceivedNode us), s\<lparr>se_read_counter := se_read_counter s + of_nat (length gs), se_frame_decoder := d\<rparr>)"
      "fd_buffer d = b" by auto
  have b: "parse_frames b = ([], b)" using parse_frames_append [of "fd_buffer (se_frame_decoder s) @ data" "[]"] p by (simp split: prod.splits)
  from Cons.IH [of "s\<lparr>se_read_counter := se_read_counter s + of_nat (length gs), se_frame_decoder := d\<rparr>" hs vs] Cons.prems(1,2) d(2) b q fs(2) v(3)
  obtain d' where "session_receive S zlib E chunks (s\<lparr>se_read_counter := se_read_counter s + of_nat (length gs), se_frame_decoder := d\<rparr>) =
      (Ok (map ReceivedNode vs), s\<lparr>se_read_counter := se_read_counter s + of_nat (length gs) + of_nat (length hs), se_frame_decoder := d'\<rparr>)"
    "fd_buffer d' = r" by auto
  then show ?case using d(1) fs(1) v(1) rd
    by (intro exI [of _ d']) (simp add: act_defs session_decode_frame_def add.assoc)
qed

section \<open>Sending\<close>

abbreviation intro :: "'g session \<Rightarrow> u8 list" where
  "intro s \<equiv> (case se_intro_header s of Some h \<Rightarrow> h | None \<Rightarrow> [])"

lemma encode_sealed:
  assumes "suite_ok S" "length key = 32" "transport_aead (su_prims S) key = Ok k" "utf8_exact E" "tables_ok (toks E)" "2 \<le> str_frames E"
    and "se_is_finished s" "se_enc_cipher s = Some k" "js_to_node_ref F j = Ok n" "sendable S (toks E) n"
  shows "\<exists>f sc. session_encode_frame S (toks E) F j s =
      (Ok (intro s @ frame_bytes f), s\<lparr>se_write_counter := se_write_counter s + 1, se_intro_header := None, se_encode_scratch := sc\<rparr>) \<and>
    length f < FRAME_MAX_SIZE \<and> sealed S zlib E k (se_write_counter s) [f] [reread_node (toks E) n]"
proof -
  obtain bs where bs: "enc_node (toks E) n = Ok bs"
    using settles_node(1) [of n "toks E"] assms(10) by (auto simp: sendable_def settles_def split: outcome.splits)
  then have m: "marshal (toks E) n = Ok (FORMAT_PLAIN # bs)" by (simp add: marshal_is)
  have w: "wire_node (toks E) n" "node_depth n \<le> MAX_NODE_DEPTH" "length bs + 17 < FRAME_MAX_SIZE"
    "32 + length (FORMAT_PLAIN # bs) \<le> pr_keystream_len (su_prims S)"
    using assms(10) m by (simp_all add: sendable_def)
  obtain ct where ct: "encrypt_with_counter S k (se_write_counter s) (FORMAT_PLAIN # bs) = Ok ct"
    "decrypt_in_place_with_counter S k (se_write_counter s) ct = Ok (FORMAT_PLAIN # bs)" "length ct = length (FORMAT_PLAIN # bs) + 16"
    by (rule cipher_step [OF assms(1-3) w(4), of "se_write_counter s"]) (rule that)
  have "decode_node zlib E (FORMAT_PLAIN # bs) = Ok (reread_node (toks E) n)"
    using unmarshal_node [OF assms(4-6) w(1,2) bs] by (simp add: decode_node_def unpack_def)
  moreover have "session_encode_frame S (toks E) F j s =
      (Ok (intro s @ frame_bytes ct), s\<lparr>se_write_counter := se_write_counter s + 1, se_intro_header := None, se_encode_scratch := intro s @ frame_bytes ct\<rparr>)"
    using assms(7-9) m ct(1,3) w(3)
    by (simp add: session_encode_frame_def act_defs marshal_ref_twins encrypt_vec_def Let_def session_frame_def encode_frame_into_def append_frame_into_is)
  ultimately show ?thesis using ct(2,3) w(3) by auto
qed

lemma send_sealed:
  assumes "suite_ok S" "length key = 32" "transport_aead (su_prims S) key = Ok k" "utf8_exact E" "tables_ok (toks E)" "2 \<le> str_frames E"
    and "se_is_finished s" "se_enc_cipher s = Some k" "list_all2 (\<lambda>j n. js_to_node_ref F j = Ok n \<and> sendable S (toks E) n) js ns"
  shows "\<exists>fs s'. session_send S (toks E) F js s = (Ok ((if js = [] then [] else intro s) @ concat (map frame_bytes fs)), s') \<and>
    se_write_counter s' = se_write_counter s + of_nat (length js) \<and> length fs = length js \<and>
    list_all (\<lambda>f. length f < FRAME_MAX_SIZE) fs \<and> sealed S zlib E k (se_write_counter s) fs (map (reread_node (toks E)) ns)"
  using assms(9,7,8)
proof (induction js ns arbitrary: s rule: list_all2_induct)
  case Nil
  then show ?case by (intro exI [of _ "[]"] exI [of _ s]) (simp add: act_defs)
next
  case (Cons j js n ns)
  from encode_sealed [OF assms(1-6) Cons.prems, of F j n zlib] Cons.hyps(1) obtain f sc where
    f: "session_encode_frame S (toks E) F j s =
      (Ok (intro s @ frame_bytes f), s\<lparr>se_write_counter := se_write_counter s + 1, se_intro_header := None, se_encode_scratch := sc\<rparr>)"
    "length f < FRAME_MAX_SIZE" "sealed S zlib E k (se_write_counter s) [f] [reread_node (toks E) n]" by blast
  let ?s = "s\<lparr>se_write_counter := se_write_counter s + 1, se_intro_header := None, se_encode_scratch := sc\<rparr>"
  from Cons.IH [of ?s] Cons.prems obtain fs s' where
    "session_send S (toks E) F js ?s = (Ok (concat (map frame_bytes fs)), s')" "se_write_counter s' = se_write_counter s + 1 + of_nat (length js)"
    "length fs = length js" "list_all (\<lambda>f. length f < FRAME_MAX_SIZE) fs"
    "sealed S zlib E k (se_write_counter s + 1) fs (map (reread_node (toks E)) ns)" by (auto split: if_splits)
  with f show ?case by (intro exI [of _ "f # fs"] exI [of _ s']) (simp add: act_defs add.assoc)
qed

section \<open>Main results\<close>

text \<open>C2. Delivery. Two finished sessions share a key and a counter. Let every node of a list convert and be \<open>sendable\<close>: it is
  readable and at most 128 levels deep (the conditions of the round trip), and its payload with the tag is under 16 MiB.
  Then the list is sent without an error; the header goes out once, in front of the first frame. Whatever chunks
  the bytes behind it arrive in, the other session reads exactly these nodes, in order, in the form in which
  they are read back (\<open>reread_node\<close>); nothing stays in its buffer, and the two counters are equal again, also when
  they wrapped on the way.\<close>

theorem session_delivers:
  assumes "suite_ok S" "length key = 32" "transport_aead (su_prims S) key = Ok k" "utf8_exact E" "tables_ok (toks E)" "2 \<le> str_frames E"
    and "se_is_finished A" "se_enc_cipher A = Some k" "se_is_finished B" "se_dec_cipher B = Some k"
    and "se_read_counter B = se_write_counter A" "buffered_bytes B = 0"
    and "list_all2 (\<lambda>j n. js_to_node_ref F j = Ok n \<and> sendable S (toks E) n) js ns"
  shows "\<exists>wire A'. session_send S (toks E) F js A = (Ok ((if js = [] then [] else intro A) @ wire), A') \<and>
    (\<forall>chunks. concat (map snd chunks) = wire \<longrightarrow>
      (\<exists>B'. session_receive S zlib E chunks B = (Ok (map (ReceivedNode \<circ> reread_node (toks E)) ns), B') \<and>
        se_read_counter B' = se_write_counter A' \<and> buffered_bytes B' = 0))"
proof -
  from send_sealed [OF assms(1-8,13), of zlib] obtain fs A' where
    a: "session_send S (toks E) F js A = (Ok ((if js = [] then [] else intro A) @ concat (map frame_bytes fs)), A')"
      "se_write_counter A' = se_write_counter A + of_nat (length js)" "length fs = length js"
      "list_all (\<lambda>f. length f < FRAME_MAX_SIZE) fs" "sealed S zlib E k (se_write_counter A) fs (map (reread_node (toks E)) ns)" by blast
  have b: "fd_buffer (se_frame_decoder B) = []" using assms(12) by (simp add: buffered_bytes_def buffered_len_def)
  have nil: "parse_frames [] = ([], [])" by (subst parse_frames.simps) simp
  then have p: "parse_frames (concat (map frame_bytes fs)) = (fs, [])" using parse_frames_concat [OF a(4), of "[]"] by simp
  show ?thesis
  proof (rule exI [of _ "concat (map frame_bytes fs)"], rule exI [of _ A'], rule conjI [OF a(1)], intro allI impI)
    fix chunks :: "(allocator \<times> u8 list) list"
    assume "concat (map snd chunks) = concat (map frame_bytes fs)"
    with receive_reads [OF assms(9,10), of chunks fs "[]" S zlib E "map (reread_node (toks E)) ns"] nil p b a(5) assms(11) obtain d where
      "session_receive S zlib E chunks B =
        (Ok (map ReceivedNode (map (reread_node (toks E)) ns)), B\<lparr>se_read_counter := se_read_counter B + of_nat (length fs), se_frame_decoder := d\<rparr>)"
      "fd_buffer d = []" by auto
    then show "\<exists>B'. session_receive S zlib E chunks B = (Ok (map (ReceivedNode \<circ> reread_node (toks E)) ns), B') \<and>
        se_read_counter B' = se_write_counter A' \<and> buffered_bytes B' = 0"
      using a(2,3) assms(11) by (simp add: buffered_bytes_def buffered_len_def)
  qed
qed

definition iq_js :: js_node where
  "iq_js = JsNode (lit ''iq'') [(lit ''id'', JsNumber 7), (lit ''x'', JsString (lit '' '')), (lit ''type'', JsString (lit ''get''))] (JsArray [JsNode (lit ''abcde'') [] (JsText (lit ''12-34''))])"

definition iq_node :: node where
  "iq_node = Node (lit ''iq'') [(lit ''id'', VString (lit ''7'')), (lit ''type'', VString (lit ''get''))] (Some (Nodes [Node (lit ''abcde'') [] (Some (CString (lit ''12-34'')))]))"

lemma iq_converts: "js_to_node_ref (\<lambda>_. lit ''7'') iq_js = Ok iq_node"
  by code_simp

lemma iq_sendable: "sendable toy_suite sample_tables iq_node"
proof -
  have "wire_node sample_tables iq_node" by code_simp
  moreover have "enc_node sample_tables iq_node = Ok [248, 6, 1, 252, 2, 105, 100, 255, 129, 127, 252, 4, 116, 121, 112, 101,
     252, 3, 103, 101, 116, 248, 1, 248, 2, 236, 0, 255, 131, 18, 163, 79]" by code_simp
  moreover have "node_depth iq_node \<le> 128" "encodable iq_node" by (simp_all add: iq_node_def node_list_len_def)
  ultimately show ?thesis by (simp add: sendable_def marshal_is toy_suite_def toy_prims_def)
qed

definition toy_key :: "u8 list gcm_key" where
  "toy_key = (case transport_aead toy_prims (replicate 32 3) of Ok k \<Rightarrow> k)"

lemma toy_key_ok: "transport_aead toy_prims (replicate 32 3) = Ok toy_key"
  by (simp add: toy_key_def transport_aead_def gcm_key_new_def)

theorem session_delivers_witness:
  "\<exists>wire A' B'. session_send toy_suite sample_tables (\<lambda>_. lit ''7'') [iq_js, iq_js] (from_ciphers 3 plain_alloc toy_key toy_key None) =
      (Ok (intro (from_ciphers 3 plain_alloc toy_key toy_key None) @ wire), A') \<and>
    session_receive toy_suite (\<lambda>_. Err []) sample_env [(plain_alloc, take 5 wire), (plain_alloc, []), (plain_alloc, drop 5 wire)]
      (from_ciphers 3 plain_alloc toy_key toy_key None) = (Ok [ReceivedNode iq_node, ReceivedNode iq_node], B') \<and>
    se_read_counter B' = se_write_counter A'"
proof -
  let ?s = "from_ciphers 3 plain_alloc toy_key toy_key None"
  have e: "toks sample_env = sample_tables" "str_frames sample_env = 32" "su_prims toy_suite = toy_prims"
    by (simp_all add: sample_env_def toy_suite_def)
  have r: "reread_node sample_tables iq_node = iq_node" by code_simp
  have s: "se_is_finished ?s" "se_enc_cipher ?s = Some toy_key" "se_dec_cipher ?s = Some toy_key" "se_read_counter ?s = se_write_counter ?s"
    "buffered_bytes ?s = 0"
    by (simp_all add: from_ciphers_def buffered_bytes_def buffered_len_def frame_decoder_new_def)
  from session_delivers [OF toy_suite_ok, of "replicate 32 3" toy_key sample_env ?s ?s "\<lambda>_. lit ''7''" "[iq_js, iq_js]" "[iq_node, iq_node]" "\<lambda>_. Err []"]
    sample_env_exact sample_tables_ok toy_key_ok s e iq_converts iq_sendable obtain wire A' where
    a: "session_send toy_suite sample_tables (\<lambda>_. lit ''7'') [iq_js, iq_js] ?s = (Ok (intro ?s @ wire), A')"
    and w: "\<And>chunks. concat (map snd chunks) = wire \<Longrightarrow>
      \<exists>B'. session_receive toy_suite (\<lambda>_. Err []) sample_env chunks ?s = (Ok (map (ReceivedNode \<circ> reread_node sample_tables) [iq_node, iq_node]), B') \<and>
        se_read_counter B' = se_write_counter A' \<and> buffered_bytes B' = 0"
    by (auto simp del: session_send.simps)
  have "\<exists>B'. session_receive toy_suite (\<lambda>_. Err []) sample_env [(plain_alloc, take 5 wire), (plain_alloc, []), (plain_alloc, drop 5 wire)] ?s =
      (Ok [ReceivedNode iq_node, ReceivedNode iq_node], B') \<and> se_read_counter B' = se_write_counter A'"
    using w [of "[(plain_alloc, take 5 wire), (plain_alloc, []), (plain_alloc, drop 5 wire)]"] by (auto simp: r simp del: session_receive.simps)
  with a show ?thesis by blast
qed

definition after_sealing :: "'g suite \<Rightarrow> u8 list list \<Rightarrow> 'g session \<Rightarrow> 'g session" where
  "after_sealing S ps s = fold (\<lambda>p s. snd (encrypt_vec S p s)) ps s"

lemma after_sealing_counter:
  assumes "se_is_finished s" "se_enc_cipher s = Some k"
  shows "after_sealing S ps s = s\<lparr>se_write_counter := se_write_counter s + of_nat (length ps)\<rparr>"
  using assms
proof (induction ps arbitrary: s)
  case (Cons p ps)
  then show ?case using Cons.IH [of "s\<lparr>se_write_counter := se_write_counter s + 1\<rparr>"]
    by (simp add: after_sealing_def encrypt_vec_def Let_def add.assoc)
qed (simp add: after_sealing_def)

text \<open>C20. Nonces of a session. A finished session seals each message under the next counter and
  never checks the counter, so two messages of it are sealed under the same nonce exactly when their
  positions are equal modulo \<open>2 ^ 32\<close>: the first \<open>2 ^ 32\<close> nonces differ, and the message after
  them goes out under the nonce of the first, with the same key.\<close>

theorem session_nonces:
  assumes "se_is_finished s" "se_enc_cipher s = Some k"
  shows "fst (encrypt_vec S p (after_sealing S ps s)) =
      omap_err (\<lambda>e. JsError (lit ''Encryption failed: '' @ noise_error_fmt e))
        (encrypt_with_counter S k (se_write_counter (after_sealing S ps s)) p) \<and>
    (generate_iv (se_write_counter (after_sealing S ps s)) = generate_iv (se_write_counter (after_sealing S qs s)) \<longleftrightarrow>
      length ps mod 2 ^ 32 = length qs mod 2 ^ 32)"
proof -
  have "(of_nat m :: u32) = of_nat n \<longleftrightarrow> m mod 2 ^ 32 = n mod 2 ^ 32" for m n
    using word_unat_eq_iff [of "of_nat m :: u32" "of_nat n"] by (simp add: unat_of_nat)
  then show ?thesis using assms
    by (simp add: after_sealing_counter [OF assms] encrypt_vec_def Let_def generate_iv_inj)
qed

theorem session_nonces_witness:
  "generate_iv (se_write_counter (after_sealing toy_suite (replicate (2 ^ 32) [1]) (from_ciphers 3 plain_alloc toy_key toy_key None))) =
    generate_iv (se_write_counter (after_sealing toy_suite [] (from_ciphers 3 plain_alloc toy_key toy_key None)))"
proof -
  have "se_is_finished (from_ciphers 3 plain_alloc toy_key toy_key None)"
    "se_enc_cipher (from_ciphers 3 plain_alloc toy_key toy_key None) = Some toy_key" by (simp_all add: from_ciphers_def)
  from session_nonces [OF this, of toy_suite _ "replicate (2 ^ 32) [1]" "[]"] show ?thesis by simp
qed

end
