(* ===== verification/Spec2Isabelle.thy ===== *)
theory Spec2Isabelle
  imports Node_Stream_Laws Noise_Session_Laws
begin

text \<open>
  A verification library for the wire protocol of the WhatsApp bridge: what happens between a node that
  JavaScript hands to the bridge and the bytes on the transport, and back.

  \<^bold>\<open>The program.\<close> A stanza is a tree of nodes (a tag, attributes, a content). The crate
  \<open>internal/wacore/binary\<close> turns it into bytes with a dictionary of tokens, packed digits and a compact form of addresses
  (JIDs), and back, at once or as a stream over a compressed frame. The crate \<open>internal/wacore/noise\<close> encrypts and frames
  these bytes: a Noise handshake (XX, IK, or XXfallback) with a server whose certificate chain is checked gives two ciphers,
  every payload is sealed with AES-256-GCM under a counter and put in a frame with a length of three
  bytes. \<open>src/noise_session.rs\<close> is the session JavaScript sees, which puts all of this together.

  \<^bold>\<open>The theories\<close>, in the order in which they build on each other; file names are those of the crates above
  unless a path is given.

  \<^item> \<^verbatim>\<open>Prelude\<close>: results (a value, an error, or a panic), bytes and strings, decimal and big-endian numbers, UTF-8, and the parts
    of the standard library the code calls.
  \<^item> \<^verbatim>\<open>Token\<close>: the hash table \<open>build.rs\<close> lays out and the lookup of \<open>token.rs\<close>. The lookup ends and is exact for
    all token lists the build accepts; \<open>tables_ok\<close> is what the codec relies on.
  \<^item> \<^verbatim>\<open>Jid\<close>: \<open>jid.rs\<close>. The scanner and its fallback compute one grammar, the renderers (against the locale \<open>text_sink\<close>) one
    text; parsing inverts rendering on exactly described JIDs; equality, hashing and redaction.
  \<^item> \<^verbatim>\<open>Node\<close>: \<open>node.rs\<close>, \<open>builder.rs\<close>, \<open>attrs.rs\<close>, \<open>error.rs\<close>. The locale \<open>attr_store\<close> is the contract of the attribute
    list for the builder, \<open>attr_accessor\<close> that of the getters of the attribute parsers.
  \<^item> \<^verbatim>\<open>Decoder\<close>, \<^verbatim>\<open>Decoder_Laws\<close>: \<open>decoder.rs\<close> and the format byte of \<open>util.rs\<close>. Readers are functions on a position in the
    data; \<open>good_reader\<close> and \<open>safe\<close> say that they look at what they consume only and do not panic. Measuring a node agrees
    with reading it, decoding is stable under more input, text is UTF-8, trees are bounded.
  \<^item> \<^verbatim>\<open>Encoder\<close>, \<^verbatim>\<open>Encoder_Laws\<close>: \<open>encoder.rs\<close>. \<open>enc_str\<close>, \<open>enc_jid\<close> and \<open>enc_node\<close> are the reference: the bytes of a string,
    a JID, a node. The size plan predicts their length, and the encoder writes them on every writer that meets
    the locale \<open>byte_writer\<close>, with or without the tape of hints of a plan.
  \<^item> \<^verbatim>\<open>Read_Back\<close>: the decoder on the bytes of the reference, up to \<open>reads_node\<close>. \<open>wire_node\<close> says which trees can be read back,
    \<open>reread_node\<close> what comes back of them.
  \<^item> \<^verbatim>\<open>Marshal\<close>: \<open>marshal.rs\<close>. All strategies write the same payload; round trips; which trees fail; the reservations;
    strings that are written as JIDs nobody can read.
  \<^item> \<^verbatim>\<open>Zlib_Pool\<close>: \<open>zlib_pool.rs\<close>, the pool of inflate states, the inflating reader and the one-shot decompressor. Every loop
    ends, and a complete stream is inflated exactly, whatever pieces the engine returns.
  \<^item> \<^verbatim>\<open>Node_Stream\<close>, \<^verbatim>\<open>Node_Stream_Laws\<close>: \<open>stream.rs\<close> and the compressed frames of \<open>util.rs\<close>. The stream implements an
    abstract cursor over all bytes, by the locale \<open>window\<close>, for bytes in memory and for a complete zlib stream.
  \<^item> \<^verbatim>\<open>Framing\<close>: \<open>framing.rs\<close>, \<open>edge_routing.rs\<close>. The decoder computes \<open>parse_frames\<close> however the reads are cut, and
    gives memory back.
  \<^item> \<^verbatim>\<open>Aes_Gcm\<close>: \<open>aes_ctr.rs\<close>, \<open>aes_gcm.rs\<close> and the GCM part of \<open>provider.rs\<close>, all in \<open>internal/wacore/libsignal/src/crypto\<close>,
    against the mode of operation \<open>gcm_seal\<close>.
  \<^item> \<^verbatim>\<open>Noise\<close>: \<open>state.rs\<close>, \<open>error.rs\<close> and the keys of \<open>internal/wacore/libsignal/src/core/curve.rs\<close>. Stateful code is a function from
    the state to a result and a state (\<open>act\<close>, composed with \<open>sbind\<close>).
  \<^item> \<^verbatim>\<open>Handshake\<close>, \<^verbatim>\<open>Handshake_Laws\<close>: \<open>handshake.rs\<close>, with the responder of its tests as the other side. Both sides derive
    the same ciphers; only signed chains are trusted.
  \<^item> \<^verbatim>\<open>Noise_Session\<close>, \<^verbatim>\<open>Noise_Session_Laws\<close>: \<open>src/noise_session.rs\<close> and the conversions of \<open>src/binary.rs\<close>. What one session
    sends the other receives; which nonces a session uses.

  \<^bold>\<open>Parameters.\<close> Code outside the repository is an argument with the contract that is relied on: the UTF-8 validator
  (\<open>utf8_exact\<close>), the inflate engine (\<open>zlib_sane\<close>, \<open>inflates\<close>), the allocator of a buffer (\<open>alloc_ok\<close>), the block cipher and GHASH
  (\<open>ghash_ok\<close>), hash, key derivation and curve (\<open>suite_ok\<close>), the generated protobuf code (a decoder that inverts the encoder),
  the writer a caller passes, the text of a floating point number. Each contract has an instance, at which the
  theorems are applied.

  \<^bold>\<open>Bounds and fuel.\<close> A loop that is not structural takes fuel, and running out of it is a panic that is shown not to
  happen: \<open>WRITE_FRAMES\<close> nested strings for the encoder (each takes one \<open>@\<close> off at most 48 bytes), one round per byte for
  the inflating loops, 64 doublings of a stream's window. The decoder's nested strings are bounded in the source by
  the native stack alone: \<open>str_frames\<close> is what it has room for, exhausting it is a panic, and the theorems say which room is
  enough and that no fixed room is. A \<open>usize\<close> is unbounded and stands for 64 bits where a limit matters; counters and lengths of the
  wire format have their width.

  \<^bold>\<open>Not modelled.\<close> Owned and borrowed variants of the same data are one type, and a buffer is its contents, with the capacity where
  the code looks at it. The caches and getters of \<open>InternalBinaryNode\<close>, the serde implementations, signing and prepared
  verifiers are left out. Outside of this library are the rest of the workspace: the signal protocol (ratchets, sessions, sender
  keys), app state, calls, stanzas and requests, the stores, the asynchronous socket and client, the other bindings
  (JavaScript, C, JNI), and the generated protobuf code. They are separate subsystems, most of them asynchronous code over stores
  and generated types, that meet the wire protocol only through the operations modelled here.
\<close>

end
